(* ===== verification/Prelude.thy ===== *)
theory Prelude
  imports Main "HOL-Library.Word"
begin

section \<open>Shared vocabulary of the Elura models\<close>

text \<open>
  The types and the arithmetic every component theory uses.

  Rust's fixed-width unsigned integers are machine words, so that wrap-around is
  part of the type; their \<open>saturating_*\<close> and \<open>checked_*\<close> methods are
  \<open>sat_add\<close>, \<open>sat_sub\<close> and \<open>checked_add\<close> below. Lengths and capacities
  (\<open>usize\<close>) are natural numbers with the 64-bit limit written out where the code
  saturates. Signed identifiers (\<open>i64\<close>) are integers: the code compares them and
  casts them, and never adds to them. A \<open>Duration\<close> is its number of nanoseconds,
  bounded by \<open>Duration::MAX\<close>; the clock readings the code takes are arguments.

  A method with \<open>&mut self\<close> that returns a \<open>Result\<close> is a function from the
  old state to a pair of the result (\<open>Inl\<close> is the error) and the new state, so that
  what a failing call leaves behind is part of the model.
\<close>

type_synonym u8 = "8 word"
type_synonym u16 = "16 word"
type_synonym u32 = "32 word"
type_synonym u64 = "64 word"
type_synonym u128 = "128 word"
type_synonym i64 = int
type_synonym usize = nat
type_synonym duration = nat
type_synonym instant = nat
type_synonym uuid = nat

named_theorems rust_arith \<open>unsigned reading of saturating and checked arithmetic\<close>

subsection \<open>Saturating and checked arithmetic\<close>

definition sat_add :: "'a::len word \<Rightarrow> 'a word \<Rightarrow> 'a word" where
  "sat_add a b = (if a \<le> - 1 - b then a + b else - 1)"

definition sat_sub :: "'a::len word \<Rightarrow> 'a word \<Rightarrow> 'a word" where
  "sat_sub a b = (if b \<le> a then a - b else 0)"

definition checked_add :: "'a::len word \<Rightarrow> 'a word \<Rightarrow> 'a word option" where
  "checked_add a b = (if a \<le> - 1 - b then Some (a + b) else None)"

definition checked_sub :: "'a::len word \<Rightarrow> 'a word \<Rightarrow> 'a word option" where
  "checked_sub a b = (if b \<le> a then Some (a - b) else None)"

definition usize_max :: usize where
  "usize_max = 2 ^ 64 - 1"

definition usize_sat_add :: "usize \<Rightarrow> usize \<Rightarrow> usize" where
  "usize_sat_add a b = min (a + b) usize_max"

definition usize_sat_mul :: "usize \<Rightarrow> usize \<Rightarrow> usize" where
  "usize_sat_mul a b = min (a * b) usize_max"

text \<open>\<open>u64::try_from\<close> on a length.\<close>

definition u64_try_from :: "usize \<Rightarrow> u64 option" where
  "u64_try_from n = (if int n < 2 ^ 64 then Some (of_nat n) else None)"

definition duration_max :: duration where
  "duration_max = (2 ^ 64 - 1) * 1000000000 + 999999999"

definition dur_sat_add :: "duration \<Rightarrow> duration \<Rightarrow> duration" where
  "dur_sat_add a b = min (a + b) duration_max"

definition dur_sat_mul :: "duration \<Rightarrow> nat \<Rightarrow> duration" where
  "dur_sat_mul a n = min (a * n) duration_max"

definition dur_checked_sub :: "duration \<Rightarrow> duration \<Rightarrow> duration option" where
  "dur_checked_sub a b = (if b \<le> a then Some (a - b) else None)"

definition millis :: "nat \<Rightarrow> duration" where
  "millis n = n * 1000000"

definition secs :: "nat \<Rightarrow> duration" where
  "secs n = n * 1000000000"

subsection \<open>Facts about words\<close>

lemma unat_lt2p: "unat (a :: 'a::len word) < 2 ^ LENGTH('a)"
  by (rule unsigned_less)

lemma unat_max: "unat (- 1 :: 'a::len word) = 2 ^ LENGTH('a) - 1"
proof -
  have "unat (- 1 :: 'a word) = unat (of_nat (2 ^ LENGTH('a) - 1) :: 'a word)"
    by (simp add: of_nat_diff)
  also have "\<dots> = 2 ^ LENGTH('a) - 1"
    by (subst unat_of_nat) simp
  finally show ?thesis .
qed

lemma sat_guard_iff: "(a :: 'a::len word) \<le> - 1 - b \<longleftrightarrow> unat a + unat b < 2 ^ LENGTH('a)"
proof -
  have "unat (- 1 - b) = 2 ^ LENGTH('a) - 1 - unat b"
    by (simp add: unat_sub unat_max)
  then have "a \<le> - 1 - b \<longleftrightarrow> unat a \<le> 2 ^ LENGTH('a) - 1 - unat b"
    by (simp add: word_le_nat_alt)
  also have "\<dots> \<longleftrightarrow> unat a + unat b < 2 ^ LENGTH('a)"
    using unat_lt2p [of b] by arith
  finally show ?thesis .
qed

lemma unat_plus_guard:
  "(a :: 'a::len word) \<le> - 1 - b \<Longrightarrow> unat (a + b) = unat a + unat b"
  by (simp add: sat_guard_iff unat_add_lem)

lemma unat_sat_add [rust_arith]:
  "unat (sat_add (a :: 'a::len word) b) = min (unat a + unat b) (2 ^ LENGTH('a) - 1)"
  by (auto simp: sat_add_def unat_plus_guard unat_max sat_guard_iff)

lemma sat_succ_less:
  assumes "(n :: 'a::len word) \<noteq> - 1"
  shows "n < sat_add n 1"
proof -
  have "unat n \<noteq> 2 ^ LENGTH('a) - 1"
    using assms by (metis unat_max word_unat_eq_iff)
  then have "unat n + 1 < 2 ^ LENGTH('a)"
    using unat_lt2p [of n] by linarith
  then show ?thesis
    using unat_sat_add [of n 1] by (cases "LENGTH('a) = 0") (auto simp: word_less_nat_alt)
qed

lemma unat_sat_sub [rust_arith]:
  "unat (sat_sub (a :: 'a::len word) b) = unat a - unat b"
  by (auto simp: sat_sub_def unat_sub word_le_nat_alt)

lemma checked_add_Some_iff [rust_arith]:
  "checked_add (a :: 'a::len word) b = Some c \<longleftrightarrow> unat c = unat a + unat b"
proof
  assume "checked_add a b = Some c"
  then show "unat c = unat a + unat b"
    by (auto simp: checked_add_def unat_plus_guard split: if_splits)
next
  assume c: "unat c = unat a + unat b"
  then have "unat a + unat b < 2 ^ LENGTH('a)"
    by (metis unat_lt2p)
  then have guard: "a \<le> - 1 - b"
    by (simp add: sat_guard_iff)
  then have "a + b = c"
    using c by (simp add: word_unat_eq_iff unat_plus_guard)
  with guard show "checked_add a b = Some c"
    by (simp add: checked_add_def)
qed

lemma checked_add_None_iff:
  "checked_add (a :: 'a::len word) b = None \<longleftrightarrow> 2 ^ LENGTH('a) \<le> unat a + unat b"
  by (simp add: checked_add_def sat_guard_iff not_less)

lemma unat_succ_less: "(a :: 'a::len word) < b \<Longrightarrow> unat (a + 1) = unat a + 1"
proof -
  assume "a < b"
  then have "unat a + 1 < 2 ^ LENGTH('a)"
    unfolding word_less_nat_alt using unat_lt2p [of b] by arith
  then have "a \<le> - 1 - 1"
    unfolding sat_guard_iff by simp
  then show ?thesis
    by (simp only: unat_plus_guard) simp
qed

lemma checked_succ: "(a :: 'a::len word) < b \<Longrightarrow> checked_add a 1 = Some (a + 1)"
  by (simp add: checked_add_Some_iff unat_succ_less)

lemma sat_add_le [simp]: "(a :: 'a::len word) \<le> sat_add a b"
  unfolding word_le_nat_alt unat_sat_add using unat_lt2p [of a] by arith

lemma sat_sub_le [simp]: "sat_sub (a :: 'a::len word) b \<le> a"
  by (simp add: word_le_nat_alt unat_sat_sub)

lemma sat_add_mono: "(a :: 'a::len word) \<le> a' \<Longrightarrow> sat_add a b \<le> sat_add a' b"
  by (auto simp: word_le_nat_alt unat_sat_add)

lemma word_pos_iff: "(a :: 'a::len word) \<noteq> 0 \<longleftrightarrow> 0 < unat a"
  by (simp add: unat_gt_0)

lemma unat_pred: "(a :: 'a::len word) \<noteq> 0 \<Longrightarrow> unat (a - 1) = unat a - 1"
  by (simp add: unat_minus_one)

lemma word_eqI_unat: "unat (a :: 'a::len word) = unat b \<Longrightarrow> a = b"
  by (simp add: word_unat_eq_iff)

lemmas word_order_nat = word_le_nat_alt word_less_nat_alt word_unat_eq_iff

lemma word_pred_less: "(a :: 'a::len word) \<noteq> 0 \<Longrightarrow> a - 1 < a"
  using unat_eq_zero [of a] by (simp add: word_less_nat_alt unat_minus_one)

lemma word_le_pred_iff: "(a :: 'a::len word) \<noteq> 0 \<Longrightarrow> q \<le> a - 1 \<longleftrightarrow> q < a"
  using unat_eq_zero [of a] by (simp add: word_less_nat_alt word_le_nat_alt unat_minus_one) arith

lemma unat_of_nat_u64: "n < 2 ^ 64 \<Longrightarrow> unat (of_nat n :: u64) = n"
  by (simp add: unat_of_nat)

lemma u64_try_from_Some_iff: "u64_try_from n = Some w \<longleftrightarrow> n < 2 ^ 64 \<and> unat w = n"
proof -
  have "int n < 2 ^ 64 \<longleftrightarrow> n < 2 ^ 64" by simp
  then show ?thesis
    by (auto simp: u64_try_from_def unat_of_nat_u64 simp del: of_nat_numeral)
qed

text \<open>Evaluation compares lengths with the limit as binary integers.\<close>

lemma usize_max_int: "int n \<le> 2 ^ 64 - 1 \<longleftrightarrow> n \<le> usize_max"
  by (simp add: usize_max_def)

lemma usize_sat_add_code [code]:
  "usize_sat_add a b = (if int (a + b) \<le> 2 ^ 64 - 1 then a + b else usize_max)"
  unfolding usize_max_int by (simp add: usize_sat_add_def min_def)

lemma usize_sat_mul_code [code]:
  "usize_sat_mul a b = (if int (a * b) \<le> 2 ^ 64 - 1 then a * b else usize_max)"
  unfolding usize_max_int by (simp add: usize_sat_mul_def min_def)

lemma dur_sat_add_code [code]:
  "dur_sat_add a b =
     (if int (a + b) \<le> 18446744073709551615999999999 then a + b else duration_max)"
  by (auto simp: dur_sat_add_def duration_max_def)

lemma dur_sat_mul_code [code]:
  "dur_sat_mul a n =
     (if int (a * n) \<le> 18446744073709551615999999999 then a * n else duration_max)"
proof -
  have "int (a * n) \<le> 18446744073709551615999999999 \<longleftrightarrow> a * n \<le> 18446744073709551615999999999"
    by (metis of_nat_le_iff of_nat_numeral)
  then show ?thesis by (simp add: dur_sat_mul_def duration_max_def min_def)
qed

end
