(* ===== verification/Collections.thy ===== *)
theory Collections
  imports Prelude
begin

section \<open>Standard collections\<close>

text \<open>
  The collections of Rust's standard library, as the components use them.

  A map is an association list with distinct keys and \<^const>\<open>map_of\<close> as its lookup. In a
  \<open>HashMap\<close> the order of the list stands for the unspecified iteration order; in a
  \<open>BTreeMap\<close> the list is strictly sorted by key, so that walking the list is walking
  the tree in key order. A \<open>BTreeSet\<close> is a strictly sorted list and a
  \<open>VecDeque\<close> is a list whose head is the front.

  \<open>keyed_map\<close> is the interface both maps share. Its lemmas about lookups and lengths
  are proved once and interpreted for \<open>hm_insert\<close> and for \<open>bt_insert\<close>.
\<close>

subsection \<open>Operations\<close>

definition map_remove :: "'k \<Rightarrow> ('k \<times> 'v) list \<Rightarrow> ('k \<times> 'v) list" where
  "map_remove k m = filter (\<lambda>p. fst p \<noteq> k) m"

definition map_retain :: "('k \<Rightarrow> 'v \<Rightarrow> bool) \<Rightarrow> ('k \<times> 'v) list \<Rightarrow> ('k \<times> 'v) list" where
  "map_retain P m = filter (\<lambda>p. P (fst p) (snd p)) m"

definition contains_key :: "('k \<times> 'v) list \<Rightarrow> 'k \<Rightarrow> bool" where
  "contains_key m k \<longleftrightarrow> map_of m k \<noteq> None"

definition hm_insert :: "'k \<Rightarrow> 'v \<Rightarrow> ('k \<times> 'v) list \<Rightarrow> ('k \<times> 'v) list" where
  "hm_insert k v m = (k, v) # map_remove k m"

definition hm_wf :: "('k \<times> 'v) list \<Rightarrow> bool" where
  "hm_wf m \<longleftrightarrow> distinct (map fst m)"

primrec bt_insert :: "'k::linorder \<Rightarrow> 'v \<Rightarrow> ('k \<times> 'v) list \<Rightarrow> ('k \<times> 'v) list" where
  "bt_insert k v [] = [(k, v)]"
| "bt_insert k v (p # m) =
     (if fst p < k then p # bt_insert k v m
      else if fst p = k then (k, v) # m
      else (k, v) # p # m)"

definition bt_wf :: "('k::linorder \<times> 'v) list \<Rightarrow> bool" where
  "bt_wf m \<longleftrightarrow> sorted_wrt (<) (map fst m)"

definition bs_insert :: "'a::linorder \<Rightarrow> 'a list \<Rightarrow> 'a list" where
  "bs_insert x s = (if x \<in> set s then s else insort x s)"

definition bs_remove :: "'a \<Rightarrow> 'a list \<Rightarrow> 'a list" where
  "bs_remove x s = filter (\<lambda>y. y \<noteq> x) s"

definition bs_wf :: "'a::linorder list \<Rightarrow> bool" where
  "bs_wf s \<longleftrightarrow> sorted_wrt (<) s"

text \<open>
  \<open>binary_search_by_key\<close> on a sequence sorted by the key: \<open>Inr i\<close> is Rust's
  \<open>Ok(i)\<close>, the index of an element with the key, and \<open>Inl i\<close> is
  \<open>Err(i)\<close>, the index at which such an element could be inserted.
\<close>

definition binary_search_by_key :: "('a \<Rightarrow> 'k::linorder) \<Rightarrow> 'k \<Rightarrow> 'a list \<Rightarrow> nat + nat" where
  "binary_search_by_key f k xs =
     (let i = length (takeWhile (\<lambda>x. f x < k) xs)
      in if i < length xs \<and> f (xs ! i) = k then Inr i else Inl i)"

text \<open>\<open>VecDeque::insert\<close> at an index within the length.\<close>

definition insert_at :: "nat \<Rightarrow> 'a \<Rightarrow> 'a list \<Rightarrow> 'a list" where
  "insert_at i x xs = take i xs @ x # drop i xs"

text \<open>A change through \<open>get_mut\<close>, which keeps the entry's place.\<close>

definition map_adjust :: "'k \<Rightarrow> ('v \<Rightarrow> 'v) \<Rightarrow> ('k \<times> 'v) list \<Rightarrow> ('k \<times> 'v) list" where
  "map_adjust k f m = map (\<lambda>p. if fst p = k then (fst p, f (snd p)) else p) m"

text \<open>\<open>Iterator::min_by_key\<close>: the first of the smallest elements.\<close>

primrec min_by_key :: "('a \<Rightarrow> 'k::linorder) \<Rightarrow> 'a list \<Rightarrow> 'a option" where
  "min_by_key f [] = None"
| "min_by_key f (x # xs) =
     (case min_by_key f xs of
        None \<Rightarrow> Some x
      | Some y \<Rightarrow> if f y < f x then Some y else Some x)"

subsection \<open>The map interface\<close>

locale keyed_map =
  fixes ins :: "'k \<Rightarrow> 'v \<Rightarrow> ('k \<times> 'v) list \<Rightarrow> ('k \<times> 'v) list"
    and del :: "'k \<Rightarrow> ('k \<times> 'v) list \<Rightarrow> ('k \<times> 'v) list"
    and wf_map :: "('k \<times> 'v) list \<Rightarrow> bool"
  assumes wf_distinct: "wf_map m \<Longrightarrow> distinct (map fst m)"
    and wf_empty: "wf_map []"
    and wf_insert: "wf_map m \<Longrightarrow> wf_map (ins k v m)"
    and wf_remove: "wf_map m \<Longrightarrow> wf_map (del k m)"
    and get_insert: "wf_map m \<Longrightarrow> map_of (ins k v m) = (map_of m)(k \<mapsto> v)"
    and get_remove: "wf_map m \<Longrightarrow> map_of (del k m) = (map_of m)(k := None)"
begin

lemma length_dom: "wf_map m \<Longrightarrow> length m = card (dom (map_of m))"
  using distinct_card [OF wf_distinct] by (simp add: dom_map_of_conv_image_fst)

lemma length_insert:
  assumes "wf_map m"
  shows "length (ins k v m) = (if map_of m k = None then Suc (length m) else length m)"
proof -
  have "length (ins k v m) = card (dom ((map_of m)(k \<mapsto> v)))"
    using assms by (simp add: length_dom wf_insert get_insert)
  also have "\<dots> = card (insert k (dom (map_of m)))"
    by simp
  also have "\<dots> = (if map_of m k = None then Suc (length m) else length m)"
    using assms finite_dom_map_of [of m]
    by (auto simp: card_insert_if length_dom domIff)
  finally show ?thesis .
qed

lemma length_remove:
  assumes "wf_map m"
  shows "length (del k m) = (if map_of m k = None then length m else length m - 1)"
proof -
  have "length (del k m) = card (dom (map_of m) - {k})"
    using assms by (simp add: length_dom wf_remove get_remove)
  also have "\<dots> = (if map_of m k = None then length m else length m - 1)"
    using assms finite_dom_map_of [of m]
    by (auto simp: card_Diff_singleton_if length_dom domIff)
  finally show ?thesis .
qed

lemma in_set_iff: "wf_map m \<Longrightarrow> (k, v) \<in> set m \<longleftrightarrow> map_of m k = Some v"
  by (simp add: wf_distinct)

lemma set_insert:
  assumes "wf_map m"
  shows "set (ins k v m) = insert (k, v) {p \<in> set m. fst p \<noteq> k}"
proof (rule set_eqI)
  fix p :: "'k \<times> 'v"
  obtain a b where p: "p = (a, b)" by (cases p)
  show "p \<in> set (ins k v m) \<longleftrightarrow> p \<in> insert (k, v) {p \<in> set m. fst p \<noteq> k}"
    using assms by (auto simp: p in_set_iff wf_insert get_insert)
qed

lemma set_remove:
  assumes "wf_map m"
  shows "set (del k m) = {p \<in> set m. fst p \<noteq> k}"
proof (rule set_eqI)
  fix p :: "'k \<times> 'v"
  obtain a b where p: "p = (a, b)" by (cases p)
  show "p \<in> set (del k m) \<longleftrightarrow> p \<in> {p \<in> set m. fst p \<noteq> k}"
    using assms by (auto simp: p in_set_iff wf_remove get_remove)
qed

lemmas map_laws = wf_empty wf_insert wf_remove get_insert get_remove

end

subsection \<open>Both maps implement it\<close>

lemma map_of_filter_keys: "map_of (filter (\<lambda>p. P (fst p)) m) k = (if P k then map_of m k else None)"
  by (induction m) auto

lemma map_of_remove: "map_of (map_remove k m) = (map_of m)(k := None)"
  by (rule ext) (simp add: map_remove_def map_of_filter_keys [where P = "\<lambda>a. a \<noteq> k"])

lemma map_remove_absent: "map_of m k = None \<Longrightarrow> map_remove k m = m"
  by (force simp: map_remove_def map_of_eq_None_iff intro!: filter_True)

lemma set_map_remove: "set (map_remove k m) = {p \<in> set m. fst p \<noteq> k}"
  by (simp add: map_remove_def)

lemma distinct_keys_filter: "distinct (map fst m) \<Longrightarrow> distinct (map fst (filter P m))"
  by (induction m) auto

lemma distinct_keys_remove: "distinct (map fst m) \<Longrightarrow> distinct (map fst (map_remove k m))"
  by (simp add: map_remove_def distinct_keys_filter)

lemma map_of_retain:
  "distinct (map fst m) \<Longrightarrow>
   map_of (map_retain P m) k =
     (case map_of m k of None \<Rightarrow> None | Some v \<Rightarrow> if P k v then Some v else None)"
proof (induction m)
  case Nil
  then show ?case by (simp add: map_retain_def)
next
  case (Cons p m)
  then have "map_of m (fst p) = None"
    by (simp add: map_of_eq_None_iff)
  with Cons show ?case
    by (cases p) (auto simp: map_retain_def)
qed

lemma sorted_keys_filter:
  "sorted_wrt (<) (map fst m) \<Longrightarrow> sorted_wrt (<) (map fst (filter P m))"
  by (induction m) auto

lemma bt_insert_keys: "fst ` set (bt_insert k v m) = insert k (fst ` set m)"
  by (induction m) auto

lemma bt_wf_insert: "bt_wf m \<Longrightarrow> bt_wf (bt_insert k v m)"
  unfolding bt_wf_def
proof (induction m)
  case Nil
  then show ?case by simp
next
  case (Cons p m)
  have keys: "fst q \<in> insert k (fst ` set m)" if "q \<in> set (bt_insert k v m)" for q
    using that bt_insert_keys [of k v m] by blast
  show ?case
    using Cons by (auto dest!: keys)
qed

lemma bt_wf_distinct: "bt_wf m \<Longrightarrow> distinct (map fst m)"
  by (simp add: bt_wf_def strict_sorted_iff)

lemma bt_get_insert: "bt_wf m \<Longrightarrow> map_of (bt_insert k v m) = (map_of m)(k \<mapsto> v)"
  by (induction m) (auto simp: bt_wf_def fun_eq_iff)

interpretation hm: keyed_map hm_insert map_remove hm_wf
  by unfold_locales
    (auto simp: hm_wf_def hm_insert_def map_of_remove set_map_remove distinct_keys_remove)

interpretation bt: keyed_map bt_insert map_remove bt_wf
proof unfold_locales
  show "bt_wf []" by (simp add: bt_wf_def)
next
  fix m :: "('a \<times> 'b) list" and k
  assume "bt_wf m"
  then show "bt_wf (map_remove k m)"
    by (simp add: bt_wf_def map_remove_def sorted_keys_filter)
next
  fix m :: "('a \<times> 'b) list" and k
  show "map_of (map_remove k m) = (map_of m)(k := None)"
    by (rule map_of_remove)
qed (simp_all add: bt_wf_distinct bt_wf_insert bt_get_insert)

lemma hm_wf_retain: "hm_wf m \<Longrightarrow> hm_wf (map_retain P m)"
  by (simp add: hm_wf_def map_retain_def distinct_keys_filter)

lemma bt_wf_retain: "bt_wf m \<Longrightarrow> bt_wf (map_retain P m)"
  by (simp add: bt_wf_def map_retain_def sorted_keys_filter)

lemma bt_map_eqI:
  assumes "bt_wf m" and "bt_wf n" and "map_of m = map_of n"
  shows "m = n"
proof -
  have entries: "set m = set n"
    using assms map_of_eq_Some_iff [OF bt_wf_distinct [OF assms(1)]]
      map_of_eq_Some_iff [OF bt_wf_distinct [OF assms(2)]] by auto
  have "map fst m = map fst n"
    using assms(1,2) entries
    by (intro sorted_distinct_set_unique) (simp_all add: bt_wf_def strict_sorted_iff)
  moreover have "inj_on fst (set m \<union> set n)"
    using bt_wf_distinct [OF assms(1)] entries by (simp add: distinct_map)
  ultimately show ?thesis
    by (blast intro: map_inj_on)
qed

text \<open>\<open>extend\<close>: inserting a list of entries, where a later entry wins.\<close>

lemma bt_fold_insert:
  assumes "bt_wf m"
  shows "bt_wf (fold (\<lambda>(k, v). bt_insert k v) new m)"
    and "map_of (fold (\<lambda>(k, v). bt_insert k v) new m) = map_of m ++ map_of (rev new)"
  using assms
proof (induction new arbitrary: m)
  case (Cons p new)
  obtain k v where p: "p = (k, v)" by (cases p)
  {
    case 1
    then show ?case using Cons.IH(1) [OF bt.wf_insert] by (simp add: p)
  next
    case 2
    then show ?case
      using Cons.IH(2) [OF bt.wf_insert, of m k v]
      by (auto simp: p bt.get_insert map_add_def fun_eq_iff split: option.splits)
  }
qed simp_all

lemma bt_extend_distinct:
  assumes "bt_wf m" and "distinct (map fst new)"
  shows "map_of (fold (\<lambda>(k, v). bt_insert k v) new m) = map_of m ++ map_of new"
proof -
  have "map_of (rev new) = map_of new"
    using assms(2) by (simp add: map_of_inject_set rev_map [symmetric])
  then show ?thesis using bt_fold_insert(2) [OF assms(1)] by simp
qed

subsection \<open>Sorted sets and deques\<close>

lemma set_bs_insert [simp]: "set (bs_insert x s) = insert x (set s)"
  by (auto simp: bs_insert_def set_insort_key)

lemma set_bs_remove [simp]: "set (bs_remove x s) = set s - {x}"
  by (auto simp: bs_remove_def)

lemma bs_wf_insert: "bs_wf s \<Longrightarrow> bs_wf (bs_insert x s)"
  by (auto simp: bs_wf_def bs_insert_def strict_sorted_iff sorted_insort distinct_insort)

lemma bs_wf_remove: "bs_wf s \<Longrightarrow> bs_wf (bs_remove x s)"
  unfolding bs_wf_def bs_remove_def by (induction s) auto

lemma length_bs_remove_less: "x \<in> set s \<Longrightarrow> length (bs_remove x s) < length s"
  unfolding bs_remove_def by (rule length_filter_less) simp_all

subsection \<open>Sequences sorted by a key\<close>

lemma sorted_key_le_last:
  "sorted_wrt (<) (map f xs) \<Longrightarrow> x \<in> set xs \<Longrightarrow> (f x :: 'k::linorder) \<le> f (last xs)"
  by (induction xs) (auto intro: less_imp_le)

lemma sorted_key_snoc:
  "sorted_wrt (<) (map f xs) \<Longrightarrow> (xs \<noteq> [] \<Longrightarrow> f (last xs) < (f x :: 'k::linorder)) \<Longrightarrow>
   sorted_wrt (<) (map f (xs @ [x]))"
  by (auto simp: sorted_wrt_append)
    (metis empty_iff empty_set le_less_trans sorted_key_le_last)

lemma sorted_key_drop:
  assumes "sorted_wrt (<) (map f xs)"
  shows "drop (length (takeWhile (\<lambda>x. \<not> t < (f x :: 'k::linorder)) xs)) xs = filter (\<lambda>x. t < f x) xs"
  using assms
proof (induction xs)
  case (Cons x xs)
  then show ?case
    by (cases "t < f x") (auto simp: filter_id_conv intro!: filter_True [symmetric])
qed simp

subsection \<open>In-place changes and minima\<close>

lemma map_adjust_keys [simp]: "map fst (map_adjust k f m) = map fst m"
  by (simp add: map_adjust_def comp_def if_distrib cong: if_cong)

lemma fst_set_map_adjust [simp]: "fst ` set (map_adjust k f m) = fst ` set m"
  by (metis list.set_map map_adjust_keys)

lemma length_map_adjust [simp]: "length (map_adjust k f m) = length m"
  by (simp add: map_adjust_def)

lemma map_of_adjust:
  "map_of (map_adjust k f m) j = (if j = k then map_option f (map_of m k) else map_of m j)"
  by (induction m) (auto simp: map_adjust_def)

lemma dom_map_adjust [simp]: "dom (map_of (map_adjust k f m)) = dom (map_of m)"
  by (auto simp: map_of_adjust dom_def split: if_splits)

lemma min_by_key_sort:
  "min_by_key f xs = (case sort_key f xs of [] \<Rightarrow> None | x # _ \<Rightarrow> Some x)"
proof (induction xs)
  case (Cons x xs)
  then show ?case by (cases "sort_key f xs") auto
qed simp

lemma sort_key_Nil_iff [simp]: "sort_key f xs = [] \<longleftrightarrow> xs = []"
  by (metis length_0_conv length_sort)

lemma sort_key_map_same:
  assumes "\<And>x. f (g x) = f x"
  shows "sort_key f (map g xs) = map g (sort_key f xs)"
proof -
  have "insort_key f (g x) (map g ys) = map g (insort_key f x ys)" for x ys
    by (induction ys) (simp_all add: assms)
  then show ?thesis by (induction xs) simp_all
qed

lemma insort_key_last:
  "\<forall>y \<in> set ys. f y < f x \<Longrightarrow> insort_key f x ys = ys @ [x]"
  by (induction ys) auto

end
