(* ===== verification/Sequence_Window.thy ===== *)
theory Sequence_Window
  imports Collections
begin

section \<open>The cumulative acknowledgement window\<close>

text \<open>
  \<open>SequenceWindow\<close> of \<open>src/crates/elura-netcode/src/input.rs\<close> and the error type of
  \<open>src/crates/elura-netcode/src/error.rs\<close>. The window keeps the highest contiguous
  sequence received and a bounded set of sequences received above a gap.

  The sequences a window has received are \<open>sequence_window_seen\<close>. The lemmas show that
  \<open>observe\<close> accepts a sequence exactly when it has not been received, that the
  acknowledgement is the longest contiguous prefix, and that an error changes nothing.
  The contract other components rely on is the locale \<open>dedup_window\<close>.
\<close>

subsection \<open>Data\<close>

datatype netcode_error =
    InvalidConfig string
  | InvalidSample string
  | InvalidInput string
  | InputHistoryFull
  | SequenceExhausted
  | InvalidAcknowledgement
  | PredictionHistoryFull
  | ReplayLimitExceeded
  | InterpolationBufferEmpty
  | PredictedEntityLimit

datatype sequence_disposition = Accepted | Duplicate

record sequence_window =
  sw_reorder_window :: u64
  sw_acknowledged :: u64
  sw_pending :: "u64 list"

subsection \<open>Operations\<close>

definition sequence_window_with_acknowledged ::
    "u64 \<Rightarrow> u64 \<Rightarrow> netcode_error + sequence_window" where
  "sequence_window_with_acknowledged reorder_window acknowledged =
     (if reorder_window = 0
      then Inl (InvalidConfig ''input reorder window must be positive'')
      else Inr \<lparr>sw_reorder_window = reorder_window, sw_acknowledged = acknowledged,
                sw_pending = []\<rparr>)"

definition sequence_window_new :: "u64 \<Rightarrow> netcode_error + sequence_window" where
  "sequence_window_new reorder_window = sequence_window_with_acknowledged reorder_window 0"

text \<open>The \<open>while let\<close> loop of \<open>observe\<close>, on the two fields it changes.\<close>

function sequence_window_advance :: "u64 \<Rightarrow> u64 list \<Rightarrow> u64 \<times> u64 list" where
  "sequence_window_advance acknowledged pending =
     (case checked_add acknowledged 1 of
        None \<Rightarrow> (acknowledged, pending)
      | Some next \<Rightarrow>
          if next \<in> set pending
          then sequence_window_advance next (bs_remove next pending)
          else (acknowledged, pending))"
  by pat_completeness auto
termination
  by (relation "measure (\<lambda>(_, pending). length pending)") (auto simp: length_bs_remove_less)

declare sequence_window_advance.simps [simp del]

definition sequence_window_observe ::
    "sequence_window \<Rightarrow> u64 \<Rightarrow> (netcode_error + sequence_disposition) \<times> sequence_window" where
  "sequence_window_observe w sequence =
     (if sequence = 0
      then (Inl (InvalidInput ''input sequence must be positive''), w)
      else if sequence \<le> sw_acknowledged w \<or> sequence \<in> set (sw_pending w)
      then (Inr Duplicate, w)
      else if sat_add (sw_acknowledged w) (sw_reorder_window w) < sequence
      then (Inl (InvalidInput ''input sequence exceeds the reorder window''), w)
      else
        (let (acknowledged, pending) =
               sequence_window_advance (sw_acknowledged w) (bs_insert sequence (sw_pending w))
         in (Inr Accepted, w\<lparr>sw_acknowledged := acknowledged, sw_pending := pending\<rparr>)))"

definition sequence_window_acknowledged :: "sequence_window \<Rightarrow> u64" where
  "sequence_window_acknowledged w = sw_acknowledged w"

definition sequence_window_pending_len :: "sequence_window \<Rightarrow> usize" where
  "sequence_window_pending_len w = length (sw_pending w)"

subsection \<open>What a window has received\<close>

definition sequences_seen :: "u64 \<Rightarrow> u64 list \<Rightarrow> u64 set" where
  "sequences_seen acknowledged pending = {s. 0 < s \<and> s \<le> acknowledged} \<union> set pending"

definition sequence_window_seen :: "sequence_window \<Rightarrow> u64 set" where
  "sequence_window_seen w = sequences_seen (sw_acknowledged w) (sw_pending w)"

definition sequence_window_inv :: "sequence_window \<Rightarrow> bool" where
  "sequence_window_inv w \<longleftrightarrow>
     0 < sw_reorder_window w \<and>
     bs_wf (sw_pending w) \<and>
     (\<forall>s \<in> set (sw_pending w).
        sw_acknowledged w < s \<and> s \<le> sat_add (sw_acknowledged w) (sw_reorder_window w)) \<and>
     (\<forall>next. checked_add (sw_acknowledged w) 1 = Some next \<longrightarrow> next \<notin> set (sw_pending w))"

subsection \<open>The interface\<close>

locale dedup_window =
  fixes observe :: "'w \<Rightarrow> u64 \<Rightarrow> (netcode_error + sequence_disposition) \<times> 'w"
    and acked :: "'w \<Rightarrow> u64"
    and seen :: "'w \<Rightarrow> u64 set"
    and inv :: "'w \<Rightarrow> bool"
  assumes accepted: "inv w \<Longrightarrow> observe w s = (Inr Accepted, w') \<Longrightarrow>
            s \<notin> seen w \<and> seen w' = insert s (seen w) \<and> inv w'"
    and duplicate: "inv w \<Longrightarrow> observe w s = (Inr Duplicate, w') \<Longrightarrow> s \<in> seen w \<and> w' = w"
    and rejected: "observe w s = (Inl e, w') \<Longrightarrow> w' = w"
    and contiguous: "inv w \<Longrightarrow> 0 < s \<Longrightarrow> s \<le> acked w \<Longrightarrow> s \<in> seen w"
    and gap: "inv w \<Longrightarrow> checked_add (acked w) 1 = Some next \<Longrightarrow> next \<notin> seen w"
begin

text \<open>
  \<open>accepts w ss w'\<close>: a run of observations from \<open>w\<close> to \<open>w'\<close> without an error, in
  which exactly the sequences \<open>ss\<close> are accepted, in that order.
\<close>

inductive accepts :: "'w \<Rightarrow> u64 list \<Rightarrow> 'w \<Rightarrow> bool" where
  accepts_nil: "accepts w [] w"
| accepts_new: "observe w s = (Inr Accepted, w') \<Longrightarrow> accepts w' ss w'' \<Longrightarrow> accepts w (s # ss) w''"
| accepts_dup: "observe w s = (Inr Duplicate, w') \<Longrightarrow> accepts w' ss w'' \<Longrightarrow> accepts w ss w''"

lemma accepts_trans: "accepts w ss w' \<Longrightarrow> accepts w' ts w'' \<Longrightarrow> accepts w (ss @ ts) w''"
  by (induction rule: accepts.induct) (auto intro: accepts.intros)

lemma accepts_once:
  assumes "accepts w ss w'" and "inv w"
  shows "inv w' \<and> distinct ss \<and> set ss \<inter> seen w = {} \<and> seen w' = seen w \<union> set ss"
  using assms
proof (induction rule: accepts.induct)
  case (accepts_new w s w' ss w'')
  then show ?case using accepted [of w s w'] by auto
next
  case (accepts_dup w s w' ss w'')
  then show ?case using duplicate [of w s w'] by auto
qed auto

lemma acked_maximal:
  assumes "inv w" and "\<And>s. 0 < s \<Longrightarrow> s \<le> n \<Longrightarrow> s \<in> seen w"
  shows "n \<le> acked w"
proof (rule ccontr)
  assume "\<not> n \<le> acked w"
  then have less: "acked w < n" by simp
  have "acked w + 1 \<in> seen w"
  proof (rule assms(2))
    show "acked w + 1 \<le> n" using less by (rule inc_le)
    show "0 < acked w + 1" using unat_succ_less [OF less] unfolding word_order_nat by simp
  qed
  then show False using gap [OF assms(1) checked_succ [OF less]] by simp
qed

lemma accepts_acked_gap:
  assumes run: "accepts w ss w'" and inv: "inv w"
    and next_seq: "checked_add (acked w) 1 = Some n" and missing: "n \<notin> set ss"
  shows "acked w' \<le> acked w"
proof (rule ccontr)
  assume "\<not> ?thesis"
  then have "n \<le> acked w'" and "0 < n"
    using next_seq by (auto simp: checked_add_Some_iff word_order_nat)
  then have "n \<in> seen w'"
    using accepts_once [OF run inv] by (auto intro: contiguous)
  then show False
    using accepts_once [OF run inv] gap [OF inv next_seq] missing by auto
qed

lemma accepts_acked_mono:
  assumes "accepts w ss w'" and "inv w"
  shows "acked w \<le> acked w'"
  using accepts_once [OF assms] contiguous [OF assms(2)] by (intro acked_maximal) auto

end

subsection \<open>The loop\<close>

text \<open>What the loop keeps and what holds when it stops.\<close>

lemma sequence_window_advance_spec:
  assumes "sequence_window_advance acknowledged pending = (a, p)"
    and "bs_wf pending" and "\<forall>s \<in> set pending. acknowledged < s"
  shows "acknowledged \<le> a \<and> sequences_seen a p = sequences_seen acknowledged pending \<and>
         set p \<subseteq> set pending \<and> bs_wf p \<and> (\<forall>s \<in> set p. a < s) \<and>
         (\<forall>next. checked_add a 1 = Some next \<longrightarrow> next \<notin> set p)"
  using assms
proof (induction acknowledged pending rule: sequence_window_advance.induct)
  case (1 acknowledged pending)
  show ?case
  proof (cases "\<exists>next. checked_add acknowledged 1 = Some next \<and> next \<in> set pending")
    case False
    with 1(2) have "a = acknowledged" and "p = pending"
      by (auto simp: sequence_window_advance.simps [of acknowledged] split: option.splits)
    with 1(3,4) False show ?thesis by auto
  next
    case True
    then obtain b where b: "checked_add acknowledged 1 = Some b" and mem: "b \<in> set pending"
      by blast
    have succ: "unat b = unat acknowledged + 1"
      using b by (simp add: checked_add_Some_iff)
    have rest: "\<forall>s \<in> set (bs_remove b pending). b < s"
      using 1(4) succ by (auto simp: word_order_nat less_Suc_eq_le le_less Suc_le_eq)
    have run: "sequence_window_advance b (bs_remove b pending) = (a, p)"
      using 1(2) b mem by (simp add: sequence_window_advance.simps [of acknowledged])
    have "s \<le> b \<longleftrightarrow> s \<le> acknowledged \<or> s = b" for s
      using succ by (auto simp: word_order_nat)
    then have "sequences_seen b (bs_remove b pending) = sequences_seen acknowledged pending"
      using mem succ by (auto simp: sequences_seen_def word_gt_0)
    moreover have "acknowledged \<le> b"
      using succ by (simp add: word_le_nat_alt)
    ultimately show ?thesis
      using 1(1) [OF b mem run bs_wf_remove [OF 1(3)] rest] by auto
  qed
qed

subsection \<open>The window keeps its contract\<close>

lemma sequence_window_observe_accepted:
  assumes inv: "sequence_window_inv w"
    and run: "sequence_window_observe w s = (Inr Accepted, w')"
  shows "s \<notin> sequence_window_seen w \<and>
         sequence_window_seen w' = insert s (sequence_window_seen w) \<and>
         sequence_window_inv w'"
proof -
  obtain a p where adv:
    "sequence_window_advance (sw_acknowledged w) (bs_insert s (sw_pending w)) = (a, p)"
    by fastforce
  from run adv have new: "s \<noteq> 0" "sw_acknowledged w < s" "s \<notin> set (sw_pending w)"
      "s \<le> sat_add (sw_acknowledged w) (sw_reorder_window w)"
    and w': "w' = w\<lparr>sw_acknowledged := a, sw_pending := p\<rparr>"
    by (auto simp: sequence_window_observe_def not_le not_less split: if_splits)
  have spec: "sw_acknowledged w \<le> a"
      "sequences_seen a p = sequences_seen (sw_acknowledged w) (bs_insert s (sw_pending w))"
      "set p \<subseteq> insert s (set (sw_pending w))" "bs_wf p" "\<forall>t \<in> set p. a < t"
      "\<forall>next. checked_add a 1 = Some next \<longrightarrow> next \<notin> set p"
    using sequence_window_advance_spec [OF adv] inv new
    by (auto simp: sequence_window_inv_def bs_wf_insert)
  have bound: "t \<le> sat_add a (sw_reorder_window w)" if "t \<in> set p" for t
  proof -
    have "t \<le> sat_add (sw_acknowledged w) (sw_reorder_window w)"
      using that spec(3) new inv by (auto simp: sequence_window_inv_def)
    also have "\<dots> \<le> sat_add a (sw_reorder_window w)"
      using spec(1) by (rule sat_add_mono)
    finally show ?thesis .
  qed
  have "sequence_window_seen w' = insert s (sequence_window_seen w)"
    using spec(2) by (auto simp: w' sequence_window_seen_def sequences_seen_def)
  moreover have "sequence_window_inv w'"
    using inv spec bound by (auto simp: w' sequence_window_inv_def)
  moreover have "s \<notin> sequence_window_seen w"
    using new by (auto simp: sequence_window_seen_def sequences_seen_def)
  ultimately show ?thesis by simp
qed

lemma sequence_window_observe_duplicate:
  "sequence_window_observe w s = (Inr Duplicate, w') \<Longrightarrow> s \<in> sequence_window_seen w \<and> w' = w"
  by (auto simp: sequence_window_observe_def sequence_window_seen_def sequences_seen_def
      word_gt_0 split: if_splits prod.splits)

lemma sequence_window_observe_rejected:
  "sequence_window_observe w s = (Inl e, w') \<Longrightarrow> w' = w"
  by (auto simp: sequence_window_observe_def split: if_splits prod.splits)

interpretation sw: dedup_window sequence_window_observe sequence_window_acknowledged
    sequence_window_seen sequence_window_inv
proof unfold_locales
  fix w :: sequence_window and s after :: u64
  assume inv: "sequence_window_inv w"
  show "0 < s \<Longrightarrow> s \<le> sequence_window_acknowledged w \<Longrightarrow> s \<in> sequence_window_seen w"
    by (simp add: sequence_window_acknowledged_def sequence_window_seen_def sequences_seen_def)
  assume "checked_add (sequence_window_acknowledged w) 1 = Some after"
  with inv show "after \<notin> sequence_window_seen w"
    by (auto simp: sequence_window_acknowledged_def sequence_window_seen_def sequences_seen_def
        sequence_window_inv_def checked_add_Some_iff word_le_nat_alt)
qed (simp_all add: sequence_window_observe_accepted sequence_window_observe_duplicate
      sequence_window_observe_rejected)

lemma sequence_window_with_acknowledged_inv:
  assumes "sequence_window_with_acknowledged reorder acknowledged = Inr w"
  shows "sequence_window_inv w" and "sw_acknowledged w = acknowledged"
    and "sequence_window_seen w = {s. 0 < s \<and> s \<le> acknowledged}"
    and "sw_reorder_window w = reorder"
  using assms
  by (auto simp: sequence_window_with_acknowledged_def sequence_window_inv_def
      sequence_window_seen_def sequences_seen_def bs_wf_def word_gt_0 split: if_splits)

lemma sequence_window_observe_reorder [simp]:
  "sw_reorder_window (snd (sequence_window_observe w s)) = sw_reorder_window w"
  by (auto simp: sequence_window_observe_def split: prod.splits)

text \<open>Which of the outcomes a call has, by what the window has received.\<close>

lemma sequence_window_observe_cases:
  assumes "sequence_window_inv w"
  shows "fst (sequence_window_observe w s) =
     (if s = 0 then Inl (InvalidInput ''input sequence must be positive'')
      else if s \<in> sequence_window_seen w then Inr Duplicate
      else if sat_add (sw_acknowledged w) (sw_reorder_window w) < s
      then Inl (InvalidInput ''input sequence exceeds the reorder window'')
      else Inr Accepted)"
  by (auto simp: sequence_window_observe_def sequence_window_seen_def sequences_seen_def
      word_gt_0 split: prod.splits)

lemma sequence_window_step_inv:
  assumes "sequence_window_inv w"
  shows "sequence_window_inv (snd (sequence_window_observe w s))"
proof (cases "sequence_window_observe w s")
  case (Pair res w')
  show ?thesis
  proof (cases res)
    case (Inl e)
    with Pair assms show ?thesis by (auto dest: sequence_window_observe_rejected)
  next
    case (Inr d)
    then show ?thesis
      using Pair assms
      by (cases d) (auto dest: sequence_window_observe_duplicate sequence_window_observe_accepted)
  qed
qed

subsection \<open>Property\<close>

text \<open>C15. The acknowledgement window implements a set of received sequences: one call of
  \<open>observe\<close> rejects zero and everything beyond the reorder window, reports a sequence
  already received as a duplicate and otherwise adds it to the set; afterwards the
  cumulative acknowledgement is the longest contiguous prefix of the set, and everything
  received above the gap lies within the reorder window.\<close>

theorem sequence_window_observe_correct:
  assumes inv: "sequence_window_inv w" and run: "sequence_window_observe w s = (res, w')"
  shows "res =
      (if s = 0 then Inl (InvalidInput ''input sequence must be positive'')
       else if s \<in> sequence_window_seen w then Inr Duplicate
       else if sat_add (sequence_window_acknowledged w) (sw_reorder_window w) < s
       then Inl (InvalidInput ''input sequence exceeds the reorder window'')
       else Inr Accepted)
    \<and> sequence_window_seen w' =
        (if res = Inr Accepted then insert s (sequence_window_seen w) else sequence_window_seen w)
    \<and> (\<forall>n. (\<forall>q. 0 < q \<and> q \<le> n \<longrightarrow> q \<in> sequence_window_seen w') \<longleftrightarrow>
           n \<le> sequence_window_acknowledged w')
    \<and> (\<forall>q \<in> sequence_window_seen w'.
           q \<le> sat_add (sequence_window_acknowledged w') (sw_reorder_window w'))"
proof -
  have w': "sequence_window_inv w'"
    using sequence_window_step_inv [OF inv, of s] run by simp
  have res: "res = fst (sequence_window_observe w s)" using run by simp
  have seen: "sequence_window_seen w' =
      (if res = Inr Accepted then insert s (sequence_window_seen w) else sequence_window_seen w)"
  proof (cases res)
    case (Inl e)
    with run show ?thesis by (auto dest: sequence_window_observe_rejected)
  next
    case (Inr d)
    with run show ?thesis
      using sequence_window_observe_accepted [OF inv, of s w']
        sequence_window_observe_duplicate [of w s w'] by (cases d) auto
  qed
  have prefix: "(\<forall>q. 0 < q \<and> q \<le> n \<longrightarrow> q \<in> sequence_window_seen w') \<longleftrightarrow>
      n \<le> sequence_window_acknowledged w'" for n
    using sw.acked_maximal [OF w', of n] sw.contiguous [OF w'] by (auto intro: order_trans)
  have "q \<le> sat_add (sequence_window_acknowledged w') (sw_reorder_window w')"
    if "q \<in> sequence_window_seen w'" for q
    using that w' order_trans [OF _ sat_add_le]
    by (auto simp: sequence_window_seen_def sequences_seen_def sequence_window_inv_def
        sequence_window_acknowledged_def)
  with seen prefix show ?thesis
    using sequence_window_observe_cases [OF inv, of s]
    by (simp add: res sequence_window_acknowledged_def)
qed

theorem sequence_window_observe_correct_witness:
  "\<exists>w'. sequence_window_observe \<lparr>sw_reorder_window = 4, sw_acknowledged = 0, sw_pending = [2, 3]\<rparr> 1
      = (Inr Accepted, w') \<and> sequence_window_acknowledged w' = 3 \<and>
    sequence_window_seen w' = {1, 2, 3}"
proof -
  let ?w = "\<lparr>sw_reorder_window = 4, sw_acknowledged = 0, sw_pending = [2, 3]\<rparr> :: sequence_window"
  let ?w' = "\<lparr>sw_reorder_window = 4, sw_acknowledged = 3, sw_pending = []\<rparr> :: sequence_window"
  have inv: "sequence_window_inv ?w"
    by (simp add: sequence_window_inv_def bs_wf_def checked_add_def sat_add_def)
  have run: "sequence_window_observe ?w 1 = (Inr Accepted, ?w')"
    by code_simp
  have "sequence_window_seen ?w = {2, 3}"
    by (auto simp: sequence_window_seen_def sequences_seen_def)
  with sequence_window_observe_correct [OF inv run] run show ?thesis
    by (auto simp: sequence_window_acknowledged_def)
qed

end
