(* ===== verification/Input_Stream.thy ===== *)
theory Input_Stream
  imports Sequence_Window
begin

section \<open>The client input stream\<close>

text \<open>
  \<open>InputSender\<close> and \<open>InputReceiver\<close> of \<open>src/crates/elura-netcode/src/input.rs\<close>:
  the bounded history of unacknowledged inputs on the client, the redundant packet it
  sends, and the validation, reordering and de-duplication of packets on the server.

  The last part composes both ends with a network that may lose, duplicate and reorder
  packets and acknowledgements (\<open>input_step\<close>), and shows what the pair guarantees.
\<close>

subsection \<open>Data\<close>

record input_sender_config =
  isc_history_capacity :: usize
  isc_redundancy :: usize

record input_receiver_config =
  irc_max_inputs_per_packet :: usize
  irc_reorder_window :: u64
  irc_max_past_ticks :: u64
  irc_max_future_ticks :: u64

record 't input_frame =
  if_sequence :: u64
  if_target_tick :: u64
  if_input :: 't

record 't input_packet =
  ip_client_tick :: u64
  ip_acknowledged_server_tick :: u64
  ip_inputs :: "'t input_frame list"

record input_ack =
  ia_server_tick :: u64
  ia_acknowledged_sequence :: u64

record 't input_sender =
  is_config :: input_sender_config
  is_next_sequence :: u64
  is_acknowledged_sequence :: u64
  is_acknowledged_server_tick :: u64
  is_history :: "'t input_frame list"

record 't input_receive_report =
  irr_accepted :: "'t input_frame list"
  irr_duplicates :: usize
  irr_client_tick :: u64
  irr_acknowledged_server_tick :: u64
  irr_acknowledgement :: input_ack

record input_receiver =
  ir_config :: input_receiver_config
  ir_sequences :: sequence_window

subsection \<open>The sender\<close>

definition input_sender_config_default :: input_sender_config where
  "input_sender_config_default = \<lparr>isc_history_capacity = 64, isc_redundancy = 3\<rparr>"

definition input_sender_config_validate :: "input_sender_config \<Rightarrow> netcode_error + unit" where
  "input_sender_config_validate c =
     (if isc_history_capacity c = 0
      then Inl (InvalidConfig ''input history capacity must be positive'')
      else if isc_redundancy c = 0 \<or> isc_history_capacity c < isc_redundancy c
      then Inl (InvalidConfig ''input redundancy must be within history capacity'')
      else Inr ())"

definition input_sender_with_next_sequence ::
    "input_sender_config \<Rightarrow> u64 \<Rightarrow> netcode_error + 't input_sender" where
  "input_sender_with_next_sequence config next_sequence =
     (case input_sender_config_validate config of
        Inl e \<Rightarrow> Inl e
      | Inr _ \<Rightarrow>
          if next_sequence = 0
          then Inl (InvalidConfig ''next input sequence must be positive'')
          else Inr \<lparr>is_config = config, is_next_sequence = next_sequence,
                    is_acknowledged_sequence = next_sequence - 1,
                    is_acknowledged_server_tick = 0, is_history = []\<rparr>)"

definition input_sender_new :: "input_sender_config \<Rightarrow> netcode_error + 't input_sender" where
  "input_sender_new config = input_sender_with_next_sequence config 1"

definition input_sender_record ::
    "'t input_sender \<Rightarrow> u64 \<Rightarrow> 't \<Rightarrow> (netcode_error + u64) \<times> 't input_sender" where
  "input_sender_record s target_tick input =
     (if target_tick = 0
      then (Inl (InvalidInput ''input target Tick must be positive''), s)
      else if isc_history_capacity (is_config s) \<le> length (is_history s)
      then (Inl InputHistoryFull, s)
      else
        (let sequence = is_next_sequence s
         in case checked_add (is_next_sequence s) 1 of
              None \<Rightarrow> (Inl SequenceExhausted, s)
            | Some next_sequence \<Rightarrow>
                (Inr sequence,
                 s\<lparr>is_next_sequence := next_sequence,
                   is_history := is_history s @
                     [\<lparr>if_sequence = sequence, if_target_tick = target_tick, if_input = input\<rparr>]\<rparr>)))"

definition input_sender_acknowledge ::
    "'t input_sender \<Rightarrow> input_ack \<Rightarrow> (netcode_error + usize) \<times> 't input_sender" where
  "input_sender_acknowledge s acknowledgement =
     (let last_issued = is_next_sequence s - 1
      in if last_issued < ia_acknowledged_sequence acknowledgement
         then (Inl InvalidAcknowledgement, s)
         else
           (let s = s\<lparr>is_acknowledged_server_tick :=
                       max (is_acknowledged_server_tick s) (ia_server_tick acknowledgement)\<rparr>
            in if ia_acknowledged_sequence acknowledgement \<le> is_acknowledged_sequence s
               then (Inr 0, s)
               else
                 (let s = s\<lparr>is_acknowledged_sequence :=
                             ia_acknowledged_sequence acknowledgement\<rparr>;
                      before = length (is_history s);
                      history = dropWhile
                        (\<lambda>frame. if_sequence frame \<le> is_acknowledged_sequence s) (is_history s)
                  in (Inr (before - length history), s\<lparr>is_history := history\<rparr>))))"

definition input_sender_packet :: "'t input_sender \<Rightarrow> u64 \<Rightarrow> 't input_packet" where
  "input_sender_packet s client_tick =
     (let skip = length (is_history s) - isc_redundancy (is_config s)
      in \<lparr>ip_client_tick = client_tick,
          ip_acknowledged_server_tick = is_acknowledged_server_tick s,
          ip_inputs = drop skip (is_history s)\<rparr>)"

definition input_sender_pending_len :: "'t input_sender \<Rightarrow> usize" where
  "input_sender_pending_len s = length (is_history s)"

definition input_sender_is_empty :: "'t input_sender \<Rightarrow> bool" where
  "input_sender_is_empty s \<longleftrightarrow> is_history s = []"

subsection \<open>The receiver\<close>

definition input_receiver_config_default :: input_receiver_config where
  "input_receiver_config_default =
     \<lparr>irc_max_inputs_per_packet = 16, irc_reorder_window = 256,
      irc_max_past_ticks = 12, irc_max_future_ticks = 120\<rparr>"

definition input_receiver_config_validate :: "input_receiver_config \<Rightarrow> netcode_error + unit" where
  "input_receiver_config_validate c =
     (if irc_max_inputs_per_packet c = 0
      then Inl (InvalidConfig ''maximum inputs per packet must be positive'')
      else if irc_reorder_window c = 0
      then Inl (InvalidConfig ''input reorder window must be positive'')
      else if irc_max_future_ticks c = 0
      then Inl (InvalidConfig ''maximum future ticks must be positive'')
      else Inr ())"

definition input_receiver_with_acknowledged ::
    "input_receiver_config \<Rightarrow> u64 \<Rightarrow> netcode_error + input_receiver" where
  "input_receiver_with_acknowledged config acknowledged =
     (case input_receiver_config_validate config of
        Inl e \<Rightarrow> Inl e
      | Inr _ \<Rightarrow>
          (case sequence_window_with_acknowledged (irc_reorder_window config) acknowledged of
             Inl e \<Rightarrow> Inl e
           | Inr sequences \<Rightarrow> Inr \<lparr>ir_config = config, ir_sequences = sequences\<rparr>))"

definition input_receiver_new :: "input_receiver_config \<Rightarrow> netcode_error + input_receiver" where
  "input_receiver_new config = input_receiver_with_acknowledged config 0"

text \<open>The loop over the sorted frames, on the cloned window, with its two accumulators.\<close>

fun input_receive_loop ::
    "u64 \<Rightarrow> u64 \<Rightarrow> 't input_frame list \<Rightarrow> sequence_window \<Rightarrow> 't input_frame list \<Rightarrow> usize \<Rightarrow>
     netcode_error + ('t input_frame list \<times> usize \<times> sequence_window)" where
  "input_receive_loop earliest latest [] sequences accepted duplicates =
     Inr (accepted, duplicates, sequences)"
| "input_receive_loop earliest latest (frame # frames) sequences accepted duplicates =
     (case sequence_window_observe sequences (if_sequence frame) of
        (Inl e, _) \<Rightarrow> Inl e
      | (Inr Duplicate, sequences') \<Rightarrow>
          input_receive_loop earliest latest frames sequences' accepted (duplicates + 1)
      | (Inr Accepted, sequences') \<Rightarrow>
          if if_target_tick frame = 0 \<or> if_target_tick frame < earliest
             \<or> latest < if_target_tick frame
          then Inl (InvalidInput ''input target Tick is outside the receive window'')
          else input_receive_loop earliest latest frames sequences' (accepted @ [frame]) duplicates)"

definition input_receiver_receive ::
    "input_receiver \<Rightarrow> u64 \<Rightarrow> 't input_packet \<Rightarrow>
     (netcode_error + 't input_receive_report) \<times> input_receiver" where
  "input_receiver_receive r current_server_tick packet =
     (if irc_max_inputs_per_packet (ir_config r) < length (ip_inputs packet)
      then (Inl (InvalidInput ''packet contains too many input frames''), r)
      else if current_server_tick < ip_acknowledged_server_tick packet
      then (Inl (InvalidInput ''client acknowledged a future server Tick''), r)
      else
        (let inputs = sort_key if_sequence (ip_inputs packet);
             earliest = sat_sub current_server_tick (irc_max_past_ticks (ir_config r));
             latest = sat_add current_server_tick (irc_max_future_ticks (ir_config r))
         in case input_receive_loop earliest latest inputs (ir_sequences r) [] 0 of
              Inl e \<Rightarrow> (Inl e, r)
            | Inr (accepted, duplicates, next_sequences) \<Rightarrow>
                (let r = r\<lparr>ir_sequences := next_sequences\<rparr>
                 in (Inr \<lparr>irr_accepted = accepted, irr_duplicates = duplicates,
                          irr_client_tick = ip_client_tick packet,
                          irr_acknowledged_server_tick = ip_acknowledged_server_tick packet,
                          irr_acknowledgement =
                            \<lparr>ia_server_tick = current_server_tick,
                             ia_acknowledged_sequence =
                               sequence_window_acknowledged (ir_sequences r)\<rparr>\<rparr>, r))))"

definition input_receiver_acknowledged_sequence :: "input_receiver \<Rightarrow> u64" where
  "input_receiver_acknowledged_sequence r = sequence_window_acknowledged (ir_sequences r)"

definition input_receiver_pending_sequences :: "input_receiver \<Rightarrow> usize" where
  "input_receiver_pending_sequences r = sequence_window_pending_len (ir_sequences r)"

subsection \<open>Both ends over an unreliable network\<close>

text \<open>
  The network keeps every packet and every acknowledgement sent, and any of them may be
  delivered at any time, any number of times or never; it may also lose a packet for good
  (\<open>step_lose\<close>). \<open>sys_log\<close> and
  \<open>sys_accepted\<close> only observe: the inputs the client has recorded, and the frames the
  receiver has handed to the game, each in order.
\<close>

record 't input_system =
  sys_sender :: "'t input_sender"
  sys_receiver :: input_receiver
  sys_packets :: "'t input_packet list"
  sys_acks :: "input_ack list"
  sys_log :: "'t input_frame list"
  sys_accepted :: "'t input_frame list"

inductive input_step :: "'t input_system \<Rightarrow> 't input_system \<Rightarrow> bool" where
  step_record:
    "input_sender_record (sys_sender y) tick input = (Inr sequence, s') \<Longrightarrow>
     input_step y (y\<lparr>sys_sender := s', sys_log := sys_log y @
       [\<lparr>if_sequence = sequence, if_target_tick = tick, if_input = input\<rparr>]\<rparr>)"
| step_send:
    "input_step y (y\<lparr>sys_packets := sys_packets y @ [input_sender_packet (sys_sender y) tick]\<rparr>)"
| step_lose:
    "input_step y (y\<lparr>sys_packets := take i (sys_packets y) @ drop (Suc i) (sys_packets y)\<rparr>)"
| step_receive:
    "packet \<in> set (sys_packets y) \<Longrightarrow>
     input_receiver_receive (sys_receiver y) tick packet = (Inr report, r') \<Longrightarrow>
     input_step y (y\<lparr>sys_receiver := r', sys_acks := sys_acks y @ [irr_acknowledgement report],
       sys_accepted := sys_accepted y @ irr_accepted report\<rparr>)"
| step_reject:
    "packet \<in> set (sys_packets y) \<Longrightarrow>
     input_receiver_receive (sys_receiver y) tick packet = (Inl e, r') \<Longrightarrow>
     input_step y (y\<lparr>sys_receiver := r'\<rparr>)"
| step_acknowledge:
    "acknowledgement \<in> set (sys_acks y) \<Longrightarrow>
     input_sender_acknowledge (sys_sender y) acknowledgement = (result, s') \<Longrightarrow>
     input_step y (y\<lparr>sys_sender := s'\<rparr>)"

inductive input_reachable ::
    "input_sender_config \<Rightarrow> input_receiver_config \<Rightarrow> u64 \<Rightarrow> 't input_system \<Rightarrow> bool"
  for cs cr first where
  input_start:
    "input_sender_with_next_sequence cs first = Inr s \<Longrightarrow>
     input_receiver_with_acknowledged cr (first - 1) = Inr r \<Longrightarrow>
     input_reachable cs cr first
       \<lparr>sys_sender = s, sys_receiver = r, sys_packets = [], sys_acks = [], sys_log = [],
        sys_accepted = []\<rparr>"
| input_next: "input_reachable cs cr first y \<Longrightarrow> input_step y z \<Longrightarrow> input_reachable cs cr first z"

text \<open>The same steps as a function on scheduled events, for running concrete schedules.\<close>

datatype 't input_event =
    EvRecord u64 't
  | EvSend u64
  | EvLose nat
  | EvReceive nat u64
  | EvAcknowledge nat

fun input_run_event :: "'t input_system \<Rightarrow> 't input_event \<Rightarrow> 't input_system" where
  "input_run_event y (EvRecord tick input) =
     (case input_sender_record (sys_sender y) tick input of
        (Inl e, _) \<Rightarrow> y
      | (Inr sequence, s') \<Rightarrow> y\<lparr>sys_sender := s', sys_log := sys_log y @
          [\<lparr>if_sequence = sequence, if_target_tick = tick, if_input = input\<rparr>]\<rparr>)"
| "input_run_event y (EvSend tick) =
     y\<lparr>sys_packets := sys_packets y @ [input_sender_packet (sys_sender y) tick]\<rparr>"
| "input_run_event y (EvLose i) =
     y\<lparr>sys_packets := take i (sys_packets y) @ drop (Suc i) (sys_packets y)\<rparr>"
| "input_run_event y (EvReceive i tick) =
     (if i < length (sys_packets y)
      then (case input_receiver_receive (sys_receiver y) tick (sys_packets y ! i) of
              (Inl e, r') \<Rightarrow> y\<lparr>sys_receiver := r'\<rparr>
            | (Inr report, r') \<Rightarrow>
                y\<lparr>sys_receiver := r', sys_acks := sys_acks y @ [irr_acknowledgement report],
                  sys_accepted := sys_accepted y @ irr_accepted report\<rparr>)
      else y)"
| "input_run_event y (EvAcknowledge i) =
     (if i < length (sys_acks y)
      then y\<lparr>sys_sender := snd (input_sender_acknowledge (sys_sender y) (sys_acks y ! i))\<rparr>
      else y)"

definition input_run ::
    "input_sender_config \<Rightarrow> input_receiver_config \<Rightarrow> u64 \<Rightarrow> 't input_event list \<Rightarrow>
     't input_system option" where
  "input_run cs cr first events =
     (case (input_sender_with_next_sequence cs first,
            input_receiver_with_acknowledged cr (first - 1)) of
        (Inr s, Inr r) \<Rightarrow>
          Some (fold (\<lambda>e y. input_run_event y e) events
            \<lparr>sys_sender = s, sys_receiver = r, sys_packets = [], sys_acks = [], sys_log = [],
             sys_accepted = []\<rparr>)
      | _ \<Rightarrow> None)"

subsection \<open>The sender's history\<close>

text \<open>The history holds exactly the issued and unacknowledged sequences, in order.\<close>

definition input_sender_inv :: "'t input_sender \<Rightarrow> bool" where
  "input_sender_inv s \<longleftrightarrow>
     is_acknowledged_sequence s < is_next_sequence s \<and>
     map (unat \<circ> if_sequence) (is_history s) =
       [Suc (unat (is_acknowledged_sequence s)) ..< unat (is_next_sequence s)] \<and>
     length (is_history s) \<le> isc_history_capacity (is_config s) \<and>
     (\<forall>frame \<in> set (is_history s). if_target_tick frame \<noteq> 0)"

lemma dropWhile_upt: "m \<le> a \<Longrightarrow> a < n \<Longrightarrow> dropWhile (\<lambda>x. x \<le> a) [Suc m ..< n] = [Suc a ..< n]"
proof -
  assume bounds: "m \<le> a" "a < n"
  then have "[Suc m ..< n] = [Suc m ..< Suc a] @ [Suc a ..< n]"
    using upt_add_eq_append [of "Suc m" "Suc a" "n - Suc a"] by simp
  moreover have "dropWhile (\<lambda>x. x \<le> a) ([Suc m ..< Suc a] @ [Suc a ..< n]) =
      dropWhile (\<lambda>x. x \<le> a) [Suc a ..< n]"
    by (rule dropWhile_append2) auto
  moreover have "dropWhile (\<lambda>x. x \<le> a) [Suc a ..< n] = [Suc a ..< n]"
    by (cases "Suc a < n") (simp_all add: upt_conv_Cons)
  ultimately show ?thesis by simp
qed

lemma input_sender_new_inv:
  "input_sender_with_next_sequence c first = Inr s \<Longrightarrow> input_sender_inv s"
  by (auto simp: input_sender_with_next_sequence_def input_sender_inv_def word_pred_less
      unat_minus_one split: sum.splits if_splits)

lemma input_sender_record_Inr:
  assumes "input_sender_record s tick input = (Inr sequence, s')"
  shows "sequence = is_next_sequence s" and "tick \<noteq> 0"
    and "length (is_history s) < isc_history_capacity (is_config s)"
    and "\<exists>n. unat n = unat (is_next_sequence s) + 1 \<and>
      s' = s\<lparr>is_next_sequence := n, is_history := is_history s @
        [\<lparr>if_sequence = is_next_sequence s, if_target_tick = tick, if_input = input\<rparr>]\<rparr>"
proof -
  show "tick \<noteq> 0" and guard: "length (is_history s) < isc_history_capacity (is_config s)"
    using assms by (auto simp: input_sender_record_def split: if_splits)
  with assms obtain n where n: "checked_add (is_next_sequence s) 1 = Some n"
    by (cases "checked_add (is_next_sequence s) 1") (simp_all add: input_sender_record_def)
  with assms guard \<open>tick \<noteq> 0\<close> show seq: "sequence = is_next_sequence s"
    by (simp add: input_sender_record_def Let_def)
  have "s' = s\<lparr>is_next_sequence := n, is_history := is_history s @
        [\<lparr>if_sequence = is_next_sequence s, if_target_tick = tick, if_input = input\<rparr>]\<rparr>"
    using assms guard \<open>tick \<noteq> 0\<close> n by (auto simp: input_sender_record_def Let_def)
  moreover have "unat n = unat (is_next_sequence s) + 1"
    using n by (simp add: checked_add_Some_iff)
  ultimately show "\<exists>n. unat n = unat (is_next_sequence s) + 1 \<and>
      s' = s\<lparr>is_next_sequence := n, is_history := is_history s @
        [\<lparr>if_sequence = is_next_sequence s, if_target_tick = tick, if_input = input\<rparr>]\<rparr>"
    by blast
qed

lemma input_sender_record_Inl: "input_sender_record s tick input = (Inl e, s') \<Longrightarrow> s' = s"
  by (simp add: input_sender_record_def Let_def split: if_splits option.splits)

lemma input_sender_record_inv:
  assumes inv: "input_sender_inv s" and run: "input_sender_record s tick input = (res, s')"
  shows "input_sender_inv s'"
proof (cases res)
  case (Inl e)
  with run inv show ?thesis by (auto dest: input_sender_record_Inl)
next
  case (Inr q)
  note ok = input_sender_record_Inr [OF run [unfolded Inr]]
  from ok(4) obtain n where n: "unat n = unat (is_next_sequence s) + 1"
    and s': "s' = s\<lparr>is_next_sequence := n, is_history := is_history s @
       [\<lparr>if_sequence = is_next_sequence s, if_target_tick = tick, if_input = input\<rparr>]\<rparr>"
    by blast
  show ?thesis
    using inv ok(2,3) n by (auto simp: s' input_sender_inv_def word_less_nat_alt)
qed

lemma input_sender_acknowledge_inv:
  assumes inv: "input_sender_inv s" and run: "input_sender_acknowledge s a = (res, s')"
  shows "input_sender_inv s'"
proof -
  let ?q = "ia_acknowledged_sequence a"
  show ?thesis
  proof (cases "is_next_sequence s - 1 < ?q \<or> ?q \<le> is_acknowledged_sequence s")
    case True
    with run inv show ?thesis
      by (auto simp: input_sender_acknowledge_def input_sender_inv_def Let_def split: if_splits)
  next
    case False
    then have q: "is_acknowledged_sequence s < ?q" "?q < is_next_sequence s"
      using inv by (auto simp: input_sender_inv_def word_order_nat unat_pred word_gt_0)
    define h where "h = dropWhile (\<lambda>frame. if_sequence frame \<le> ?q) (is_history s)"
    have s': "s' = s\<lparr>is_acknowledged_server_tick :=
          max (is_acknowledged_server_tick s) (ia_server_tick a),
        is_acknowledged_sequence := ?q, is_history := h\<rparr>"
      using run False by (auto simp: input_sender_acknowledge_def Let_def h_def)
    have "map (unat \<circ> if_sequence) h = dropWhile (\<lambda>x. x \<le> unat ?q)
        (map (unat \<circ> if_sequence) (is_history s))"
      by (simp add: h_def dropWhile_map comp_def word_le_nat_alt)
    also have "\<dots> = [Suc (unat ?q) ..< unat (is_next_sequence s)]"
      using inv q by (simp add: input_sender_inv_def word_less_nat_alt dropWhile_upt)
    finally have "map (unat \<circ> if_sequence) h = [Suc (unat ?q) ..< unat (is_next_sequence s)]" .
    moreover have "set h \<subseteq> set (is_history s)" "length h \<le> length (is_history s)"
      by (auto simp: h_def length_dropWhile_le dest: set_dropWhileD)
    ultimately show ?thesis
      using inv q by (auto simp: s' input_sender_inv_def)
  qed
qed

subsection \<open>The receiver\<close>

text \<open>A pass of the loop is a run of the window that accepts exactly the frames it returns.\<close>

lemma input_receive_loop_accepts:
  assumes "input_receive_loop earliest latest frames w acc dup = Inr (accepted, duplicates, w')"
  shows "\<exists>new. accepted = acc @ new \<and> sw.accepts w (map if_sequence new) w' \<and>
           set new \<subseteq> set frames \<and> length frames + dup = length new + duplicates \<and>
           (\<forall>frame \<in> set new. if_target_tick frame \<noteq> 0 \<and> earliest \<le> if_target_tick frame \<and>
              if_target_tick frame \<le> latest)"
  using assms
proof (induction frames arbitrary: w acc dup)
  case Nil
  then show ?case by (auto intro: sw.accepts_nil)
next
  case (Cons frame frames)
  obtain res w1 where obs: "sequence_window_observe w (if_sequence frame) = (res, w1)"
    by fastforce
  then obtain d where d: "res = Inr d"
    using Cons.prems by (cases res) auto
  show ?case
  proof (cases d)
    case Duplicate
    note dup = d [unfolded Duplicate]
    from Cons.prems obs dup have "input_receive_loop earliest latest frames w1 acc (dup + 1) =
        Inr (accepted, duplicates, w')" by simp
    from Cons.IH [OF this] obs dup show ?thesis
      by (auto intro: sw.accepts_dup)
  next
    case Accepted
    note new = d [unfolded Accepted]
    from Cons.prems obs new have tick: "if_target_tick frame \<noteq> 0" "earliest \<le> if_target_tick frame"
        "if_target_tick frame \<le> latest"
      and run: "input_receive_loop earliest latest frames w1 (acc @ [frame]) dup =
        Inr (accepted, duplicates, w')"
      by (auto simp: not_less split: if_splits)
    from Cons.IH [OF run] obtain more where more: "accepted = (acc @ [frame]) @ more"
        "sw.accepts w1 (map if_sequence more) w'" "set more \<subseteq> set frames"
        "length frames + dup = length more + duplicates"
        "\<forall>f \<in> set more. if_target_tick f \<noteq> 0 \<and> earliest \<le> if_target_tick f \<and>
           if_target_tick f \<le> latest"
      by blast
    have "sw.accepts w (map if_sequence (frame # more)) w'"
      using obs new more(2) by (auto intro: sw.accepts_new)
    with more tick show ?thesis
      by (intro exI [of _ "frame # more"]) auto
  qed
qed

lemma input_receiver_receive_Inr:
  assumes "input_receiver_receive r tick packet = (Inr report, r')"
  shows "sw.accepts (ir_sequences r) (map if_sequence (irr_accepted report)) (ir_sequences r')"
    and "set (irr_accepted report) \<subseteq> set (ip_inputs packet)"
    and "irr_acknowledgement report = \<lparr>ia_server_tick = tick,
           ia_acknowledged_sequence = sequence_window_acknowledged (ir_sequences r')\<rparr>"
    and "ir_config r' = ir_config r"
    and "length (ip_inputs packet) = length (irr_accepted report) + irr_duplicates report"
    and "\<forall>frame \<in> set (irr_accepted report). if_target_tick frame \<noteq> 0 \<and>
           sat_sub tick (irc_max_past_ticks (ir_config r)) \<le> if_target_tick frame \<and>
           if_target_tick frame \<le> sat_add tick (irc_max_future_ticks (ir_config r))"
  using assms
  by (auto simp: input_receiver_receive_def Let_def split: if_splits sum.splits
      dest!: input_receive_loop_accepts)

lemma input_receiver_receive_Inl:
  "input_receiver_receive r tick packet = (Inl e, r') \<Longrightarrow> r' = r"
  by (auto simp: input_receiver_receive_def Let_def split: if_splits sum.splits)

lemma input_receiver_new_window:
  assumes "input_receiver_with_acknowledged c acknowledged = Inr r"
  shows "sequence_window_inv (ir_sequences r)"
    and "sequence_window_seen (ir_sequences r) = {s. 0 < s \<and> s \<le> acknowledged}"
    and "sequence_window_acknowledged (ir_sequences r) = acknowledged"
  using assms
  by (auto simp: input_receiver_with_acknowledged_def sequence_window_acknowledged_def
      split: sum.splits dest: sequence_window_with_acknowledged_inv)

subsection \<open>The system invariant\<close>

definition input_log_inv :: "u64 \<Rightarrow> 't input_sender \<Rightarrow> 't input_frame list \<Rightarrow> bool" where
  "input_log_inv first s log \<longleftrightarrow>
     input_sender_inv s \<and> 0 < first \<and> first \<le> is_next_sequence s \<and>
     (\<forall>frame \<in> set log. first \<le> if_sequence frame \<and> if_sequence frame < is_next_sequence s) \<and>
     inj_on if_sequence (set log) \<and>
     (\<forall>frame. frame \<in> set (is_history s) \<longleftrightarrow>
        frame \<in> set log \<and> is_acknowledged_sequence s < if_sequence frame)"

definition input_system_inv :: "u64 \<Rightarrow> 't input_system \<Rightarrow> bool" where
  "input_system_inv first y \<longleftrightarrow>
     input_log_inv first (sys_sender y) (sys_log y) \<and>
     sequence_window_inv (ir_sequences (sys_receiver y)) \<and>
     (\<forall>packet \<in> set (sys_packets y). set (ip_inputs packet) \<subseteq> set (sys_log y)) \<and>
     set (sys_accepted y) \<subseteq> set (sys_log y) \<and>
     distinct (map if_sequence (sys_accepted y)) \<and>
     sequence_window_seen (ir_sequences (sys_receiver y)) =
       {s. 0 < s \<and> s < first} \<union> if_sequence ` set (sys_accepted y) \<and>
     (\<forall>a \<in> set (sys_acks y). ia_acknowledged_sequence a \<le>
        sequence_window_acknowledged (ir_sequences (sys_receiver y))) \<and>
     is_acknowledged_sequence (sys_sender y) \<le>
       sequence_window_acknowledged (ir_sequences (sys_receiver y))"

lemma input_system_inv_acked:
  assumes "input_system_inv first y"
  shows "sequence_window_acknowledged (ir_sequences (sys_receiver y)) <
         is_next_sequence (sys_sender y)"
proof (rule ccontr)
  let ?next = "is_next_sequence (sys_sender y)"
  assume "\<not> ?thesis"
  then have le: "?next \<le> sequence_window_acknowledged (ir_sequences (sys_receiver y))" by simp
  have pos: "0 < ?next" "first \<le> ?next"
    using assms by (auto simp: input_system_inv_def input_log_inv_def)
  have "?next \<in> sequence_window_seen (ir_sequences (sys_receiver y))"
    using assms pos(1) le by (intro sw.contiguous) (auto simp: input_system_inv_def)
  then show False
    using assms pos(2) by (auto simp: input_system_inv_def input_log_inv_def)
qed

lemma input_log_inv_record:
  assumes inv: "input_log_inv first s log"
    and run: "input_sender_record s tick input = (Inr sequence, s')"
  shows "input_log_inv first s' (log @
           [\<lparr>if_sequence = sequence, if_target_tick = tick, if_input = input\<rparr>])"
    and "is_acknowledged_sequence s' = is_acknowledged_sequence s"
proof -
  let ?f = "\<lparr>if_sequence = sequence, if_target_tick = tick, if_input = input\<rparr>"
  note ok = input_sender_record_Inr [OF run]
  note seq = ok(1)
  from ok(4) obtain n where n: "unat n = unat (is_next_sequence s) + 1"
    and s': "s' = s\<lparr>is_next_sequence := n, is_history := is_history s @ [?f]\<rparr>"
    unfolding seq by blast
  have less: "is_next_sequence s < n" using n by (simp add: word_less_nat_alt)
  have s'_inv: "input_sender_inv s'"
    using inv run by (auto simp: input_log_inv_def intro: input_sender_record_inv)
  have ack: "is_acknowledged_sequence s < is_next_sequence s"
    using inv by (simp add: input_log_inv_def input_sender_inv_def)
  have inj: "inj_on if_sequence (set (log @ [?f]))"
    using inv by (auto simp: input_log_inv_def seq)
  have old: "frame \<in> set (is_history s) \<longleftrightarrow>
      frame \<in> set log \<and> is_acknowledged_sequence s < if_sequence frame" for frame
    using inv unfolding input_log_inv_def by blast
  have "frame \<in> set (is_history s @ [?f]) \<longleftrightarrow>
      frame \<in> set (log @ [?f]) \<and> is_acknowledged_sequence s < if_sequence frame" for frame
    using ack old [of frame] by (cases "frame = ?f") (simp_all add: seq)
  then have hist: "\<forall>frame. frame \<in> set (is_history s @ [?f]) \<longleftrightarrow>
      frame \<in> set (log @ [?f]) \<and> is_acknowledged_sequence s < if_sequence frame"
    by blast
  have "\<forall>frame \<in> set (log @ [?f]). first \<le> if_sequence frame \<and> if_sequence frame < n"
    using inv less by (auto simp: input_log_inv_def seq intro: less_trans)
  moreover have "first \<le> n"
    using inv less by (auto simp: input_log_inv_def)
  moreover have "0 < first"
    using inv by (simp add: input_log_inv_def)
  moreover have fields: "is_next_sequence s' = n" "is_history s' = is_history s @ [?f]"
      "is_acknowledged_sequence s' = is_acknowledged_sequence s"
    by (simp_all add: s')
  ultimately show "input_log_inv first s' (log @ [?f])"
    using s'_inv inj hist unfolding input_log_inv_def fields by blast
  show "is_acknowledged_sequence s' = is_acknowledged_sequence s"
    by (simp add: s')
qed

lemma dropWhile_sorted_filter:
  "sorted (map f xs) \<Longrightarrow> set (dropWhile (\<lambda>x. f x \<le> (a :: 'a::linorder)) xs) = {x \<in> set xs. a < f x}"
  by (induction xs) (auto intro: less_le_trans)

lemma input_log_inv_acknowledge:
  assumes inv: "input_log_inv first s log"
    and run: "input_sender_acknowledge s a = (res, s')"
  shows "input_log_inv first s' log"
    and "is_acknowledged_sequence s' \<le>
           max (is_acknowledged_sequence s) (ia_acknowledged_sequence a)"
proof -
  let ?q = "ia_acknowledged_sequence a"
  have s'_inv: "input_sender_inv s'"
    using inv run by (auto simp: input_log_inv_def intro: input_sender_acknowledge_inv)
  have "sorted (map (unat \<circ> if_sequence) (is_history s))"
    using inv by (simp add: input_log_inv_def input_sender_inv_def)
  then have sorted: "sorted (map if_sequence (is_history s))"
    by (simp add: sorted_map word_le_nat_alt)
  have next': "is_next_sequence s' = is_next_sequence s"
    using run by (auto simp: input_sender_acknowledge_def Let_def split: if_splits)
  have "is_acknowledged_sequence s' = is_acknowledged_sequence s \<and> is_history s' = is_history s \<or>
      is_acknowledged_sequence s' = ?q \<and> is_acknowledged_sequence s < ?q \<and>
      is_history s' = dropWhile (\<lambda>frame. if_sequence frame \<le> ?q) (is_history s)"
    using run by (auto simp: input_sender_acknowledge_def Let_def split: if_splits)
  then have hist: "(\<forall>frame. frame \<in> set (is_history s') \<longleftrightarrow>
        frame \<in> set log \<and> is_acknowledged_sequence s' < if_sequence frame) \<and>
      is_acknowledged_sequence s' \<le> max (is_acknowledged_sequence s) ?q"
  proof
    assume "is_acknowledged_sequence s' = is_acknowledged_sequence s \<and> is_history s' = is_history s"
    with inv show ?thesis by (simp add: input_log_inv_def)
  next
    assume new: "is_acknowledged_sequence s' = ?q \<and> is_acknowledged_sequence s < ?q \<and>
      is_history s' = dropWhile (\<lambda>frame. if_sequence frame \<le> ?q) (is_history s)"
    have "\<forall>frame. frame \<in> set (is_history s) \<longleftrightarrow>
        frame \<in> set log \<and> is_acknowledged_sequence s < if_sequence frame"
      using inv unfolding input_log_inv_def by blast
    moreover have "set (is_history s') = {frame \<in> set (is_history s). ?q < if_sequence frame}"
      using new sorted by (simp add: dropWhile_sorted_filter)
    ultimately show ?thesis
      using new by (auto intro: less_trans)
  qed
  then show "input_log_inv first s' log"
    using inv s'_inv unfolding input_log_inv_def next' by blast
  show "is_acknowledged_sequence s' \<le> max (is_acknowledged_sequence s) ?q"
    using hist by simp
qed

lemma input_system_inv_start:
  assumes "input_sender_with_next_sequence cs first = Inr s"
    and "input_receiver_with_acknowledged cr (first - 1) = Inr r"
  shows "input_system_inv first
    \<lparr>sys_sender = s, sys_receiver = r, sys_packets = [], sys_acks = [], sys_log = [],
     sys_accepted = []\<rparr>"
proof -
  have s: "first \<noteq> 0" "is_next_sequence s = first" "is_acknowledged_sequence s = first - 1"
      "is_history s = []"
    using assms(1) by (auto simp: input_sender_with_next_sequence_def split: sum.splits if_splits)
  then show ?thesis
    using input_sender_new_inv [OF assms(1)] input_receiver_new_window [OF assms(2)]
    by (simp add: input_system_inv_def input_log_inv_def word_gt_0 word_le_pred_iff)
qed

lemma input_system_inv_receive:
  assumes inv: "input_system_inv first y" and packet: "packet \<in> set (sys_packets y)"
    and run: "input_receiver_receive (sys_receiver y) tick packet = (Inr report, r')"
  shows "input_system_inv first (y\<lparr>sys_receiver := r',
           sys_acks := sys_acks y @ [irr_acknowledgement report],
           sys_accepted := sys_accepted y @ irr_accepted report\<rparr>)"
proof -
  note rcv = input_receiver_receive_Inr [OF run]
  have w_inv: "sequence_window_inv (ir_sequences (sys_receiver y))"
    using inv by (simp add: input_system_inv_def)
  note once = sw.accepts_once [OF rcv(1) w_inv]
  have mono: "sequence_window_acknowledged (ir_sequences (sys_receiver y)) \<le>
      sequence_window_acknowledged (ir_sequences r')"
    by (rule sw.accepts_acked_mono [OF rcv(1) w_inv])
  have "set (ip_inputs packet) \<subseteq> set (sys_log y)"
    using inv packet by (simp add: input_system_inv_def)
  with rcv(2) have "set (irr_accepted report) \<subseteq> set (sys_log y)" by blast
  moreover have "distinct (map if_sequence (sys_accepted y @ irr_accepted report))"
    using inv once by (auto simp: input_system_inv_def)
  moreover have "\<forall>a \<in> set (sys_acks y). ia_acknowledged_sequence a \<le>
      sequence_window_acknowledged (ir_sequences r')"
    using inv mono by (auto simp: input_system_inv_def intro: order_trans)
  moreover have "is_acknowledged_sequence (sys_sender y) \<le>
      sequence_window_acknowledged (ir_sequences r')"
    using inv mono by (auto simp: input_system_inv_def intro: order_trans)
  moreover have "sequence_window_seen (ir_sequences r') = {s. 0 < s \<and> s < first} \<union>
      if_sequence ` set (sys_accepted y @ irr_accepted report)"
    using inv once by (auto simp: input_system_inv_def)
  ultimately show ?thesis
    using inv once rcv(3) by (simp add: input_system_inv_def)
qed

lemma input_step_inv: "input_step y z \<Longrightarrow> input_system_inv first y \<Longrightarrow> input_system_inv first z"
proof (induction rule: input_step.induct)
  case (step_record y tick input sequence s')
  then show ?case
    using input_log_inv_record [of first "sys_sender y" "sys_log y" tick input sequence s']
    by (simp add: input_system_inv_def subset_insertI2)
next
  case (step_send y tick)
  then have "set (is_history (sys_sender y)) \<subseteq> set (sys_log y)"
    by (auto simp: input_system_inv_def input_log_inv_def)
  then have "set (ip_inputs (input_sender_packet (sys_sender y) tick)) \<subseteq> set (sys_log y)"
    by (auto simp: input_sender_packet_def Let_def dest: in_set_dropD)
  with step_send show ?case
    by (simp add: input_system_inv_def)
next
  case (step_lose y i)
  then show ?case
    by (auto simp: input_system_inv_def dest: in_set_takeD in_set_dropD)
next
  case (step_receive packet y tick report r')
  then show ?case by (blast intro: input_system_inv_receive)
next
  case (step_reject packet y tick e r')
  then show ?case by (auto dest: input_receiver_receive_Inl)
next
  case (step_acknowledge a y result s')
  then have "ia_acknowledged_sequence a \<le>
      sequence_window_acknowledged (ir_sequences (sys_receiver y))"
    by (simp add: input_system_inv_def)
  moreover have "is_acknowledged_sequence (sys_sender y) \<le>
      sequence_window_acknowledged (ir_sequences (sys_receiver y))"
    using step_acknowledge by (simp add: input_system_inv_def)
  moreover have log: "input_log_inv first s' (sys_log y)" and
      "is_acknowledged_sequence s' \<le>
        max (is_acknowledged_sequence (sys_sender y)) (ia_acknowledged_sequence a)"
    using step_acknowledge
      input_log_inv_acknowledge [of first "sys_sender y" "sys_log y" a result s']
    by (simp_all add: input_system_inv_def)
  ultimately have "is_acknowledged_sequence s' \<le>
      sequence_window_acknowledged (ir_sequences (sys_receiver y))"
    by (meson max.boundedI order_trans)
  with log step_acknowledge show ?case
    by (simp add: input_system_inv_def)
qed

lemma input_reachable_inv: "input_reachable cs cr first y \<Longrightarrow> input_system_inv first y"
  by (induction rule: input_reachable.induct)
    (blast intro: input_system_inv_start input_step_inv)+

lemma input_acknowledge_ok:
  "ia_acknowledged_sequence a < is_next_sequence s \<Longrightarrow>
   \<exists>n s'. input_sender_acknowledge s a = (Inr n, s')"
proof -
  assume less: "ia_acknowledged_sequence a < is_next_sequence s"
  then have "is_next_sequence s \<noteq> 0" by auto
  with less have "\<not> is_next_sequence s - 1 < ia_acknowledged_sequence a"
    by (simp add: word_less_nat_alt unat_minus_one)
  then show ?thesis by (simp add: input_sender_acknowledge_def Let_def)
qed

lemma input_run_event_step: "input_step y (input_run_event y e) \<or> input_run_event y e = y"
proof (cases e)
  case (EvRecord tick input)
  then show ?thesis
    by (auto split: prod.splits sum.splits intro: step_record)
next
  case (EvSend tick)
  then show ?thesis
    by (auto intro: step_send)
next
  case (EvLose i)
  then show ?thesis
    by (auto intro: step_lose)
next
  case (EvReceive i tick)
  then show ?thesis
    by (auto split: prod.splits sum.splits
        intro: step_receive [OF nth_mem] step_reject [OF nth_mem])
next
  case (EvAcknowledge i)
  then show ?thesis
    using step_acknowledge [OF nth_mem prod.collapse [symmetric], of i y] by auto
qed

lemma input_run_event_reachable:
  "input_reachable cs cr first y \<Longrightarrow> input_reachable cs cr first (input_run_event y e)"
  using input_run_event_step [of y e] by (auto intro: input_next)

lemma input_run_reachable:
  "input_run cs cr first events = Some y \<Longrightarrow> input_reachable cs cr first y"
proof -
  assume "input_run cs cr first events = Some y"
  then obtain s r where start: "input_sender_with_next_sequence cs first = Inr s"
      "input_receiver_with_acknowledged cr (first - 1) = Inr r"
    and y: "y = fold (\<lambda>e y. input_run_event y e) events
            \<lparr>sys_sender = s, sys_receiver = r, sys_packets = [], sys_acks = [], sys_log = [],
             sys_accepted = []\<rparr>"
    by (auto simp: input_run_def split: sum.splits)
  have "input_reachable cs cr first z \<Longrightarrow>
      input_reachable cs cr first (fold (\<lambda>e y. input_run_event y e) events z)" for z
    by (induction events arbitrary: z) (auto intro: input_run_event_reachable)
  with start show ?thesis unfolding y by (blast intro: input_start)
qed

subsection \<open>A client that can no longer make progress\<close>

text \<open>
  The sender has a full history, the oldest retained frame is the next one the receiver
  needs, and no packet in the network carries it.
\<close>

definition input_stalled :: "'t input_system \<Rightarrow> bool" where
  "input_stalled y \<longleftrightarrow>
     (let s = sys_sender y; w = ir_sequences (sys_receiver y)
      in isc_redundancy (is_config s) < isc_history_capacity (is_config s) \<and>
         length (is_history s) = isc_history_capacity (is_config s) \<and>
         is_acknowledged_sequence s = sequence_window_acknowledged w \<and>
         (\<forall>packet \<in> set (sys_packets y). \<forall>frame \<in> set (ip_inputs packet).
            if_sequence frame \<noteq> is_acknowledged_sequence s + 1))"

lemma input_packet_misses_oldest:
  assumes inv: "input_sender_inv s" and more: "isc_redundancy (is_config s) < length (is_history s)"
    and frame: "frame \<in> set (ip_inputs (input_sender_packet s tick))"
  shows "if_sequence frame \<noteq> is_acknowledged_sequence s + 1"
proof
  let ?k = "length (is_history s) - isc_redundancy (is_config s)"
  assume eq: "if_sequence frame = is_acknowledged_sequence s + 1"
  have seqs: "map (unat \<circ> if_sequence) (is_history s) =
      [Suc (unat (is_acknowledged_sequence s)) ..< unat (is_next_sequence s)]"
    and less: "is_acknowledged_sequence s < is_next_sequence s"
    using inv by (auto simp: input_sender_inv_def)
  have "(unat \<circ> if_sequence) frame \<in>
      set (map (unat \<circ> if_sequence) (drop ?k (is_history s)))"
    using frame by (auto simp: input_sender_packet_def Let_def)
  then have "(unat \<circ> if_sequence) frame \<in>
      set (drop ?k [Suc (unat (is_acknowledged_sequence s)) ..< unat (is_next_sequence s)])"
    by (simp only: drop_map [symmetric] seqs)
  then show False
    using more eq unat_succ_less [OF less] by auto
qed

lemma input_stalled_step:
  assumes "input_step y z" and "input_system_inv first y" and "input_stalled y"
  shows "input_stalled z \<and> is_history (sys_sender z) = is_history (sys_sender y) \<and>
    is_acknowledged_sequence (sys_sender z) = is_acknowledged_sequence (sys_sender y)"
  using assms
proof (induction rule: input_step.induct)
  case (step_record y tick input sequence s')
  then show ?case
    using input_sender_record_Inr(3) [OF step_record(1)] by (simp add: input_stalled_def Let_def)
next
  case (step_send y tick)
  then have "\<forall>frame \<in> set (ip_inputs (input_sender_packet (sys_sender y) tick)).
      if_sequence frame \<noteq> is_acknowledged_sequence (sys_sender y) + 1"
    using input_packet_misses_oldest [of "sys_sender y"]
    by (auto simp: input_stalled_def Let_def input_system_inv_def input_log_inv_def)
  with step_send show ?case
    by (auto simp: input_stalled_def Let_def)
next
  case (step_lose y i)
  then show ?case
    by (auto simp: input_stalled_def Let_def dest: in_set_takeD in_set_dropD)
next
  case (step_receive packet y tick report r')
  let ?a = "is_acknowledged_sequence (sys_sender y)"
  note rcv = input_receiver_receive_Inr [OF step_receive(2)]
  have w: "sequence_window_inv (ir_sequences (sys_receiver y))"
      "?a = sequence_window_acknowledged (ir_sequences (sys_receiver y))"
    using step_receive by (auto simp: input_system_inv_def input_stalled_def Let_def)
  have succ: "checked_add ?a 1 = Some (?a + 1)"
    using step_receive(3)
    by (auto simp: input_system_inv_def input_log_inv_def input_sender_inv_def intro: checked_succ)
  have "\<forall>frame \<in> set (ip_inputs packet). if_sequence frame \<noteq> ?a + 1"
    using step_receive(1,4) unfolding input_stalled_def Let_def by blast
  with rcv(2) have "?a + 1 \<notin> set (map if_sequence (irr_accepted report))"
    by (metis (no_types, lifting) imageE list.set_map subsetD)
  then have "sequence_window_acknowledged (ir_sequences r') = ?a"
    using sw.accepts_acked_gap [OF rcv(1) w(1), of "?a + 1"]
      sw.accepts_acked_mono [OF rcv(1) w(1)] succ w(2) by simp
  with step_receive(4) show ?case
    by (auto simp: input_stalled_def Let_def)
next
  case (step_reject packet y tick e r')
  then show ?case by (auto dest: input_receiver_receive_Inl)
next
  case (step_acknowledge a y result s')
  then have old: "ia_acknowledged_sequence a \<le> is_acknowledged_sequence (sys_sender y)"
    by (auto simp: input_system_inv_def input_stalled_def Let_def)
  have "is_config s' = is_config (sys_sender y)" "is_history s' = is_history (sys_sender y)"
      "is_acknowledged_sequence s' = is_acknowledged_sequence (sys_sender y)"
    using step_acknowledge(2) old
    by (auto simp: input_sender_acknowledge_def Let_def split: if_splits)
  with step_acknowledge(4) show ?case
    by (auto simp: input_stalled_def Let_def)
qed

lemma input_stalled_steps:
  assumes "input_step\<^sup>*\<^sup>* y z" and "input_system_inv first y" and "input_stalled y"
  shows "input_system_inv first z \<and> input_stalled z \<and>
    is_history (sys_sender z) = is_history (sys_sender y) \<and>
    is_acknowledged_sequence (sys_sender z) = is_acknowledged_sequence (sys_sender y)"
  using assms
proof (induction rule: rtranclp_induct)
  case (step z z')
  then have z: "input_system_inv first z" "input_stalled z" "is_history (sys_sender z) = is_history (sys_sender y)"
      "is_acknowledged_sequence (sys_sender z) = is_acknowledged_sequence (sys_sender y)" by blast+
  from input_stalled_step [OF step(2) z(1,2)] input_step_inv [OF step(2) z(1)] z(3,4)
  show ?case by simp
qed simp

subsection \<open>Properties\<close>

text \<open>C2. Exactly-once delivery of client inputs: whatever the network loses, repeats or
  reorders, every frame the receiver hands to the game was recorded by the client, no input
  sequence is handed over twice, and an input that the sender has released from its history
  has been handed over.\<close>

theorem input_stream_exactly_once:
  assumes "input_reachable cs cr first y"
  shows "set (sys_accepted y) \<subseteq> set (sys_log y)
    \<and> distinct (map if_sequence (sys_accepted y))
    \<and> set (sys_log y) \<subseteq> set (is_history (sys_sender y)) \<union> set (sys_accepted y)"
proof -
  note inv = input_reachable_inv [OF assms]
  have acc: "set (sys_accepted y) \<subseteq> set (sys_log y)" "distinct (map if_sequence (sys_accepted y))"
    using inv by (auto simp: input_system_inv_def)
  have "frame \<in> set (sys_accepted y)"
    if frame: "frame \<in> set (sys_log y)" and gone: "frame \<notin> set (is_history (sys_sender y))" for frame
  proof -
    have "if_sequence frame \<le> is_acknowledged_sequence (sys_sender y)"
      and low: "first \<le> if_sequence frame" "0 < first"
      using inv frame gone by (auto simp: input_system_inv_def input_log_inv_def not_less)
    then have "if_sequence frame \<in> sequence_window_seen (ir_sequences (sys_receiver y))"
      using inv by (intro sw.contiguous) (auto simp: input_system_inv_def)
    with low have "if_sequence frame \<in> if_sequence ` set (sys_accepted y)"
      using inv by (auto simp: input_system_inv_def)
    with frame acc(1) show ?thesis
      using inv by (auto simp: input_system_inv_def input_log_inv_def dest: inj_onD)
  qed
  with acc show ?thesis by blast
qed

definition input_demo :: "nat input_system" where
  "input_demo = the (input_run input_sender_config_default input_receiver_config_default 1
     [EvRecord 5 10, EvRecord 6 11, EvSend 1, EvRecord 7 12, EvSend 2,
      EvReceive 1 4, EvReceive 0 4, EvAcknowledge 0, EvAcknowledge 1])"

lemma input_demo_reachable:
  "input_reachable input_sender_config_default input_receiver_config_default 1 input_demo"
proof -
  have "input_run input_sender_config_default input_receiver_config_default 1
     [EvRecord 5 10, EvRecord 6 11, EvSend 1, EvRecord 7 (12 :: nat), EvSend 2,
      EvReceive 1 4, EvReceive 0 4, EvAcknowledge 0, EvAcknowledge 1] \<noteq> None"
    by code_simp
  then show ?thesis
    unfolding input_demo_def by (auto intro: input_run_reachable)
qed

theorem input_stream_exactly_once_witness:
  "distinct (map if_sequence (sys_accepted input_demo)) \<and>
   map if_input (sys_accepted input_demo) = [10, 11, 12] \<and>
   is_history (sys_sender input_demo) = []"
proof -
  have "map if_input (sys_accepted input_demo) = [10, 11, 12]"
    "is_history (sys_sender input_demo) = []"
    by code_simp+
  then show ?thesis
    using input_stream_exactly_once [OF input_demo_reachable] by blast
qed

text \<open>No acknowledgement the receiver ever produced, however late it arrives, is rejected
  by the sender: \<open>acknowledge\<close> never returns \<open>InvalidAcknowledgement\<close>, and the number
  of inputs it releases is the advance of the cumulative acknowledgement.\<close>

theorem input_acknowledgement_accepted:
  assumes "input_reachable cs cr first y" and "a \<in> set (sys_acks y)"
  shows "\<exists>s'. input_sender_acknowledge (sys_sender y) a =
      (Inr (unat (is_acknowledged_sequence s') -
            unat (is_acknowledged_sequence (sys_sender y))), s')
    \<and> is_acknowledged_sequence s' =
        max (is_acknowledged_sequence (sys_sender y)) (ia_acknowledged_sequence a)"
proof -
  note inv = input_reachable_inv [OF assms(1)]
  let ?s = "sys_sender y" and ?q = "ia_acknowledged_sequence a"
  have "?q \<le> sequence_window_acknowledged (ir_sequences (sys_receiver y))"
    using inv assms(2) by (simp add: input_system_inv_def)
  then have less: "?q < is_next_sequence ?s"
    using input_system_inv_acked [OF inv] by simp
  have s_inv: "input_sender_inv ?s"
    using inv by (simp add: input_system_inv_def input_log_inv_def)
  obtain n s' where run: "input_sender_acknowledge ?s a = (Inr n, s')"
    using input_acknowledge_ok [OF less] by blast
  have ack: "is_acknowledged_sequence s' = max (is_acknowledged_sequence ?s) ?q"
    and n: "n = length (is_history ?s) - length (is_history s')"
    and fields: "is_next_sequence s' = is_next_sequence ?s"
    using run by (auto simp: input_sender_acknowledge_def Let_def max_def split: if_splits)
  have len: "length (is_history t) = unat (is_next_sequence t) - Suc (unat (is_acknowledged_sequence t))"
    if "input_sender_inv t" for t :: "'a input_sender"
    using that length_map [of "unat \<circ> if_sequence" "is_history t"] by (simp add: input_sender_inv_def)
  have "is_acknowledged_sequence ?s \<le> is_acknowledged_sequence s'"
      "is_acknowledged_sequence s' < is_next_sequence ?s"
    using s_inv less by (auto simp: ack input_sender_inv_def)
  then have "n = unat (is_acknowledged_sequence s') - unat (is_acknowledged_sequence ?s)"
    using len [OF s_inv] len [OF input_sender_acknowledge_inv [OF s_inv run]]
    by (simp add: n fields word_le_nat_alt word_less_nat_alt)
  with run ack show ?thesis by auto
qed

theorem input_acknowledgement_accepted_witness:
  "sys_acks input_demo \<noteq> [] \<and>
   (\<exists>s'. input_sender_acknowledge (sys_sender input_demo) (hd (sys_acks input_demo)) = (Inr 0, s'))"
proof -
  have nonempty: "sys_acks input_demo \<noteq> []"
    and zero: "ia_acknowledged_sequence (hd (sys_acks input_demo)) \<le>
      is_acknowledged_sequence (sys_sender input_demo)"
    by code_simp+
  with input_acknowledgement_accepted [OF input_demo_reachable, of "hd (sys_acks input_demo)"]
  show ?thesis by (auto simp: max_def)
qed

text \<open>Packet processing is transactional for any packet, well-formed or hostile: a rejected
  packet leaves the receiver unchanged, and an accepted one hands over frames of that packet
  with pairwise different, never before received sequences whose target Ticks lie in the
  receive window, and counts every other frame as a duplicate.\<close>

theorem input_receive_transactional:
  assumes inv: "sequence_window_inv (ir_sequences r)"
  shows "case input_receiver_receive r tick packet of
      (Inl e, r') \<Rightarrow> r' = r
    | (Inr report, r') \<Rightarrow>
        sequence_window_inv (ir_sequences r') \<and>
        set (irr_accepted report) \<subseteq> set (ip_inputs packet) \<and>
        distinct (map if_sequence (irr_accepted report)) \<and>
        if_sequence ` set (irr_accepted report) \<inter> sequence_window_seen (ir_sequences r) = {} \<and>
        sequence_window_seen (ir_sequences r') =
          sequence_window_seen (ir_sequences r) \<union> if_sequence ` set (irr_accepted report) \<and>
        irr_duplicates report = length (ip_inputs packet) - length (irr_accepted report) \<and>
        (\<forall>frame \<in> set (irr_accepted report).
           sat_sub tick (irc_max_past_ticks (ir_config r)) \<le> if_target_tick frame \<and>
           if_target_tick frame \<le> sat_add tick (irc_max_future_ticks (ir_config r)))"
proof (cases "input_receiver_receive r tick packet")
  case (Pair res r')
  show ?thesis
  proof (cases res)
    case (Inl e)
    with Pair show ?thesis by (auto dest: input_receiver_receive_Inl)
  next
    case (Inr report)
    note rcv = input_receiver_receive_Inr [OF Pair [unfolded Inr]]
    show ?thesis
      using sw.accepts_once [OF rcv(1) inv] rcv(2,5,6) by (simp add: Pair Inr)
  qed
qed

theorem input_receive_transactional_witness:
  "\<exists>r. input_receiver_new input_receiver_config_default = Inr r \<and>
    fst (input_receiver_receive r 1 \<lparr>ip_client_tick = 1, ip_acknowledged_server_tick = 0,
      ip_inputs = [\<lparr>if_sequence = 1, if_target_tick = 500, if_input = ()\<rparr>]\<rparr>) =
      Inl (InvalidInput ''input target Tick is outside the receive window'') \<and>
    snd (input_receiver_receive r 1 \<lparr>ip_client_tick = 1, ip_acknowledged_server_tick = 0,
      ip_inputs = [\<lparr>if_sequence = 1, if_target_tick = 500, if_input = ()\<rparr>]\<rparr>) = r"
proof -
  let ?p = "\<lparr>ip_client_tick = 1, ip_acknowledged_server_tick = 0,
      ip_inputs = [\<lparr>if_sequence = 1, if_target_tick = 500, if_input = ()\<rparr>]\<rparr>"
  let ?r = "\<lparr>ir_config = input_receiver_config_default, ir_sequences =
      \<lparr>sw_reorder_window = 256, sw_acknowledged = 0, sw_pending = []\<rparr>\<rparr>"
  have new: "input_receiver_new input_receiver_config_default = Inr ?r"
    by code_simp
  then have inv: "sequence_window_inv (ir_sequences ?r)"
    by (intro input_receiver_new_window) (simp add: input_receiver_new_def)
  have "fst (input_receiver_receive ?r 1 ?p) =
      Inl (InvalidInput ''input target Tick is outside the receive window'')"
    by code_simp
  with input_receive_transactional [OF inv, where tick = 1 and packet = ?p] new show ?thesis
    by (auto split: prod.splits)
qed

text \<open>C18. A packet carries only the newest \<open>redundancy\<close> inputs, so the stream can reach a
  state with no way back. Take a reachable state in which the redundancy is below the history
  capacity, the sender's history is full, the sender has seen every acknowledgement of the receiver
  (their acknowledged sequences agree) and no packet still in the network carries the next sequence.
  From there, whatever is recorded, sent, lost, delivered or acknowledged, in any order and number,
  the receiver's acknowledgement and the sender's never move, the sender's history stays as it is,
  and every further \<open>record\<close> for a Tick other than 0 returns \<open>InputHistoryFull\<close>.\<close>

theorem input_stream_stall:
  assumes "input_reachable cs cr first y"
    and small: "isc_redundancy (is_config (sys_sender y)) < isc_history_capacity (is_config (sys_sender y))"
    and full: "length (is_history (sys_sender y)) = isc_history_capacity (is_config (sys_sender y))"
    and agree: "is_acknowledged_sequence (sys_sender y) =
      sequence_window_acknowledged (ir_sequences (sys_receiver y))"
    and lost: "\<forall>packet \<in> set (sys_packets y). \<forall>frame \<in> set (ip_inputs packet).
      if_sequence frame \<noteq> is_acknowledged_sequence (sys_sender y) + 1"
    and steps: "input_step\<^sup>*\<^sup>* y z" and "tick \<noteq> 0"
  shows "input_sender_record (sys_sender z) tick input = (Inl InputHistoryFull, sys_sender z)
    \<and> sequence_window_acknowledged (ir_sequences (sys_receiver z)) =
        sequence_window_acknowledged (ir_sequences (sys_receiver y))
    \<and> is_acknowledged_sequence (sys_sender z) =
        sequence_window_acknowledged (ir_sequences (sys_receiver z))
    \<and> is_history (sys_sender z) = is_history (sys_sender y) \<and> is_history (sys_sender z) \<noteq> []"
proof -
  have "input_stalled y"
    using small full agree lost by (simp add: input_stalled_def Let_def)
  note z = input_stalled_steps [OF steps input_reachable_inv [OF assms(1)] this]
  then have "input_stalled z" by simp
  then have "sequence_window_acknowledged (ir_sequences (sys_receiver z)) =
      is_acknowledged_sequence (sys_sender z)"
      "input_sender_record (sys_sender z) tick input = (Inl InputHistoryFull, sys_sender z)"
    using \<open>tick \<noteq> 0\<close> by (simp_all add: input_stalled_def Let_def input_sender_record_def)
  moreover have "is_history (sys_sender y) \<noteq> []"
    using small full by auto
  ultimately show ?thesis
    using z agree by simp
qed

definition input_demo_config :: input_sender_config where
  "input_demo_config = \<lparr>isc_history_capacity = 2, isc_redundancy = 1\<rparr>"

definition input_demo_stalled :: "nat input_system" where
  "input_demo_stalled = the (input_run input_demo_config input_receiver_config_default 1
     [EvRecord 5 10, EvSend 1, EvRecord 6 11, EvSend 2, EvLose 0, EvReceive 0 4])"

lemma input_demo_stalled_reachable:
  "input_reachable input_demo_config input_receiver_config_default 1 input_demo_stalled"
proof -
  have "input_run input_demo_config input_receiver_config_default 1
     [EvRecord 5 10, EvSend 1, EvRecord 6 (11 :: nat), EvSend 2, EvLose 0, EvReceive 0 4] \<noteq> None"
    by code_simp
  then show ?thesis
    unfolding input_demo_stalled_def by (auto intro: input_run_reachable)
qed

theorem input_stream_stall_witness:
  "map if_input (sys_accepted input_demo_stalled) = [11] \<and>
   input_sender_record (sys_sender input_demo_stalled) 7 12 =
     (Inl InputHistoryFull, sys_sender input_demo_stalled)"
proof -
  have accepted: "map if_input (sys_accepted input_demo_stalled) = [11]"
    and stalled: "input_stalled input_demo_stalled" and tick: "(7 :: u64) \<noteq> 0"
    by code_simp+
  note input_stream_stall [OF input_demo_stalled_reachable _ _ _ _ rtranclp.rtrancl_refl tick, of 12]
  with accepted stalled show ?thesis
    unfolding input_stalled_def Let_def by blast
qed

end
