(* ===== verification/Prediction.thy ===== *)
theory Prediction
  imports Sequence_Window
begin

section \<open>Client prediction and reconciliation\<close>

text \<open>
  \<open>PredictionBuffer\<close> of \<open>src/crates/elura-netcode/src/prediction.rs\<close>: the bounded
  history of locally simulated inputs, and the rewind-and-replay that an authoritative
  state triggers. The game's \<open>simulate\<close> callback is an argument: it advances a state by
  one Tick and one input.
\<close>

subsection \<open>Data and operations\<close>

record prediction_config =
  pc_history_capacity :: usize
  pc_max_replay_steps :: usize

record ('i, 's) prediction_frame =
  pf_tick :: u64
  pf_input :: 'i
  pf_predicted_state :: 's

record 's reconciliation_report =
  rr_authoritative_tick :: u64
  rr_predicted_state_at_authoritative_tick :: "'s option"
  rr_corrected_state :: 's
  rr_replayed_inputs :: usize
  rr_current_tick :: u64

record ('i, 's) prediction_buffer =
  pb_config :: prediction_config
  pb_frames :: "('i, 's) prediction_frame list"
  pb_confirmed_tick :: u64

definition prediction_config_default :: prediction_config where
  "prediction_config_default = \<lparr>pc_history_capacity = 256, pc_max_replay_steps = 64\<rparr>"

definition prediction_config_validate :: "prediction_config \<Rightarrow> netcode_error + unit" where
  "prediction_config_validate c =
     (if pc_history_capacity c = 0
      then Inl (InvalidConfig ''prediction history capacity must be positive'')
      else if pc_max_replay_steps c = 0 \<or> pc_history_capacity c < pc_max_replay_steps c
      then Inl (InvalidConfig ''prediction replay limit must be within history capacity'')
      else Inr ())"

definition prediction_buffer_new ::
    "prediction_config \<Rightarrow> netcode_error + ('i, 's) prediction_buffer" where
  "prediction_buffer_new config =
     (case prediction_config_validate config of
        Inl e \<Rightarrow> Inl e
      | Inr _ \<Rightarrow> Inr \<lparr>pb_config = config, pb_frames = [], pb_confirmed_tick = 0\<rparr>)"

definition prediction_buffer_record ::
    "('i, 's) prediction_buffer \<Rightarrow> u64 \<Rightarrow> 'i \<Rightarrow> 's \<Rightarrow>
     (netcode_error + unit) \<times> ('i, 's) prediction_buffer" where
  "prediction_buffer_record b tick input predicted_state =
     (let previous = (if pb_frames b = [] then pb_confirmed_tick b
                      else pf_tick (last (pb_frames b)))
      in if tick = 0 \<or> tick \<le> previous
         then (Inl (InvalidInput ''prediction Tick must increase and be positive''), b)
         else if pc_history_capacity (pb_config b) \<le> length (pb_frames b)
         then (Inl PredictionHistoryFull, b)
         else (Inr (), b\<lparr>pb_frames := pb_frames b @
                [\<lparr>pf_tick = tick, pf_input = input, pf_predicted_state = predicted_state\<rparr>]\<rparr>))"

text \<open>The loop over the remaining frames, threading the corrected state.\<close>

primrec prediction_replay ::
    "('s \<Rightarrow> u64 \<Rightarrow> 'i \<Rightarrow> 's) \<Rightarrow> 's \<Rightarrow> ('i, 's) prediction_frame list \<Rightarrow>
     's \<times> ('i, 's) prediction_frame list" where
  "prediction_replay simulate corrected_state [] = (corrected_state, [])"
| "prediction_replay simulate corrected_state (frame # frames) =
     (let corrected_state = simulate corrected_state (pf_tick frame) (pf_input frame);
          (final, frames') = prediction_replay simulate corrected_state frames
      in (final, frame\<lparr>pf_predicted_state := corrected_state\<rparr> # frames'))"

definition prediction_buffer_reconcile ::
    "('s \<Rightarrow> u64 \<Rightarrow> 'i \<Rightarrow> 's) \<Rightarrow> ('i, 's) prediction_buffer \<Rightarrow> u64 \<Rightarrow> 's \<Rightarrow>
     (netcode_error + 's reconciliation_report) \<times> ('i, 's) prediction_buffer" where
  "prediction_buffer_reconcile simulate b authoritative_tick authoritative_state =
     (if authoritative_tick < pb_confirmed_tick b
      then (Inl (InvalidInput ''authoritative prediction Tick moved backwards''), b)
      else
        (let confirmed_frames =
               length (takeWhile (\<lambda>frame. \<not> authoritative_tick < pf_tick frame) (pb_frames b));
             replayed_inputs = length (pb_frames b) - confirmed_frames
         in if pc_max_replay_steps (pb_config b) < replayed_inputs
            then (Inl ReplayLimitExceeded, b)
            else
              (let predicted =
                     (if confirmed_frames = 0 then None
                      else
                        (let frame = pb_frames b ! (confirmed_frames - 1)
                         in if pf_tick frame = authoritative_tick
                            then Some (pf_predicted_state frame) else None));
                   (corrected_state, frames) =
                     prediction_replay simulate authoritative_state
                       (drop confirmed_frames (pb_frames b));
                   current_tick =
                     (if frames = [] then authoritative_tick else pf_tick (last frames))
               in (Inr \<lparr>rr_authoritative_tick = authoritative_tick,
                        rr_predicted_state_at_authoritative_tick = predicted,
                        rr_corrected_state = corrected_state,
                        rr_replayed_inputs = replayed_inputs,
                        rr_current_tick = current_tick\<rparr>,
                   b\<lparr>pb_frames := frames, pb_confirmed_tick := authoritative_tick\<rparr>))))"

definition prediction_buffer_reset ::
    "('i, 's) prediction_buffer \<Rightarrow> u64 \<Rightarrow> ('i, 's) prediction_buffer" where
  "prediction_buffer_reset b confirmed_tick =
     b\<lparr>pb_frames := [], pb_confirmed_tick := confirmed_tick\<rparr>"

definition prediction_buffer_pending_len :: "('i, 's) prediction_buffer \<Rightarrow> usize" where
  "prediction_buffer_pending_len b = length (pb_frames b)"

subsection \<open>Invariant\<close>

definition prediction_buffer_inv :: "('i, 's) prediction_buffer \<Rightarrow> bool" where
  "prediction_buffer_inv b \<longleftrightarrow>
     sorted_wrt (<) (map pf_tick (pb_frames b)) \<and>
     (\<forall>frame \<in> set (pb_frames b). pb_confirmed_tick b < pf_tick frame) \<and>
     length (pb_frames b) \<le> pc_history_capacity (pb_config b)"

text \<open>Every retained predicted state is one simulation step from the state before it.\<close>

fun prediction_chain ::
    "('s \<Rightarrow> u64 \<Rightarrow> 'i \<Rightarrow> 's) \<Rightarrow> 's \<Rightarrow> ('i, 's) prediction_frame list \<Rightarrow> bool" where
  "prediction_chain simulate s [] \<longleftrightarrow> True"
| "prediction_chain simulate s (frame # frames) \<longleftrightarrow>
     pf_predicted_state frame = simulate s (pf_tick frame) (pf_input frame) \<and>
     prediction_chain simulate (pf_predicted_state frame) frames"

abbreviation prediction_latest :: "'s \<Rightarrow> ('i, 's) prediction_frame list \<Rightarrow> 's" where
  "prediction_latest s frames \<equiv> (if frames = [] then s else pf_predicted_state (last frames))"

lemma prediction_buffer_new_inv: "prediction_buffer_new c = Inr b \<Longrightarrow> prediction_buffer_inv b"
  by (auto simp: prediction_buffer_new_def prediction_buffer_inv_def split: sum.splits)

lemma prediction_buffer_record_inv:
  assumes inv: "prediction_buffer_inv b"
    and run: "prediction_buffer_record b tick input st = (res, b')"
  shows "prediction_buffer_inv b'"
proof (cases "b' = b")
  case True
  with inv show ?thesis by simp
next
  case False
  then have b': "b' = b\<lparr>pb_frames := pb_frames b @
        [\<lparr>pf_tick = tick, pf_input = input, pf_predicted_state = st\<rparr>]\<rparr>"
    and room: "length (pb_frames b) < pc_history_capacity (pb_config b)"
    and tick: "(if pb_frames b = [] then pb_confirmed_tick b
        else pf_tick (last (pb_frames b))) < tick"
    using run by (auto simp: prediction_buffer_record_def Let_def not_le split: if_splits)
  have sorted: "sorted_wrt (<) (map pf_tick (pb_frames b))"
    using inv by (simp add: prediction_buffer_inv_def)
  then have "sorted_wrt (<) (map pf_tick (pb_frames b @
      [\<lparr>pf_tick = tick, pf_input = input, pf_predicted_state = st\<rparr>]))"
    by (rule sorted_key_snoc) (use tick in auto)
  moreover have "pb_confirmed_tick b < tick"
    using tick inv by (cases "pb_frames b = []")
      (auto simp: prediction_buffer_inv_def intro: less_trans)
  ultimately show ?thesis
    using inv room by (auto simp: b' prediction_buffer_inv_def)
qed

subsection \<open>Replay\<close>

lemma prediction_replay_final:
  "fst (prediction_replay simulate s frames) =
     fold (\<lambda>frame st. simulate st (pf_tick frame) (pf_input frame)) frames s"
  by (induction frames arbitrary: s) (simp_all add: Let_def case_prod_beta)

lemma prediction_replay_frames:
  "map pf_tick (snd (prediction_replay simulate s frames)) = map pf_tick frames"
  "map pf_input (snd (prediction_replay simulate s frames)) = map pf_input frames"
  by (induction frames arbitrary: s) (simp_all add: Let_def case_prod_beta)

lemma prediction_replay_chain:
  "prediction_chain simulate s (snd (prediction_replay simulate s frames)) \<and>
   fst (prediction_replay simulate s frames) =
     prediction_latest s (snd (prediction_replay simulate s frames))"
proof (induction frames arbitrary: s)
  case (Cons frame frames)
  let ?s = "simulate s (pf_tick frame) (pf_input frame)"
  show ?case
    using Cons [of ?s] by (simp add: Let_def case_prod_beta)
qed simp

lemma prediction_replay_exact:
  "prediction_chain simulate s frames \<Longrightarrow>
   prediction_replay simulate s frames = (prediction_latest s frames, frames)"
  by (induction frames arbitrary: s) (auto simp: Let_def)

lemma prediction_chain_append:
  "prediction_chain simulate s (xs @ ys) \<longleftrightarrow>
   prediction_chain simulate s xs \<and> prediction_chain simulate (prediction_latest s xs) ys"
  by (induction xs arbitrary: s) auto

lemma prediction_reconcile_Inr:
  assumes inv: "prediction_buffer_inv b"
    and tick: "pb_confirmed_tick b \<le> t"
    and few: "length (filter (\<lambda>frame. t < pf_tick frame) (pb_frames b)) \<le>
              pc_max_replay_steps (pb_config b)"
  shows "\<exists>report b'. prediction_buffer_reconcile simulate b t st = (Inr report, b')
     \<and> (rr_corrected_state report, pb_frames b') =
         prediction_replay simulate st (filter (\<lambda>frame. t < pf_tick frame) (pb_frames b))
     \<and> pb_confirmed_tick b' = t \<and> pb_config b' = pb_config b
     \<and> rr_authoritative_tick report = t
     \<and> rr_replayed_inputs report = length (pb_frames b')
     \<and> rr_current_tick report = (if pb_frames b' = [] then t else pf_tick (last (pb_frames b')))"
proof -
  define k where "k = length (takeWhile (\<lambda>frame. \<not> t < pf_tick frame) (pb_frames b))"
  have rest: "drop k (pb_frames b) = filter (\<lambda>frame. t < pf_tick frame) (pb_frames b)"
    using inv unfolding k_def prediction_buffer_inv_def by (blast intro: sorted_key_drop)
  have count: "length (pb_frames b) - k \<le> pc_max_replay_steps (pb_config b)"
    using few rest by (metis length_drop)
  obtain c fs where replay: "prediction_replay simulate st (drop k (pb_frames b)) = (c, fs)"
    by fastforce
  have "length fs = length (pb_frames b) - k"
    using prediction_replay_frames(1) [of simulate st "drop k (pb_frames b)"] replay
    by (metis length_drop length_map snd_conv)
  moreover have "\<not> t < pb_confirmed_tick b" "\<not> pc_max_replay_steps (pb_config b) < length (pb_frames b) - k"
    using tick count by auto
  ultimately show ?thesis
    using replay unfolding prediction_buffer_reconcile_def k_def [symmetric] Let_def rest [symmetric]
    by simp
qed

lemma prediction_reconcile_refused:
  assumes "prediction_buffer_inv b"
  shows "t < pb_confirmed_tick b \<Longrightarrow> prediction_buffer_reconcile simulate b t st =
      (Inl (InvalidInput ''authoritative prediction Tick moved backwards''), b)"
    and "\<not> t < pb_confirmed_tick b \<Longrightarrow> pc_max_replay_steps (pb_config b) <
        length (filter (\<lambda>frame. t < pf_tick frame) (pb_frames b)) \<Longrightarrow>
      prediction_buffer_reconcile simulate b t st = (Inl ReplayLimitExceeded, b)"
proof -
  have "length (pb_frames b) - length (takeWhile (\<lambda>frame. \<not> t < pf_tick frame) (pb_frames b)) =
      length (filter (\<lambda>frame. t < pf_tick frame) (pb_frames b))"
    using assms sorted_key_drop [of pf_tick "pb_frames b" t]
    by (metis length_drop prediction_buffer_inv_def)
  then show "\<not> t < pb_confirmed_tick b \<Longrightarrow> pc_max_replay_steps (pb_config b) <
        length (filter (\<lambda>frame. t < pf_tick frame) (pb_frames b)) \<Longrightarrow>
      prediction_buffer_reconcile simulate b t st = (Inl ReplayLimitExceeded, b)"
    by (simp add: prediction_buffer_reconcile_def Let_def)
qed (simp add: prediction_buffer_reconcile_def)

lemma prediction_reconcile_Inl:
  "prediction_buffer_reconcile simulate b t st = (Inl e, b') \<Longrightarrow> b' = b"
  by (auto simp: prediction_buffer_reconcile_def Let_def split: if_splits prod.splits)

lemma prediction_replay_inv:
  assumes inv: "prediction_buffer_inv b"
    and b': "pb_frames b' = snd (prediction_replay simulate st
        (filter (\<lambda>frame. t < pf_tick frame) (pb_frames b)))"
      "pb_confirmed_tick b' = t" "pb_config b' = pb_config b"
  shows "prediction_buffer_inv b'"
proof -
  have ticks: "map pf_tick (pb_frames b') =
      map pf_tick (filter (\<lambda>frame. t < pf_tick frame) (pb_frames b))"
    by (simp add: b' prediction_replay_frames)
  have "sorted_wrt (<) (map pf_tick (pb_frames b'))"
    unfolding ticks using inv
    by (auto simp: prediction_buffer_inv_def sorted_wrt_map sorted_wrt_filter)
  moreover have "t < pf_tick frame" if "frame \<in> set (pb_frames b')" for frame
  proof -
    have "pf_tick frame \<in> set (map pf_tick (pb_frames b'))" using that by simp
    then show ?thesis unfolding ticks by auto
  qed
  moreover have "length (pb_frames b') \<le> length (pb_frames b)"
    using arg_cong [OF ticks, of length] by (simp add: length_filter_le)
  moreover have "length (pb_frames b) \<le> pc_history_capacity (pb_config b)"
    using inv by (simp add: prediction_buffer_inv_def)
  ultimately show ?thesis
    unfolding prediction_buffer_inv_def b'(2,3) by (blast intro: order_trans)
qed

subsection \<open>Properties\<close>

text \<open>C13. Reconciliation of a well-formed buffer, on every branch. It fails with the
  backwards-Tick error exactly when the authoritative Tick is before the confirmed one, and with
  the replay-limit error exactly when more inputs than the limit lie after it; a failure leaves
  the buffer unchanged. Otherwise it returns the authoritative state advanced by every later local
  input in Tick order, keeps exactly those inputs with their Ticks, confirms the Tick and keeps the
  configuration; the remaining history is then again a chain of simulation steps ending in the
  returned state, and the report counts the replayed inputs and names the last Tick.\<close>

theorem prediction_reconcile_correct:
  fixes b :: "('i, 's) prediction_buffer"
  defines "later \<equiv> \<lambda>t. filter (\<lambda>frame. t < pf_tick frame) (pb_frames b)"
  assumes inv: "prediction_buffer_inv b"
  shows "if t < pb_confirmed_tick b
    then prediction_buffer_reconcile simulate b t st =
           (Inl (InvalidInput ''authoritative prediction Tick moved backwards''), b)
    else if pc_max_replay_steps (pb_config b) < length (later t)
    then prediction_buffer_reconcile simulate b t st = (Inl ReplayLimitExceeded, b)
    else \<exists>report b'. prediction_buffer_reconcile simulate b t st = (Inr report, b') \<and>
        rr_corrected_state report =
          fold (\<lambda>frame st. simulate st (pf_tick frame) (pf_input frame)) (later t) st \<and>
        rr_corrected_state report = prediction_latest st (pb_frames b') \<and>
        prediction_chain simulate st (pb_frames b') \<and>
        map pf_tick (pb_frames b') = map pf_tick (later t) \<and>
        map pf_input (pb_frames b') = map pf_input (later t) \<and>
        prediction_buffer_inv b' \<and> pb_confirmed_tick b' = t \<and> pb_config b' = pb_config b \<and>
        rr_authoritative_tick report = t \<and> rr_replayed_inputs report = length (later t) \<and>
        rr_current_tick report = (if later t = [] then t else pf_tick (last (later t)))"
proof (cases "t < pb_confirmed_tick b \<or> pc_max_replay_steps (pb_config b) < length (later t)")
  case True
  then show ?thesis
    using prediction_reconcile_refused [OF inv, of t simulate st] unfolding later_def
    by presburger
next
  case False
  then obtain report b' where run: "prediction_buffer_reconcile simulate b t st = (Inr report, b')"
    and replay: "(rr_corrected_state report, pb_frames b') = prediction_replay simulate st (later t)"
    and fields: "pb_confirmed_tick b' = t" "pb_config b' = pb_config b"
    and report: "rr_authoritative_tick report = t" "rr_replayed_inputs report = length (pb_frames b')"
      "rr_current_tick report = (if pb_frames b' = [] then t else pf_tick (last (pb_frames b')))"
    using prediction_reconcile_Inr [OF inv, of t simulate st] by (auto simp: not_less later_def)
  have frames: "pb_frames b' = snd (prediction_replay simulate st (later t))"
    by (simp add: replay [symmetric])
  then have inv': "prediction_buffer_inv b'"
    unfolding later_def by (rule prediction_replay_inv [OF inv _ fields])
  have kept: "map pf_tick (pb_frames b') = map pf_tick (later t)"
      "map pf_input (pb_frames b') = map pf_input (later t)"
    unfolding frames by (rule prediction_replay_frames)+
  then have "length (pb_frames b') = length (later t)"
      "(if pb_frames b' = [] then t else pf_tick (last (pb_frames b'))) =
       (if later t = [] then t else pf_tick (last (later t)))"
    by (metis length_map) (metis kept(1) last_map map_is_Nil_conv)
  moreover have "prediction_chain simulate st (pb_frames b') \<and>
      rr_corrected_state report = prediction_latest st (pb_frames b')"
    using prediction_replay_chain [of simulate st] by (metis fst_conv replay snd_conv)
  moreover have "rr_corrected_state report =
      fold (\<lambda>frame st. simulate st (pf_tick frame) (pf_input frame)) (later t) st"
    by (metis fst_conv prediction_replay_final replay)
  ultimately show ?thesis
    using False run fields report inv' kept by simp
qed

definition prediction_demo :: "(int, int) prediction_buffer" where
  "prediction_demo = \<lparr>pb_config = prediction_config_default,
     pb_frames = [\<lparr>pf_tick = 3, pf_input = 1, pf_predicted_state = 1\<rparr>,
                  \<lparr>pf_tick = 4, pf_input = 2, pf_predicted_state = 3\<rparr>,
                  \<lparr>pf_tick = 5, pf_input = 4, pf_predicted_state = 7\<rparr>],
     pb_confirmed_tick = 2\<rparr>"

theorem prediction_reconcile_correct_witness:
  "\<exists>report b'. prediction_buffer_reconcile (\<lambda>s t i. s + i) prediction_demo 3 10 = (Inr report, b') \<and>
     rr_corrected_state report = 16 \<and> prediction_chain (\<lambda>s t i. s + i) 10 (pb_frames b')"
proof -
  have inv: "prediction_buffer_inv prediction_demo"
    by code_simp
  have forward: "\<not> 3 < pb_confirmed_tick prediction_demo"
    by code_simp
  have few: "\<not> pc_max_replay_steps (pb_config prediction_demo) <
      length (filter (\<lambda>frame. 3 < pf_tick frame) (pb_frames prediction_demo))"
    by code_simp
  have "fold (\<lambda>frame st. st + pf_input frame)
      (filter (\<lambda>frame. 3 < pf_tick frame) (pb_frames prediction_demo)) 10 = 16"
    by code_simp
  then show ?thesis
    using prediction_reconcile_correct
      [OF inv, where simulate = "\<lambda>s t i. s + i" and t = 3 and st = 10]
    unfolding if_not_P [OF forward] if_not_P [OF few] by metis
qed

text \<open>A correct prediction is never disturbed: when the history is a chain of simulation
  steps and the server confirms exactly the state predicted at one of its Ticks, the
  corrected state is the state already shown, the frames after that Tick are kept as they
  are, and the report returns the confirmed prediction.\<close>

theorem prediction_exact_unchanged:
  assumes inv: "prediction_buffer_inv b"
    and frames: "pb_frames b = earlier @ confirmed # later"
    and chain: "prediction_chain simulate base (pb_frames b)"
    and few: "length later \<le> pc_max_replay_steps (pb_config b)"
  shows "\<exists>report b'. prediction_buffer_reconcile simulate b (pf_tick confirmed)
             (pf_predicted_state confirmed) = (Inr report, b')
    \<and> pb_frames b' = later
    \<and> rr_corrected_state report = pf_predicted_state (last (pb_frames b))
    \<and> rr_predicted_state_at_authoritative_tick report = Some (pf_predicted_state confirmed)"
proof -
  let ?t = "pf_tick confirmed"
  have sorted: "sorted_wrt (<) (map pf_tick (pb_frames b))"
    using inv by (simp add: prediction_buffer_inv_def)
  then have before: "\<forall>f \<in> set earlier. pf_tick f < ?t" and after: "\<forall>f \<in> set later. ?t < pf_tick f"
    by (auto simp: frames sorted_wrt_append)
  have taken: "takeWhile (\<lambda>frame. \<not> ?t < pf_tick frame) (pb_frames b) = earlier @ [confirmed]"
    using before after unfolding frames
    by (subst takeWhile_append2) (cases later; auto)+
  have chain': "prediction_chain simulate (pf_predicted_state confirmed) later"
    using chain by (auto simp: frames prediction_chain_append split: if_splits)
  have conf: "\<not> ?t < pb_confirmed_tick b"
    using inv by (auto simp: frames prediction_buffer_inv_def not_less intro: less_imp_le)
  show ?thesis
    using few conf unfolding prediction_buffer_reconcile_def Let_def taken
    by (simp add: frames prediction_replay_exact [OF chain'] nth_append)
qed

theorem prediction_exact_unchanged_witness:
  "\<exists>report b'. prediction_buffer_reconcile (\<lambda>s t i. s + i) prediction_demo 4 3 = (Inr report, b') \<and>
     rr_corrected_state report = 7"
proof -
  let ?later = "[\<lparr>pf_tick = 5, pf_input = 4, pf_predicted_state = 7\<rparr>] :: (int, int) prediction_frame list"
  have inv: "prediction_buffer_inv prediction_demo"
    by code_simp
  have frames: "pb_frames prediction_demo =
      [\<lparr>pf_tick = 3, pf_input = 1, pf_predicted_state = 1\<rparr>] @
      \<lparr>pf_tick = 4, pf_input = 2, pf_predicted_state = 3\<rparr> # ?later"
    by (simp add: prediction_demo_def)
  have chain: "prediction_chain (\<lambda>s t i. s + i) 0 (pb_frames prediction_demo)"
    by (simp add: prediction_demo_def)
  have few: "length ?later \<le> pc_max_replay_steps (pb_config prediction_demo)"
    by (simp add: prediction_demo_def prediction_config_default_def)
  show ?thesis
    using prediction_exact_unchanged [OF inv frames chain few] by (auto simp: prediction_demo_def)
qed

end
