(* ===== verification/Entity_Prediction.thy ===== *)
theory Entity_Prediction
  imports Sequence_Window
begin

section \<open>Predicted spawns\<close>

text \<open>
  \<open>PredictionKeyGenerator\<close> and \<open>PredictedEntityMatcher\<close> of
  \<open>src/crates/elura-netcode/src/entity_prediction.rs\<close>: the client's registry of locally
  spawned entities that wait for the server to confirm them. The matcher keeps two maps,
  from prediction key to entity and from temporary entity to prediction key; the invariant
  is that each is the inverse of the other.
\<close>

subsection \<open>Data\<close>

datatype prediction_key = PredictionKey (pk_value: u64)

instantiation prediction_key :: linorder
begin

definition less_eq_prediction_key :: "prediction_key \<Rightarrow> prediction_key \<Rightarrow> bool" where
  "less_eq_prediction_key a b \<longleftrightarrow> pk_value a \<le> pk_value b"

definition less_prediction_key :: "prediction_key \<Rightarrow> prediction_key \<Rightarrow> bool" where
  "less_prediction_key a b \<longleftrightarrow> pk_value a < pk_value b"

instance
  by standard
    (auto simp: less_eq_prediction_key_def less_prediction_key_def prediction_key.expand)

end

record prediction_key_generator =
  pkg_next :: u64

record predicted_entity_config =
  pec_capacity :: usize
  pec_timeout_ticks :: u64

record 'i predicted_entity =
  pe_key :: prediction_key
  pe_temporary_entity :: 'i
  pe_spawned_tick :: u64

record 'i entity_match =
  em_key :: prediction_key
  em_temporary_entity :: 'i
  em_authoritative_entity :: 'i
  em_age_ticks :: u64

record 'i predicted_entity_matcher =
  pem_config :: predicted_entity_config
  pem_pending :: "(prediction_key \<times> 'i predicted_entity) list"
  pem_temporary :: "('i \<times> prediction_key) list"

subsection \<open>Operations\<close>

definition prediction_key_generator_default :: prediction_key_generator where
  "prediction_key_generator_default = \<lparr>pkg_next = 1\<rparr>"

definition prediction_key_generator_with_next ::
    "u64 \<Rightarrow> netcode_error + prediction_key_generator" where
  "prediction_key_generator_with_next n =
     (if n = 0 then Inl (InvalidConfig ''next prediction key must be positive'')
      else Inr \<lparr>pkg_next = n\<rparr>)"

definition prediction_key_generator_generate ::
    "prediction_key_generator \<Rightarrow>
     (netcode_error + prediction_key) \<times> prediction_key_generator" where
  "prediction_key_generator_generate g =
     (let key = pkg_next g
      in case checked_add (pkg_next g) 1 of
           None \<Rightarrow> (Inl SequenceExhausted, g)
         | Some n \<Rightarrow> (Inr (PredictionKey key), g\<lparr>pkg_next := n\<rparr>))"

definition predicted_entity_config_default :: predicted_entity_config where
  "predicted_entity_config_default = \<lparr>pec_capacity = 128, pec_timeout_ticks = 120\<rparr>"

definition predicted_entity_config_validate ::
    "predicted_entity_config \<Rightarrow> netcode_error + unit" where
  "predicted_entity_config_validate c =
     (if pec_capacity c = 0 \<or> pec_timeout_ticks c = 0
      then Inl (InvalidConfig ''predicted entity limits must be positive'')
      else Inr ())"

definition predicted_entity_matcher_new ::
    "predicted_entity_config \<Rightarrow> netcode_error + 'i predicted_entity_matcher" where
  "predicted_entity_matcher_new config =
     (case predicted_entity_config_validate config of
        Inl e \<Rightarrow> Inl e
      | Inr _ \<Rightarrow> Inr \<lparr>pem_config = config, pem_pending = [], pem_temporary = []\<rparr>)"

definition predicted_entity_matcher_register ::
    "'i::linorder predicted_entity_matcher \<Rightarrow> prediction_key \<Rightarrow> 'i \<Rightarrow> u64 \<Rightarrow>
     (netcode_error + unit) \<times> 'i predicted_entity_matcher" where
  "predicted_entity_matcher_register m key temporary_entity spawned_tick =
     (if pk_value key = 0 \<or> spawned_tick = 0
      then (Inl (InvalidInput ''prediction key and spawn Tick must be positive''), m)
      else if contains_key (pem_pending m) key \<or> contains_key (pem_temporary m) temporary_entity
      then (Inl (InvalidInput ''prediction key or temporary entity is already registered''), m)
      else if pec_capacity (pem_config m) \<le> length (pem_pending m)
      then (Inl PredictedEntityLimit, m)
      else (Inr (),
            m\<lparr>pem_temporary := bt_insert temporary_entity key (pem_temporary m),
              pem_pending := bt_insert key
                \<lparr>pe_key = key, pe_temporary_entity = temporary_entity,
                 pe_spawned_tick = spawned_tick\<rparr> (pem_pending m)\<rparr>))"

definition predicted_entity_matcher_resolve ::
    "'i::linorder predicted_entity_matcher \<Rightarrow> prediction_key \<Rightarrow> 'i \<Rightarrow> u64 \<Rightarrow>
     (netcode_error + 'i entity_match option) \<times> 'i predicted_entity_matcher" where
  "predicted_entity_matcher_resolve m key authoritative_entity current_tick =
     (case map_of (pem_pending m) key of
        None \<Rightarrow> (Inr None, m)
      | Some predicted \<Rightarrow>
          if current_tick < pe_spawned_tick predicted
          then (Inl (InvalidInput ''authoritative match Tick precedes predicted spawn''), m)
          else
            (let m' = m\<lparr>pem_pending := map_remove key (pem_pending m),
                        pem_temporary :=
                          map_remove (pe_temporary_entity predicted) (pem_temporary m)\<rparr>
             in if pec_timeout_ticks (pem_config m) < current_tick - pe_spawned_tick predicted
                then (Inr None, m')
                else (Inr (Some \<lparr>em_key = key,
                                 em_temporary_entity = pe_temporary_entity predicted,
                                 em_authoritative_entity = authoritative_entity,
                                 em_age_ticks = current_tick - pe_spawned_tick predicted\<rparr>), m')))"

text \<open>The \<open>filter_map\<close> over the expired keys, which removes as it goes.\<close>

fun predicted_entity_matcher_take ::
    "prediction_key list \<Rightarrow> 'i predicted_entity_matcher \<Rightarrow>
     'i predicted_entity list \<times> 'i predicted_entity_matcher" where
  "predicted_entity_matcher_take [] m = ([], m)"
| "predicted_entity_matcher_take (key # keys) m =
     (case map_of (pem_pending m) key of
        None \<Rightarrow> predicted_entity_matcher_take keys m
      | Some predicted \<Rightarrow>
          (let m' = m\<lparr>pem_pending := map_remove key (pem_pending m),
                      pem_temporary :=
                        map_remove (pe_temporary_entity predicted) (pem_temporary m)\<rparr>;
               (expired, m'') = predicted_entity_matcher_take keys m'
           in (predicted # expired, m'')))"

definition predicted_entity_matcher_expire ::
    "'i predicted_entity_matcher \<Rightarrow> u64 \<Rightarrow>
     'i predicted_entity list \<times> 'i predicted_entity_matcher" where
  "predicted_entity_matcher_expire m current_tick =
     predicted_entity_matcher_take
       (map fst (filter (\<lambda>(key, predicted).
          pec_timeout_ticks (pem_config m) < sat_sub current_tick (pe_spawned_tick predicted))
          (pem_pending m))) m"

definition predicted_entity_matcher_len :: "'i predicted_entity_matcher \<Rightarrow> usize" where
  "predicted_entity_matcher_len m = length (pem_pending m)"

definition predicted_entity_matcher_get ::
    "'i predicted_entity_matcher \<Rightarrow> prediction_key \<Rightarrow> 'i predicted_entity option" where
  "predicted_entity_matcher_get m key = map_of (pem_pending m) key"

definition predicted_entity_matcher_clear ::
    "'i predicted_entity_matcher \<Rightarrow> 'i predicted_entity_matcher" where
  "predicted_entity_matcher_clear m = m\<lparr>pem_pending := [], pem_temporary := []\<rparr>"

subsection \<open>Invariant\<close>

definition matcher_inv :: "'i::linorder predicted_entity_matcher \<Rightarrow> bool" where
  "matcher_inv m \<longleftrightarrow>
     bt_wf (pem_pending m) \<and> bt_wf (pem_temporary m) \<and>
     length (pem_pending m) \<le> pec_capacity (pem_config m) \<and>
     (\<forall>key p. map_of (pem_pending m) key = Some p \<longrightarrow>
        pe_key p = key \<and> map_of (pem_temporary m) (pe_temporary_entity p) = Some key) \<and>
     (\<forall>e key. map_of (pem_temporary m) e = Some key \<longrightarrow>
        (\<exists>p. map_of (pem_pending m) key = Some p \<and> pe_temporary_entity p = e))"

lemma matcher_inv_remove:
  assumes inv: "matcher_inv m" and get: "map_of (pem_pending m) key = Some p"
  shows "matcher_inv (m\<lparr>pem_pending := map_remove key (pem_pending m),
           pem_temporary := map_remove (pe_temporary_entity p) (pem_temporary m)\<rparr>)"
proof -
  have wf: "bt_wf (pem_pending m)" "bt_wf (pem_temporary m)"
    using inv by (auto simp: matcher_inv_def)
  have "length (map_remove key (pem_pending m)) \<le> pec_capacity (pem_config m)"
    using inv by (auto simp: matcher_inv_def bt.length_remove)
  moreover have "pe_temporary_entity q \<noteq> pe_temporary_entity p"
    if "map_of (pem_pending m) k = Some q" "k \<noteq> key" for k q
    using inv get that unfolding matcher_inv_def by (metis option.inject)
  moreover have "k \<noteq> key"
    if "map_of (pem_temporary m) e = Some k" "e \<noteq> pe_temporary_entity p" for e k
    using inv get that unfolding matcher_inv_def by (metis option.inject)
  ultimately show ?thesis
    using inv wf unfolding matcher_inv_def
    by (auto simp: bt.wf_remove map_of_remove)
qed

lemma matcher_register_inv:
  assumes inv: "matcher_inv m"
    and run: "predicted_entity_matcher_register m key e tick = (res, m')"
  shows "matcher_inv m'"
proof (cases res)
  case (Inl err)
  with inv run show ?thesis
    by (auto simp: predicted_entity_matcher_register_def split: if_splits)
next
  case (Inr u)
  let ?p = "\<lparr>pe_key = key, pe_temporary_entity = e, pe_spawned_tick = tick\<rparr>"
  have m': "m' = m\<lparr>pem_temporary := bt_insert e key (pem_temporary m),
        pem_pending := bt_insert key ?p (pem_pending m)\<rparr>"
    and new: "map_of (pem_pending m) key = None" "map_of (pem_temporary m) e = None"
    and room: "length (pem_pending m) < pec_capacity (pem_config m)"
    using run Inr by (auto simp: predicted_entity_matcher_register_def contains_key_def
        split: if_splits)
  have wf: "bt_wf (pem_pending m)" "bt_wf (pem_temporary m)"
    using inv by (auto simp: matcher_inv_def)
  show ?thesis
    using inv new room wf unfolding matcher_inv_def m'
    by (auto simp: bt.wf_insert bt.get_insert bt.length_insert) (metis option.distinct(1))
qed

lemma matcher_resolve_inv:
  assumes inv: "matcher_inv m"
    and run: "predicted_entity_matcher_resolve m key e tick = (res, m')"
  shows "matcher_inv m'"
proof (cases "map_of (pem_pending m) key")
  case None
  with inv run show ?thesis by (simp add: predicted_entity_matcher_resolve_def)
next
  case (Some p)
  with run have "m' = m \<or> m' = m\<lparr>pem_pending := map_remove key (pem_pending m),
      pem_temporary := map_remove (pe_temporary_entity p) (pem_temporary m)\<rparr>"
    by (auto simp: predicted_entity_matcher_resolve_def Let_def split: if_splits)
  with inv matcher_inv_remove [OF inv Some] show ?thesis by auto
qed

lemma matcher_take_spec:
  assumes "matcher_inv m" and "distinct keys" and "set keys \<subseteq> dom (map_of (pem_pending m))"
    and "predicted_entity_matcher_take keys m = (expired, m')"
  shows "matcher_inv m' \<and> expired = map (the \<circ> map_of (pem_pending m)) keys \<and>
         pem_pending m' = filter (\<lambda>p. fst p \<notin> set keys) (pem_pending m) \<and>
         pem_config m' = pem_config m"
  using assms
proof (induction keys arbitrary: m expired)
  case (Cons key keys)
  obtain p where p: "map_of (pem_pending m) key = Some p"
    using Cons.prems(3) by auto
  let ?m = "m\<lparr>pem_pending := map_remove key (pem_pending m),
      pem_temporary := map_remove (pe_temporary_entity p) (pem_temporary m)\<rparr>"
  obtain rest where rest: "predicted_entity_matcher_take keys ?m = (rest, m')"
    and expired: "expired = p # rest"
    using Cons.prems(4) p by (auto simp: Let_def split: prod.splits)
  have get: "map_of (pem_pending ?m) k = map_of (pem_pending m) k" if "k \<in> set keys" for k
    using that Cons.prems(2) by (auto simp: map_of_remove)
  have "matcher_inv m' \<and> rest = map (the \<circ> map_of (pem_pending ?m)) keys \<and>
      pem_pending m' = filter (\<lambda>p. fst p \<notin> set keys) (pem_pending ?m) \<and>
      pem_config m' = pem_config ?m"
    using Cons.prems get
    by (intro Cons.IH [OF matcher_inv_remove [OF Cons.prems(1) p] _ _ rest])
      (auto simp: map_of_remove)
  moreover have "map (the \<circ> map_of (pem_pending ?m)) keys = map (the \<circ> map_of (pem_pending m)) keys"
    using get by simp
  moreover have "filter (\<lambda>p. fst p \<notin> set keys) (pem_pending ?m) =
      filter (\<lambda>p. fst p \<notin> set (key # keys)) (pem_pending m)"
    by (auto simp: map_remove_def intro!: filter_cong)
  ultimately show ?case
    using p expired by simp
qed simp

subsection \<open>Properties\<close>

text \<open>C16. A predicted spawn resolves to its own temporary entity: after \<open>register\<close>, a
  \<open>resolve\<close> with the same key within the timeout returns exactly the registered temporary
  entity with its age and restores both maps of the matcher to what they were before, so the
  same authoritative spawn cannot be matched again.\<close>

theorem matcher_register_resolve_roundtrip:
  assumes inv: "matcher_inv m"
    and reg: "predicted_entity_matcher_register m key e spawned = (Inr (), m1)"
    and tick: "spawned \<le> now" "now - spawned \<le> pec_timeout_ticks (pem_config m)"
  shows "predicted_entity_matcher_resolve m1 key a now =
      (Inr (Some \<lparr>em_key = key, em_temporary_entity = e, em_authoritative_entity = a,
                  em_age_ticks = now - spawned\<rparr>), m)
    \<and> predicted_entity_matcher_resolve m key a' now' = (Inr None, m)"
proof -
  let ?p = "\<lparr>pe_key = key, pe_temporary_entity = e, pe_spawned_tick = spawned\<rparr>"
  have m1: "m1 = m\<lparr>pem_temporary := bt_insert e key (pem_temporary m),
        pem_pending := bt_insert key ?p (pem_pending m)\<rparr>"
    and new: "map_of (pem_pending m) key = None" "map_of (pem_temporary m) e = None"
    using reg by (auto simp: predicted_entity_matcher_register_def contains_key_def
        split: if_splits)
  have wf: "bt_wf (pem_pending m)" "bt_wf (pem_temporary m)"
    using inv by (auto simp: matcher_inv_def)
  have "map_remove key (bt_insert key ?p (pem_pending m)) = pem_pending m"
    using wf new by (intro bt_map_eqI) (auto simp: bt.map_laws)
  moreover have "map_remove e (bt_insert e key (pem_temporary m)) = pem_temporary m"
    using wf new by (intro bt_map_eqI) (auto simp: bt.map_laws)
  ultimately show ?thesis
    using tick wf new
    by (simp add: m1 predicted_entity_matcher_resolve_def bt.get_insert Let_def not_less)
qed

definition matcher_demo :: "nat predicted_entity_matcher" where
  "matcher_demo = \<lparr>pem_config = predicted_entity_config_default,
     pem_pending = [(PredictionKey 1, \<lparr>pe_key = PredictionKey 1, pe_temporary_entity = 7,
       pe_spawned_tick = 3\<rparr>)], pem_temporary = [(7, PredictionKey 1)]\<rparr>"

lemma matcher_demo_inv: "matcher_inv matcher_demo"
  by (auto simp: matcher_inv_def matcher_demo_def bt_wf_def predicted_entity_config_default_def)

theorem matcher_register_resolve_roundtrip_witness:
  "\<exists>m1. predicted_entity_matcher_register matcher_demo (PredictionKey 2) 9 5 = (Inr (), m1) \<and>
     predicted_entity_matcher_resolve m1 (PredictionKey 2) 100 8 =
      (Inr (Some \<lparr>em_key = PredictionKey 2, em_temporary_entity = 9,
                  em_authoritative_entity = 100, em_age_ticks = 3\<rparr>), matcher_demo)"
proof -
  obtain m1 where reg:
    "predicted_entity_matcher_register matcher_demo (PredictionKey 2) 9 5 = (Inr (), m1)"
    by (simp add: predicted_entity_matcher_register_def matcher_demo_def contains_key_def
        predicted_entity_config_default_def)
  have tick: "(5 :: u64) \<le> 8" "8 - 5 \<le> pec_timeout_ticks (pem_config matcher_demo)"
    by (simp_all add: matcher_demo_def predicted_entity_config_default_def)
  show ?thesis
    using matcher_register_resolve_roundtrip [OF matcher_demo_inv reg tick] reg by auto
qed

text \<open>\<open>expire\<close> removes exactly the overdue predictions: it returns, in key order, the
  pending predictions older than the timeout and keeps every other one, and the two maps of
  the matcher stay inverse to each other.\<close>

theorem matcher_expire_exact:
  assumes inv: "matcher_inv m"
    and run: "predicted_entity_matcher_expire m now = (expired, m')"
  shows "expired = map snd (filter (\<lambda>(_, p).
           pec_timeout_ticks (pem_config m) < sat_sub now (pe_spawned_tick p)) (pem_pending m))
    \<and> pem_pending m' = filter (\<lambda>(_, p).
           \<not> pec_timeout_ticks (pem_config m) < sat_sub now (pe_spawned_tick p)) (pem_pending m)
    \<and> matcher_inv m'"
proof -
  define late where "late = (\<lambda>p :: 'a predicted_entity.
    pec_timeout_ticks (pem_config m) < sat_sub now (pe_spawned_tick p))"
  let ?overdue = "filter (\<lambda>(_, p). late p) (pem_pending m)"
  have dist: "distinct (map fst (pem_pending m))"
    using inv by (simp add: matcher_inv_def bt.wf_distinct)
  have get: "map_of (pem_pending m) (fst p) = Some (snd p)" if "p \<in> set (pem_pending m)" for p
    using dist that by simp
  have sub: "set (map fst ?overdue) \<subseteq> dom (map_of (pem_pending m))"
    using get by (auto simp: domIff)
  have take: "predicted_entity_matcher_take (map fst ?overdue) m = (expired, m')"
    using run by (simp add: predicted_entity_matcher_expire_def late_def)
  note spec = matcher_take_spec [OF inv distinct_keys_filter [OF dist] sub take]
  have "map (the \<circ> map_of (pem_pending m)) (map fst ?overdue) = map snd ?overdue"
    using get by (auto simp: map_eq_conv)
  moreover have "filter (\<lambda>p. fst p \<notin> set (map fst ?overdue)) (pem_pending m) =
      filter (\<lambda>(_, p). \<not> late p) (pem_pending m)"
  proof (rule filter_cong [OF refl])
    fix p assume p: "p \<in> set (pem_pending m)"
    have same: "q = p" if "q \<in> set ?overdue" "fst q = fst p" for q
      using get [of q] get [OF p] that by (auto intro: prod_eqI)
    have "fst p \<in> set (map fst ?overdue) \<longleftrightarrow> p \<in> set ?overdue"
    proof
      assume "fst p \<in> set (map fst ?overdue)"
      then obtain q where "q \<in> set ?overdue" and "fst p = fst q"
        unfolding set_map by (rule imageE) simp
      with same [of q] show "p \<in> set ?overdue" by simp
    qed simp
    with p show "fst p \<notin> set (map fst ?overdue) \<longleftrightarrow> (case p of (_, p) \<Rightarrow> \<not> late p)"
      by auto
  qed
  ultimately show ?thesis
    using spec by (simp add: late_def)
qed

theorem matcher_expire_exact_witness:
  "map pe_temporary_entity (fst (predicted_entity_matcher_expire matcher_demo 124)) = [7]"
  using matcher_expire_exact [OF matcher_demo_inv prod.collapse [symmetric], of 124]
  by (auto simp: matcher_demo_def predicted_entity_config_default_def sat_sub_def)

end
