(* ===== verification/Replication.thy ===== *)
theory Replication
  imports Entity_Prediction
begin

section \<open>Entity replication\<close>

text \<open>
  The crate \<open>src/crates/elura-replication\<close>: \<open>ReplicationSender\<close> turns the set of
  entities one observer can see into numbered batches of spawn, despawn, update and keyframe
  events, and \<open>ReplicationReceiver\<close> buffers reordered batches and applies the contiguous
  ones. The application's delta encoder and decoder are arguments.

  The second half gives the meaning of a batch on an abstract world, a partial map from
  entities to states, and shows that the receiver's staging of changes computes it.
\<close>

subsection \<open>Data\<close>

datatype replication_error =
    ReplInvalidConfig string
  | ReplInvalidOrder string
  | ReplInvalidPacket string
  | ReplHistoryFull
  | ReplSequenceExhausted
  | ReplInvalidAcknowledgement
  | ReplEntityLimitExceeded
  | ReplVersionRegression
  | ReplBaselineMismatch
  | ReplDeltaRejected

record replication_config =
  rc_history_capacity :: usize
  rc_redundancy :: usize
  rc_max_events_per_batch :: usize
  rc_max_entities :: usize
  rc_reorder_window :: u64

record 's versioned_state =
  vs_version :: u64
  vs_prediction_key :: "prediction_key option"
  vs_state :: 's

datatype ('i, 's, 'd) replication_event =
    Spawn 'i u64 "prediction_key option" 's
  | Despawn 'i
  | Update 'i u64 u64 'd
  | Keyframe 'i u64 "prediction_key option" 's

record ('i, 's, 'd) replication_batch =
  rb_sequence :: u64
  rb_tick :: u64
  rb_events :: "('i, 's, 'd) replication_event list"

record ('i, 's, 'd) replication_packet =
  rp_batches :: "('i, 's, 'd) replication_batch list"

record replication_ack =
  ra_acknowledged_sequence :: u64
  ra_applied_tick :: u64

record ('i, 's, 'd) replication_sender =
  rs_config :: replication_config
  rs_next_sequence :: u64
  rs_acknowledged_sequence :: u64
  rs_last_tick :: u64
  rs_projected :: "('i \<times> 's versioned_state) list"
  rs_pending :: "('i, 's, 'd) replication_batch list"
  rs_force_keyframes :: bool

record replication_receive_report =
  rrr_applied_batches :: usize
  rrr_applied_events :: usize
  rrr_duplicate_batches :: usize
  rrr_acknowledgement :: replication_ack

record ('i, 's, 'd) replication_receiver =
  rv_config :: replication_config
  rv_sequences :: sequence_window
  rv_pending :: "(u64 \<times> ('i, 's, 'd) replication_batch) list"
  rv_entities :: "('i \<times> 's versioned_state) list"
  rv_applied_tick :: u64

subsection \<open>Protocol\<close>

definition replication_config_default :: replication_config where
  "replication_config_default =
     \<lparr>rc_history_capacity = 64, rc_redundancy = 3, rc_max_events_per_batch = 256,
      rc_max_entities = 4096, rc_reorder_window = 256\<rparr>"

definition replication_config_validate :: "replication_config \<Rightarrow> replication_error + unit" where
  "replication_config_validate c =
     (if rc_history_capacity c = 0
      then Inl (ReplInvalidConfig ''batch history capacity must be positive'')
      else if rc_redundancy c = 0 \<or> rc_history_capacity c < rc_redundancy c
      then Inl (ReplInvalidConfig ''batch redundancy must be within history capacity'')
      else if rc_max_events_per_batch c = 0
      then Inl (ReplInvalidConfig ''maximum events per batch must be positive'')
      else if rc_max_entities c = 0
      then Inl (ReplInvalidConfig ''maximum replicated entities must be positive'')
      else if rc_reorder_window c = 0
      then Inl (ReplInvalidConfig ''batch reorder window must be positive'')
      else if (case u64_try_from (rc_history_capacity c) of
                 None \<Rightarrow> True
               | Some history \<Rightarrow> rc_reorder_window c < history)
      then Inl (ReplInvalidConfig ''batch reorder window must cover sender history'')
      else Inr ())"

definition replication_event_entity :: "('i, 's, 'd) replication_event \<Rightarrow> 'i" where
  "replication_event_entity event =
     (case event of
        Spawn entity _ _ _ \<Rightarrow> entity
      | Despawn entity \<Rightarrow> entity
      | Update entity _ _ _ \<Rightarrow> entity
      | Keyframe entity _ _ _ \<Rightarrow> entity)"

subsection \<open>The sender\<close>

definition replication_sender_new ::
    "replication_config \<Rightarrow> replication_error + ('i, 's, 'd) replication_sender" where
  "replication_sender_new config =
     (case replication_config_validate config of
        Inl e \<Rightarrow> Inl e
      | Inr _ \<Rightarrow> Inr \<lparr>rs_config = config, rs_next_sequence = 1, rs_acknowledged_sequence = 0,
                     rs_last_tick = 0, rs_projected = [], rs_pending = [],
                     rs_force_keyframes = False\<rparr>)"

text \<open>Collecting the visible entities into a map, which refuses an entity given twice.\<close>

fun replication_desired ::
    "('i::linorder \<times> 's versioned_state) list \<Rightarrow> ('i \<times> 's versioned_state) list \<Rightarrow>
     replication_error + ('i \<times> 's versioned_state) list" where
  "replication_desired [] desired = Inr desired"
| "replication_desired ((entity, state) # visible) desired =
     (if contains_key desired entity
      then Inl (ReplInvalidPacket ''visible state contains a duplicate entity'')
      else replication_desired visible (bt_insert entity state desired))"

text \<open>The two loops that produce the events of an update.\<close>

definition replication_despawns ::
    "('i \<times> 's versioned_state) list \<Rightarrow> ('i \<times> 's versioned_state) list \<Rightarrow>
     ('i, 's, 'd) replication_event list" where
  "replication_despawns projected desired =
     map Despawn (filter (\<lambda>entity. \<not> contains_key desired entity) (map fst projected))"

fun replication_changes ::
    "('i \<Rightarrow> 's versioned_state \<Rightarrow> 's versioned_state \<Rightarrow> 'd option) \<Rightarrow> bool \<Rightarrow>
     ('i \<times> 's versioned_state) list \<Rightarrow> ('i \<times> 's versioned_state) list \<Rightarrow>
     replication_error + ('i, 's, 'd) replication_event list" where
  "replication_changes delta force projected [] = Inr []"
| "replication_changes delta force projected ((entity, current) # desired) =
     (let rest = replication_changes delta force projected desired;
          keyframe = Keyframe entity (vs_version current) (vs_prediction_key current)
                       (vs_state current)
      in case map_of projected entity of
           None \<Rightarrow>
             map_sum id ((#) (Spawn entity (vs_version current) (vs_prediction_key current)
                                (vs_state current))) rest
         | Some previous \<Rightarrow>
             if vs_version current < vs_version previous then Inl ReplVersionRegression
             else if force then map_sum id ((#) keyframe) rest
             else if vs_version current \<noteq> vs_version previous
             then (case delta entity previous current of
                     Some encoded \<Rightarrow>
                       map_sum id ((#) (Update entity (vs_version previous) (vs_version current)
                                          encoded)) rest
                   | None \<Rightarrow> map_sum id ((#) keyframe) rest)
             else rest)"

definition div_ceil :: "nat \<Rightarrow> nat \<Rightarrow> nat" where
  "div_ceil a b = (a + b - 1) div b"

text \<open>The loop that cuts the events into numbered batches.\<close>

primrec replication_batches ::
    "nat \<Rightarrow> u64 \<Rightarrow> u64 \<Rightarrow> usize \<Rightarrow> ('i, 's, 'd) replication_event list \<Rightarrow>
     ('i, 's, 'd) replication_batch list" where
  "replication_batches 0 sequence tick max_events events = []"
| "replication_batches (Suc n) sequence tick max_events events =
     \<lparr>rb_sequence = sequence, rb_tick = tick, rb_events = take max_events events\<rparr> #
     replication_batches n (sequence + 1) tick max_events (drop max_events events)"

definition replication_sender_update ::
    "('i::linorder \<Rightarrow> 's versioned_state \<Rightarrow> 's versioned_state \<Rightarrow> 'd option) \<Rightarrow>
     ('i, 's, 'd) replication_sender \<Rightarrow> u64 \<Rightarrow> ('i \<times> 's versioned_state) list \<Rightarrow>
     (replication_error + usize) \<times> ('i, 's, 'd) replication_sender" where
  "replication_sender_update delta s tick visible =
     (if tick = 0 \<or> tick \<le> rs_last_tick s
      then (Inl (ReplInvalidOrder ''update Tick must increase and be positive''), s)
      else
        (case replication_desired visible [] of
           Inl e \<Rightarrow> (Inl e, s)
         | Inr desired \<Rightarrow>
             if rc_max_entities (rs_config s) < length desired
             then (Inl ReplEntityLimitExceeded, s)
             else
               (case replication_changes delta (rs_force_keyframes s) (rs_projected s) desired of
                  Inl e \<Rightarrow> (Inl e, s)
                | Inr changes \<Rightarrow>
                    (let events = replication_despawns (rs_projected s) desired @ changes;
                         batch_count =
                           div_ceil (length events) (rc_max_events_per_batch (rs_config s))
                     in if rc_history_capacity (rs_config s) <
                           usize_sat_add (length (rs_pending s)) batch_count
                        then (Inl ReplHistoryFull, s)
                        else
                          (case Option.bind (u64_try_from batch_count)
                                  (checked_add (rs_next_sequence s)) of
                             None \<Rightarrow> (Inl ReplSequenceExhausted, s)
                           | Some next_sequence \<Rightarrow>
                               (Inr batch_count,
                                s\<lparr>rs_pending := rs_pending s @
                                    replication_batches batch_count (rs_next_sequence s) tick
                                      (rc_max_events_per_batch (rs_config s)) events,
                                  rs_next_sequence := next_sequence,
                                  rs_last_tick := tick,
                                  rs_projected := desired,
                                  rs_force_keyframes := False\<rparr>))))))"

definition replication_sender_acknowledge ::
    "('i, 's, 'd) replication_sender \<Rightarrow> replication_ack \<Rightarrow>
     (replication_error + usize) \<times> ('i, 's, 'd) replication_sender" where
  "replication_sender_acknowledge s acknowledgement =
     (let last_issued = rs_next_sequence s - 1
      in if last_issued < ra_acknowledged_sequence acknowledgement
         then (Inl ReplInvalidAcknowledgement, s)
         else if ra_acknowledged_sequence acknowledgement \<le> rs_acknowledged_sequence s
         then (Inr 0, s)
         else
           (case find (\<lambda>batch. rb_sequence batch = ra_acknowledged_sequence acknowledgement)
                   (rs_pending s) of
              None \<Rightarrow> (Inl ReplInvalidAcknowledgement, s)
            | Some batch \<Rightarrow>
                if rb_tick batch \<noteq> ra_applied_tick acknowledgement
                then (Inl ReplInvalidAcknowledgement, s)
                else
                  (let s = s\<lparr>rs_acknowledged_sequence :=
                              ra_acknowledged_sequence acknowledgement\<rparr>;
                       before = length (rs_pending s);
                       pending = dropWhile
                         (\<lambda>batch. rb_sequence batch \<le> rs_acknowledged_sequence s) (rs_pending s)
                   in (Inr (before - length pending), s\<lparr>rs_pending := pending\<rparr>))))"

definition replication_sender_force_keyframes ::
    "('i, 's, 'd) replication_sender \<Rightarrow> ('i, 's, 'd) replication_sender" where
  "replication_sender_force_keyframes s = s\<lparr>rs_force_keyframes := True\<rparr>"

definition replication_sender_reset ::
    "('i, 's, 'd) replication_sender \<Rightarrow> ('i, 's, 'd) replication_sender" where
  "replication_sender_reset s =
     s\<lparr>rs_next_sequence := 1, rs_acknowledged_sequence := 0, rs_last_tick := 0,
       rs_projected := [], rs_pending := [], rs_force_keyframes := False\<rparr>"

definition replication_sender_packet ::
    "('i, 's, 'd) replication_sender \<Rightarrow> ('i, 's, 'd) replication_packet" where
  "replication_sender_packet s =
     (if length (rs_pending s) \<le> rc_redundancy (rs_config s)
      then \<lparr>rp_batches = rs_pending s\<rparr>
      else
        (let newest = rc_redundancy (rs_config s) - 1;
             selected = fold bs_insert
               [length (rs_pending s) - newest ..< length (rs_pending s)] (bs_insert 0 [])
         in \<lparr>rp_batches = List.map_filter (\<lambda>index.
               if index < length (rs_pending s) then Some (rs_pending s ! index) else None)
               selected\<rparr>))"

subsection \<open>The receiver\<close>

definition replication_receiver_new ::
    "replication_config \<Rightarrow> replication_error + ('i, 's, 'd) replication_receiver" where
  "replication_receiver_new config =
     (case replication_config_validate config of
        Inl e \<Rightarrow> Inl e
      | Inr _ \<Rightarrow>
          (case sequence_window_new (rc_reorder_window config) of
             Inl _ \<Rightarrow> Inl (ReplInvalidConfig ''batch reorder window must be positive'')
           | Inr sequences \<Rightarrow>
               Inr \<lparr>rv_config = config, rv_sequences = sequences, rv_pending = [],
                    rv_entities = [], rv_applied_tick = 0\<rparr>))"

definition staged_entity ::
    "('i \<times> 's versioned_state) list \<Rightarrow> ('i \<times> 's versioned_state option) list \<Rightarrow> 'i \<Rightarrow>
     's versioned_state option" where
  "staged_entity entities changes entity =
     (case map_of changes entity of
        None \<Rightarrow> map_of entities entity
      | Some change \<Rightarrow> change)"

text \<open>One event of \<open>stage_batch\<close>, on the staged changes and the entity count.\<close>

definition stage_event ::
    "('i::linorder \<Rightarrow> 's \<Rightarrow> 'd \<Rightarrow> 's option) \<Rightarrow> usize \<Rightarrow> ('i \<times> 's versioned_state) list \<Rightarrow>
     ('i, 's, 'd) replication_event \<Rightarrow> ('i \<times> 's versioned_state option) list \<times> usize \<Rightarrow>
     replication_error + ('i \<times> 's versioned_state option) list \<times> usize" where
  "stage_event apply_delta max_entities entities event st =
     (case st of (changes, entity_count) \<Rightarrow>
      (case event of
         Spawn entity version prediction_key state \<Rightarrow>
           if staged_entity entities changes entity \<noteq> None \<or> max_entities \<le> entity_count
           then Inl (if staged_entity entities changes entity \<noteq> None
                     then ReplInvalidPacket ''spawned entity already exists''
                     else ReplEntityLimitExceeded)
           else Inr (bt_insert entity (Some \<lparr>vs_version = version,
                       vs_prediction_key = prediction_key, vs_state = state\<rparr>) changes,
                     entity_count + 1)
       | Despawn entity \<Rightarrow>
           if staged_entity entities changes entity = None
           then Inl (ReplInvalidPacket ''despawned entity does not exist'')
           else Inr (bt_insert entity None changes, entity_count - 1)
       | Update entity base_version version delta \<Rightarrow>
           (case staged_entity entities changes entity of
              None \<Rightarrow> Inl ReplBaselineMismatch
            | Some current \<Rightarrow>
                if vs_version current \<noteq> base_version \<or> version \<le> base_version
                then Inl ReplBaselineMismatch
                else
                  (case apply_delta entity (vs_state current) delta of
                     None \<Rightarrow> Inl ReplDeltaRejected
                   | Some state \<Rightarrow>
                       Inr (bt_insert entity (Some \<lparr>vs_version = version,
                              vs_prediction_key = vs_prediction_key current,
                              vs_state = state\<rparr>) changes, entity_count)))
       | Keyframe entity version prediction_key state \<Rightarrow>
           (let existed = staged_entity entities changes entity \<noteq> None
            in if \<not> existed \<and> max_entities \<le> entity_count
               then Inl ReplEntityLimitExceeded
               else Inr (bt_insert entity (Some \<lparr>vs_version = version,
                           vs_prediction_key = prediction_key, vs_state = state\<rparr>) changes,
                         if existed then entity_count else entity_count + 1))))"

fun stage_events ::
    "('i::linorder \<Rightarrow> 's \<Rightarrow> 'd \<Rightarrow> 's option) \<Rightarrow> usize \<Rightarrow> ('i \<times> 's versioned_state) list \<Rightarrow>
     ('i, 's, 'd) replication_event list \<Rightarrow> 'i list \<Rightarrow>
     ('i \<times> 's versioned_state option) list \<times> usize \<Rightarrow>
     replication_error + ('i \<times> 's versioned_state option) list \<times> usize" where
  "stage_events apply_delta max_entities entities [] affected st = Inr st"
| "stage_events apply_delta max_entities entities (event # events) affected st =
     (if replication_event_entity event \<in> set affected
      then Inl (ReplInvalidPacket ''batch changes one entity more than once'')
      else
        (case stage_event apply_delta max_entities entities event st of
           Inl e \<Rightarrow> Inl e
         | Inr st' \<Rightarrow>
             stage_events apply_delta max_entities entities events
               (bs_insert (replication_event_entity event) affected) st'))"

definition stage_batch ::
    "('i::linorder \<Rightarrow> 's \<Rightarrow> 'd \<Rightarrow> 's option) \<Rightarrow> usize \<Rightarrow> ('i \<times> 's versioned_state) list \<Rightarrow>
     ('i \<times> 's versioned_state option) list \<Rightarrow> usize \<Rightarrow> ('i, 's, 'd) replication_batch \<Rightarrow>
     replication_error + ('i \<times> 's versioned_state option) list \<times> usize \<times> usize" where
  "stage_batch apply_delta max_entities entities changes entity_count batch =
     (case stage_events apply_delta max_entities entities (rb_events batch) []
             (changes, entity_count) of
        Inl e \<Rightarrow> Inl e
      | Inr (changes', entity_count') \<Rightarrow>
          Inr (changes', entity_count', length (rb_events batch)))"

text \<open>The first loop of \<open>receive\<close>: validation and de-duplication of the packet's batches.\<close>

fun replication_observe_batches ::
    "replication_config \<Rightarrow> ('i, 's, 'd) replication_batch list \<Rightarrow> sequence_window \<Rightarrow>
     (u64 \<times> ('i, 's, 'd) replication_batch) list \<Rightarrow> usize \<Rightarrow>
     replication_error +
       sequence_window \<times> (u64 \<times> ('i, 's, 'd) replication_batch) list \<times> usize" where
  "replication_observe_batches config [] sequences accepted duplicates =
     Inr (sequences, accepted, duplicates)"
| "replication_observe_batches config (batch # batches) sequences accepted duplicates =
     (if rb_tick batch = 0 \<or> rc_max_events_per_batch config < length (rb_events batch)
      then Inl (ReplInvalidPacket ''batch Tick or event count is invalid'')
      else
        (case sequence_window_observe sequences (rb_sequence batch) of
           (Inl _, _) \<Rightarrow>
             Inl (ReplInvalidPacket ''batch sequence exceeds the reorder window'')
         | (Inr Duplicate, sequences') \<Rightarrow>
             replication_observe_batches config batches sequences' accepted (duplicates + 1)
         | (Inr Accepted, sequences') \<Rightarrow>
             replication_observe_batches config batches sequences'
               (bt_insert (rb_sequence batch) batch accepted) duplicates))"

text \<open>
  The second loop: the contiguous batches, in sequence order. A batch is looked up among
  those of this packet first and then among those buffered earlier.
\<close>

definition batch_lookup ::
    "(u64 \<times> ('i, 's, 'd) replication_batch) list \<Rightarrow>
     (u64 \<times> ('i, 's, 'd) replication_batch) list \<Rightarrow> u64 \<Rightarrow>
     ('i, 's, 'd) replication_batch option" where
  "batch_lookup accepted pending sequence =
     (case map_of accepted sequence of
        Some batch \<Rightarrow> Some batch
      | None \<Rightarrow> map_of pending sequence)"

fun replication_apply_batches ::
    "('i::linorder \<Rightarrow> 's \<Rightarrow> 'd \<Rightarrow> 's option) \<Rightarrow> ('i, 's, 'd) replication_receiver \<Rightarrow> u64 list \<Rightarrow>
     (u64 \<times> ('i, 's, 'd) replication_batch) list \<Rightarrow> u64 \<Rightarrow>
     ('i \<times> 's versioned_state option) list \<Rightarrow> usize \<Rightarrow> usize \<Rightarrow> usize \<Rightarrow>
     replication_error +
       (u64 \<times> ('i, 's, 'd) replication_batch) list \<times> u64 \<times>
       ('i \<times> 's versioned_state option) list \<times> usize \<times> usize" where
  "replication_apply_batches apply_delta r [] accepted next_tick changes count batches events =
     Inr (accepted, next_tick, changes, batches, events)"
| "replication_apply_batches apply_delta r (sequence # sequences) accepted next_tick changes count
       batches events =
     (case batch_lookup accepted (rv_pending r) sequence of
        None \<Rightarrow> Inl (ReplInvalidPacket ''contiguous batch payload is missing'')
      | Some batch \<Rightarrow>
          if rb_tick batch < next_tick
          then Inl (ReplInvalidOrder ''applied batch Tick moved backwards'')
          else
            (case stage_batch apply_delta (rc_max_entities (rv_config r)) (rv_entities r)
                    changes count batch of
               Inl e \<Rightarrow> Inl e
             | Inr (changes', count', n) \<Rightarrow>
                 replication_apply_batches apply_delta r sequences (map_remove sequence accepted)
                   (rb_tick batch) changes' count' (batches + 1) (events + n)))"

definition inclusive_range :: "u64 \<Rightarrow> u64 \<Rightarrow> u64 list" where
  "inclusive_range a b = map of_nat [unat a ..< Suc (unat b)]"

definition commit_changes ::
    "('i::linorder \<times> 's versioned_state option) list \<Rightarrow> ('i \<times> 's versioned_state) list \<Rightarrow>
     ('i \<times> 's versioned_state) list" where
  "commit_changes changes entities =
     fold (\<lambda>(entity, state) entities.
       case state of
         Some state \<Rightarrow> bt_insert entity state entities
       | None \<Rightarrow> map_remove entity entities) changes entities"

definition replication_receiver_receive ::
    "('i::linorder \<Rightarrow> 's \<Rightarrow> 'd \<Rightarrow> 's option) \<Rightarrow> ('i, 's, 'd) replication_receiver \<Rightarrow>
     ('i, 's, 'd) replication_packet \<Rightarrow>
     (replication_error + replication_receive_report) \<times> ('i, 's, 'd) replication_receiver" where
  "replication_receiver_receive apply_delta r packet =
     (if rc_redundancy (rv_config r) < length (rp_batches packet)
      then (Inl (ReplInvalidPacket ''packet contains too many redundant batches''), r)
      else
        (let old_acknowledged = sequence_window_acknowledged (rv_sequences r)
         in case replication_observe_batches (rv_config r)
                   (sort_key rb_sequence (rp_batches packet)) (rv_sequences r) [] 0 of
              Inl e \<Rightarrow> (Inl e, r)
            | Inr (next_sequences, accepted, duplicate_batches) \<Rightarrow>
                (let new_acknowledged = sequence_window_acknowledged next_sequences
                 in case replication_apply_batches apply_delta r
                           (inclusive_range (sat_add old_acknowledged 1) new_acknowledged)
                           accepted (rv_applied_tick r) [] (length (rv_entities r)) 0 0 of
                      Inl e \<Rightarrow> (Inl e, r)
                    | Inr (accepted, next_tick, entity_changes, applied_batches,
                           applied_events) \<Rightarrow>
                        (let r = r\<lparr>rv_entities := commit_changes entity_changes (rv_entities r),
                                   rv_pending := fold (\<lambda>(k, v). bt_insert k v) accepted
                                     (map_retain (\<lambda>sequence _. new_acknowledged < sequence)
                                        (rv_pending r)),
                                   rv_sequences := next_sequences,
                                   rv_applied_tick := next_tick\<rparr>
                         in (Inr \<lparr>rrr_applied_batches = applied_batches,
                                  rrr_applied_events = applied_events,
                                  rrr_duplicate_batches = duplicate_batches,
                                  rrr_acknowledgement =
                                    \<lparr>ra_acknowledged_sequence =
                                       sequence_window_acknowledged (rv_sequences r),
                                     ra_applied_tick = rv_applied_tick r\<rparr>\<rparr>, r)))))"

definition replication_receiver_entity ::
    "('i, 's, 'd) replication_receiver \<Rightarrow> 'i \<Rightarrow> 's versioned_state option" where
  "replication_receiver_entity r entity = map_of (rv_entities r) entity"

definition replication_receiver_reset ::
    "('i, 's, 'd) replication_receiver \<Rightarrow>
     (replication_error + unit) \<times> ('i, 's, 'd) replication_receiver" where
  "replication_receiver_reset r =
     (case sequence_window_new (rc_reorder_window (rv_config r)) of
        Inl _ \<Rightarrow> (Inl (ReplInvalidConfig ''batch reorder window must be positive''), r)
      | Inr sequences \<Rightarrow>
          (Inr (), r\<lparr>rv_sequences := sequences, rv_pending := [], rv_entities := [],
                     rv_applied_tick := 0\<rparr>))"

end
