(* ===== verification/Replication_World.thy ===== *)
theory Replication_World
  imports Replication
begin

section \<open>What replication batches mean\<close>

text \<open>
  The abstract specification of the receiver: a world maps entities to versioned states, and
  a batch changes it event by event. \<open>stage_events\<close>, which collects the changes in an
  overlay over the committed entities and keeps a running count, refines \<open>world_events\<close>
  with the same errors; committing the overlay yields the world's map.
\<close>

type_synonym ('i, 's) world = "'i \<Rightarrow> 's versioned_state option"

definition world_event ::
    "('i \<Rightarrow> 's \<Rightarrow> 'd \<Rightarrow> 's option) \<Rightarrow> usize \<Rightarrow> ('i, 's, 'd) replication_event \<Rightarrow> ('i, 's) world \<Rightarrow>
     replication_error + ('i, 's) world" where
  "world_event apply_delta limit event w =
     (case event of
        Spawn entity version key state \<Rightarrow>
          if w entity \<noteq> None then Inl (ReplInvalidPacket ''spawned entity already exists'')
          else if limit \<le> card (dom w) then Inl ReplEntityLimitExceeded
          else Inr (w(entity \<mapsto>
            \<lparr>vs_version = version, vs_prediction_key = key, vs_state = state\<rparr>))
      | Despawn entity \<Rightarrow>
          if w entity = None then Inl (ReplInvalidPacket ''despawned entity does not exist'')
          else Inr (w(entity := None))
      | Update entity base_version version delta \<Rightarrow>
          (case w entity of
             None \<Rightarrow> Inl ReplBaselineMismatch
           | Some current \<Rightarrow>
               if vs_version current \<noteq> base_version \<or> version \<le> base_version
               then Inl ReplBaselineMismatch
               else (case apply_delta entity (vs_state current) delta of
                       None \<Rightarrow> Inl ReplDeltaRejected
                     | Some state \<Rightarrow> Inr (w(entity \<mapsto> \<lparr>vs_version = version,
                         vs_prediction_key = vs_prediction_key current, vs_state = state\<rparr>))))
      | Keyframe entity version key state \<Rightarrow>
          if w entity = None \<and> limit \<le> card (dom w) then Inl ReplEntityLimitExceeded
          else Inr (w(entity \<mapsto>
            \<lparr>vs_version = version, vs_prediction_key = key, vs_state = state\<rparr>)))"

fun world_events ::
    "('i \<Rightarrow> 's \<Rightarrow> 'd \<Rightarrow> 's option) \<Rightarrow> usize \<Rightarrow> ('i, 's, 'd) replication_event list \<Rightarrow> 'i set \<Rightarrow>
     ('i, 's) world \<Rightarrow> replication_error + ('i, 's) world" where
  "world_events apply_delta limit [] affected w = Inr w"
| "world_events apply_delta limit (event # events) affected w =
     (if replication_event_entity event \<in> affected
      then Inl (ReplInvalidPacket ''batch changes one entity more than once'')
      else (case world_event apply_delta limit event w of
              Inl e \<Rightarrow> Inl e
            | Inr w' \<Rightarrow> world_events apply_delta limit events
                (insert (replication_event_entity event) affected) w'))"

fun world_log ::
    "('i \<Rightarrow> 's \<Rightarrow> 'd \<Rightarrow> 's option) \<Rightarrow> usize \<Rightarrow> ('i, 's, 'd) replication_batch list \<Rightarrow>
     ('i, 's) world \<Rightarrow> replication_error + ('i, 's) world" where
  "world_log apply_delta limit [] w = Inr w"
| "world_log apply_delta limit (batch # batches) w =
     (case world_events apply_delta limit (rb_events batch) {} w of
        Inl e \<Rightarrow> Inl e
      | Inr w' \<Rightarrow> world_log apply_delta limit batches w')"

lemma world_log_append:
  "world_log apply_delta limit (xs @ ys) w =
     (case world_log apply_delta limit xs w of
        Inl e \<Rightarrow> Inl e | Inr w' \<Rightarrow> world_log apply_delta limit ys w')"
  by (induction xs arbitrary: w) (auto split: sum.splits)

lemma world_log_prefix:
  "world_log apply_delta limit (xs @ ys) w = Inr w' \<Longrightarrow>
   \<exists>v. world_log apply_delta limit xs w = Inr v \<and> world_log apply_delta limit ys v = Inr w'"
  by (auto simp: world_log_append split: sum.splits)

subsection \<open>Staging refines the world\<close>

definition staged_rel ::
    "('i::linorder \<times> 's versioned_state) list \<Rightarrow>
     ('i \<times> 's versioned_state option) list \<times> usize \<Rightarrow> ('i, 's) world \<Rightarrow> bool" where
  "staged_rel entities st w \<longleftrightarrow>
     bt_wf (fst st) \<and> w = staged_entity entities (fst st) \<and> snd st = card (dom w)"

lemma finite_dom_staged: "finite (dom (staged_entity entities changes))"
proof (rule finite_subset)
  show "dom (staged_entity entities changes) \<subseteq> dom (map_of entities) \<union> dom (map_of changes)"
    by (auto simp: staged_entity_def split: option.splits)
qed (simp add: finite_dom_map_of)

lemma staged_insert:
  "bt_wf changes \<Longrightarrow>
   staged_entity entities (bt_insert e c changes) = (staged_entity entities changes)(e := c)"
  by (auto simp: staged_entity_def bt.get_insert fun_eq_iff)

lemma staged_rel_insert:
  assumes "staged_rel entities (changes, n) w"
    and "m = (case c of
        None \<Rightarrow> if w e = None then n else n - 1
      | Some _ \<Rightarrow> if w e = None then n + 1 else n)"
  shows "staged_rel entities (bt_insert e c changes, m) (w(e := c))"
proof -
  have fin: "finite (dom w)"
    using assms(1) by (simp add: staged_rel_def finite_dom_staged)
  have "card (dom (w(e := c))) = m"
    using assms fin
    by (cases c) (auto simp: staged_rel_def card_insert_if domIff card_Diff_singleton_if
        split: if_splits)
  then show ?thesis
    using assms(1) by (simp add: staged_rel_def staged_insert bt.wf_insert del: dom_fun_upd)
qed

lemma stage_event_refines:
  assumes "staged_rel entities st w"
  shows "rel_sum (=) (staged_rel entities)
    (stage_event apply_delta limit entities event st) (world_event apply_delta limit event w)"
proof -
  obtain changes n where st: "st = (changes, n)" by (cases st)
  have w: "staged_entity entities changes = w" and n: "n = card (dom w)"
    using assms by (auto simp: st staged_rel_def)
  note ins = staged_rel_insert [OF assms [unfolded st]]
  show ?thesis
    unfolding stage_event_def world_event_def st prod.case w
    by (cases event)
      (auto simp: n Let_def intro!: ins split: option.splits)
qed

lemma stage_events_refines:
  assumes "staged_rel entities st w"
  shows "rel_sum (=) (staged_rel entities)
    (stage_events apply_delta limit entities events affected st)
    (world_events apply_delta limit events (set affected) w)"
  using assms
proof (induction events arbitrary: affected st w)
  case (Cons event events)
  show ?case
    using stage_event_refines [OF Cons.prems, of apply_delta limit event]
      Cons.IH [where affected = "bs_insert (replication_event_entity event) affected"]
    by (cases rule: rel_sum.cases) auto
qed simp

lemma commit_changes_staged:
  assumes "bt_wf entities" and "bt_wf changes"
  shows "bt_wf (commit_changes changes entities)"
    and "map_of (commit_changes changes entities) = staged_entity entities changes"
proof -
  have "bt_wf (commit_changes cs es) \<and>
      map_of (commit_changes cs es) = staged_entity es cs"
    if "bt_wf es" and "distinct (map fst cs)" for cs es
    using that
  proof (induction cs arbitrary: es)
    case Nil
    then show ?case by (auto simp: commit_changes_def staged_entity_def)
  next
    case (Cons c cs)
    obtain e v where c: "c = (e, v)" by (cases c)
    let ?es = "case v of Some s \<Rightarrow> bt_insert e s es | None \<Rightarrow> map_remove e es"
    have es: "bt_wf ?es" "map_of ?es = (map_of es)(e := v)"
      using Cons.prems(1) by (auto simp: bt.map_laws split: option.splits)
    have "commit_changes (c # cs) es = commit_changes cs ?es"
      by (simp add: commit_changes_def c)
    moreover have "staged_entity ?es cs = staged_entity es (c # cs)"
      using Cons.prems(2) es(2)
      by (auto simp: staged_entity_def c fun_eq_iff map_of_eq_None_iff [symmetric]
          split: option.splits)
    ultimately show ?case
      using Cons.IH [OF es(1)] Cons.prems(2) by simp
  qed
  then show "bt_wf (commit_changes changes entities)"
    and "map_of (commit_changes changes entities) = staged_entity entities changes"
    using assms bt.wf_distinct by blast+
qed

subsection \<open>Applying the contiguous batches\<close>

lemma replication_apply_batches_world:
  assumes "list_all2 (\<lambda>q b. batch_lookup accepted (rv_pending r) q = Some b) sequences batches"
    and "distinct sequences"
    and "sorted (next_tick # map rb_tick batches)"
    and "staged_rel (rv_entities r) (changes, count) w"
    and "world_log apply_delta (rc_max_entities (rv_config r)) batches w = Inr w'"
  shows "\<exists>changes' events'.
    replication_apply_batches apply_delta r sequences accepted next_tick changes count n events =
      Inr (filter (\<lambda>p. fst p \<notin> set sequences) accepted, last (next_tick # map rb_tick batches),
           changes', n + length batches, events') \<and>
    bt_wf changes' \<and> staged_entity (rv_entities r) changes' = w'"
  using assms
proof (induction sequences arbitrary: batches accepted next_tick changes count w n events)
  case Nil
  then show ?case by (auto simp: staged_rel_def)
next
  case (Cons q qs)
  obtain b bs where batches: "batches = b # bs"
    and b: "batch_lookup accepted (rv_pending r) q = Some b"
    and bs: "list_all2 (\<lambda>q b. batch_lookup accepted (rv_pending r) q = Some b) qs bs"
    using Cons.prems(1) by (auto simp: list_all2_Cons1)
  let ?limit = "rc_max_entities (rv_config r)"
  obtain v where v: "world_events apply_delta ?limit (rb_events b) {} w = Inr v"
    and rest: "world_log apply_delta ?limit bs v = Inr w'"
    using Cons.prems(5) by (auto simp: batches split: sum.splits)
  obtain changes' count' where
    staged: "stage_events apply_delta ?limit (rv_entities r) (rb_events b) [] (changes, count) =
      Inr (changes', count')"
    and rel: "staged_rel (rv_entities r) (changes', count') v"
    using stage_events_refines [OF Cons.prems(4), of apply_delta ?limit "rb_events b" "[]"] v
    by (cases rule: rel_sum.cases) auto
  have step: "replication_apply_batches apply_delta r (q # qs) accepted next_tick changes count n events =
      replication_apply_batches apply_delta r qs (map_remove q accepted) (rb_tick b) changes' count'
        (n + 1) (events + length (rb_events b))"
    using Cons.prems(3) staged
    by (auto simp: b batches stage_batch_def)
  have lookup: "list_all2 (\<lambda>q' b. batch_lookup (map_remove q accepted) (rv_pending r) q' = Some b) qs bs"
    using bs Cons.prems(2)
    by (auto simp: list_all2_conv_all_nth map_of_remove in_set_conv_nth batch_lookup_def)
  have ticks: "distinct qs" "sorted (rb_tick b # map rb_tick bs)"
    using Cons.prems(2,3) by (auto simp: batches)
  obtain changes'' events'' where IH:
    "replication_apply_batches apply_delta r qs (map_remove q accepted) (rb_tick b) changes' count'
        (n + 1) (events + length (rb_events b)) =
      Inr (filter (\<lambda>p. fst p \<notin> set qs) (map_remove q accepted),
           last (rb_tick b # map rb_tick bs), changes'', n + 1 + length bs, events'') \<and>
     bt_wf changes'' \<and> staged_entity (rv_entities r) changes'' = w'"
    using Cons.IH [OF lookup ticks rel rest] by blast
  moreover have "filter (\<lambda>p. fst p \<notin> set qs) (map_remove q accepted) =
      filter (\<lambda>p. fst p \<notin> set (q # qs)) accepted"
    by (auto simp: map_remove_def intro!: filter_cong)
  ultimately show ?case
    unfolding step batches by simp
qed

end
