(* ===== verification/Replication_Update.thy ===== *)
theory Replication_Update
  imports Replication_World
begin

section \<open>What a replication update transmits\<close>

text \<open>
  The batches \<open>ReplicationSender::update\<close> queues take a world that shows the previously
  projected entities to one that shows the newly visible ones, whatever the batch size.

  \<open>delta_codec\<close> is what the application's delta functions promise each other: the
  decoder rebuilds the state the encoder was given. Entity versions identify states, which
  is \<open>versions_identify\<close>. A world shows a map of entities when both agree on versions and
  states (\<open>world_shows\<close>); prediction keys are left out, since an update event carries none.
\<close>

locale delta_codec =
  fixes encode_delta :: "'i::linorder \<Rightarrow> 's versioned_state \<Rightarrow> 's versioned_state \<Rightarrow> 'd option"
    and apply_delta :: "'i \<Rightarrow> 's \<Rightarrow> 'd \<Rightarrow> 's option"
  assumes apply_encode: "encode_delta e previous current = Some d \<Longrightarrow>
    apply_delta e (vs_state previous) d = Some (vs_state current)"

definition vs_core :: "'s versioned_state \<Rightarrow> u64 \<times> 's" where
  "vs_core v = (vs_version v, vs_state v)"

definition world_shows :: "('i, 's) world \<Rightarrow> ('i \<times> 's versioned_state) list \<Rightarrow> bool" where
  "world_shows w m \<longleftrightarrow> (\<forall>e. map_option vs_core (w e) = map_option vs_core (map_of m e))"

definition versions_identify ::
    "('i \<times> 's versioned_state) list \<Rightarrow> ('i \<times> 's versioned_state) list \<Rightarrow> bool" where
  "versions_identify projected visible \<longleftrightarrow>
     (\<forall>(e, current) \<in> set visible. case map_of projected e of
        None \<Rightarrow> True
      | Some previous \<Rightarrow> vs_version previous = vs_version current \<longrightarrow>
          vs_state previous = vs_state current)"

text \<open>Events without the once-per-batch check; the check never fires on an update's events.\<close>

fun world_run ::
    "('i \<Rightarrow> 's \<Rightarrow> 'd \<Rightarrow> 's option) \<Rightarrow> usize \<Rightarrow> ('i, 's, 'd) replication_event list \<Rightarrow> ('i, 's) world \<Rightarrow>
     replication_error + ('i, 's) world" where
  "world_run apply_delta limit [] w = Inr w"
| "world_run apply_delta limit (event # events) w =
     (case world_event apply_delta limit event w of
        Inl e \<Rightarrow> Inl e | Inr w' \<Rightarrow> world_run apply_delta limit events w')"

lemma world_run_append:
  "world_run apply_delta limit (xs @ ys) w =
     (case world_run apply_delta limit xs w of
        Inl e \<Rightarrow> Inl e | Inr w' \<Rightarrow> world_run apply_delta limit ys w')"
  by (induction xs arbitrary: w) (auto split: sum.splits)

lemma world_events_run:
  "distinct (map replication_event_entity events) \<Longrightarrow>
   set (map replication_event_entity events) \<inter> affected = {} \<Longrightarrow>
   world_events apply_delta limit events affected w = world_run apply_delta limit events w"
  by (induction events arbitrary: affected w) (auto split: sum.splits)

lemma world_log_run:
  "distinct (map replication_event_entity (concat (map rb_events batches))) \<Longrightarrow>
   world_log apply_delta limit batches w =
     world_run apply_delta limit (concat (map rb_events batches)) w"
  by (induction batches arbitrary: w)
    (auto simp: world_events_run world_run_append split: sum.splits)

subsection \<open>Batching\<close>

lemma replication_batches_events:
  "length events \<le> n * m \<Longrightarrow>
   concat (map rb_events (replication_batches n q t m events)) = events"
proof (induction n arbitrary: q events)
  case (Suc n)
  have "length (drop m events) \<le> n * m" using Suc.prems by simp
  then show ?case using Suc.IH by simp
qed simp

lemma replication_batches_fields:
  "length (replication_batches n q t m events) = n"
  "\<forall>b \<in> set (replication_batches n q t m events). rb_tick b = t \<and> length (rb_events b) \<le> m"
  by (induction n arbitrary: q events) auto

lemma replication_batches_sequences:
  "unat q + n < 2 ^ 64 \<Longrightarrow>
   map (unat \<circ> rb_sequence) (replication_batches n q t m events) = [unat q ..< unat q + n]"
proof (induction n arbitrary: q events)
  case (Suc n)
  have "unat (q + 1) = unat q + 1"
    using Suc.prems by (simp add: unat_add_lem [THEN iffD1])
  then show ?case
    using Suc.IH [of "q + 1" "drop m events"] Suc.prems by (simp add: upt_conv_Cons)
qed simp

lemma div_ceil_enough: "0 < m \<Longrightarrow> n \<le> div_ceil n m * m"
proof -
  assume "0 < m"
  then have "n + m - 1 < (n + m - 1) div m * m + m"
    by (metis div_mult_mod_eq mod_less_divisor nat_add_left_cancel_less)
  then show ?thesis by (simp add: div_ceil_def)
qed

subsection \<open>The visible set\<close>

lemma replication_desired_map:
  "replication_desired visible acc = Inr desired \<Longrightarrow> bt_wf acc \<Longrightarrow>
   bt_wf desired \<and> (\<forall>e. map_of desired e =
     (case map_of visible e of None \<Rightarrow> map_of acc e | Some c \<Rightarrow> Some c)) \<and>
   (\<forall>e. map_of visible e \<noteq> None \<longrightarrow> map_of acc e = None)"
proof (induction visible acc rule: replication_desired.induct)
  case (2 entity state visible acc)
  then have fresh: "map_of acc entity = None"
    by (auto simp: contains_key_def split: if_splits)
  have "bt_wf desired \<and> (\<forall>e. map_of desired e =
     (case map_of visible e of None \<Rightarrow> map_of (bt_insert entity state acc) e | Some c \<Rightarrow> Some c)) \<and>
   (\<forall>e. map_of visible e \<noteq> None \<longrightarrow> map_of (bt_insert entity state acc) e = None)"
    using 2 fresh by (auto simp: contains_key_def bt.wf_insert)
  then show ?case
    using 2(3) fresh by (fastforce simp: bt.get_insert split: option.splits if_splits)
qed auto

lemma replication_desired_wf:
  assumes "replication_desired visible [] = Inr desired"
  shows "bt_wf desired" and "map_of desired = map_of visible"
proof -
  note spec = replication_desired_map [OF assms bt.wf_empty]
  show "bt_wf desired" using spec by simp
  have "map_of desired e = map_of visible e" for e
    using spec by (cases "map_of visible e") auto
  then show "map_of desired = map_of visible" ..
qed

subsection \<open>From one visible set to the next\<close>

lemma world_run_despawns:
  "distinct es \<Longrightarrow> set es \<subseteq> dom w \<Longrightarrow>
   world_run apply_delta limit (map Despawn es) w = Inr (\<lambda>e. if e \<in> set es then None else w e)"
proof (induction es arbitrary: w)
  case (Cons x es)
  then have "w x \<noteq> None" and "set es \<subseteq> dom (w(x := None))" by auto
  then show ?case
    using Cons by (auto simp: world_event_def fun_eq_iff)
qed simp

lemma replication_changes_entities:
  "replication_changes delta force projected desired = Inr events \<Longrightarrow>
   distinct (map fst desired) \<Longrightarrow>
   distinct (map replication_event_entity events) \<and>
   set (map replication_event_entity events) \<subseteq> fst ` set desired"
proof (induction desired arbitrary: events)
  case (Cons d desired)
  obtain e c where d: "d = (e, c)" by (cases d)
  obtain rest where rest: "replication_changes delta force projected desired = Inr rest"
    and events: "events = rest \<or> (\<exists>ev. events = ev # rest \<and> replication_event_entity ev = e)"
    using Cons.prems(1)
    by (cases "replication_changes delta force projected desired")
      (auto simp: d Let_def replication_event_entity_def split: option.splits if_splits)
  have "distinct (map replication_event_entity rest)"
    and "\<forall>x \<in> set rest. replication_event_entity x \<in> fst ` set desired"
    using Cons.IH [OF rest] Cons.prems(2) by auto
  with events Cons.prems(2) show ?case by (auto simp: d)
qed simp

context delta_codec
begin

text \<open>One entity: the event that is sent for it, if any, shows the current state.\<close>

lemma world_change:
  assumes step: "replication_changes encode_delta force projected ((e, c) # desired) = Inr events"
    and same: "map_option vs_core (w e) = map_option vs_core (map_of projected e)"
    and agree: "\<And>p. map_of projected e = Some p \<Longrightarrow> vs_version p = vs_version c \<Longrightarrow>
        vs_state p = vs_state c"
    and room: "w e = None \<Longrightarrow> card (dom w) < limit"
  shows "\<exists>rest v. replication_changes encode_delta force projected desired = Inr rest \<and>
      world_run apply_delta limit events w =
        world_run apply_delta limit rest (w(e := v)) \<and> map_option vs_core v = Some (vs_core c)"
proof -
  obtain rest where rest: "replication_changes encode_delta force projected desired = Inr rest"
    using step by (cases "replication_changes encode_delta force projected desired")
      (auto simp: Let_def split: option.splits if_splits)
  show ?thesis
  proof (cases "map_of projected e")
    case None
    with same have "w e = None" by simp
    with room None step rest show ?thesis
      by (auto simp: world_event_def vs_core_def Let_def intro!: exI [of _ "Some _"])
  next
    case (Some p)
    then obtain v where v: "w e = Some v" and core: "vs_version v = vs_version p" "vs_state v = vs_state p"
      using same by (auto simp: vs_core_def)
    have self: "w(e := Some v) = w" using v by auto
    show ?thesis
    proof (cases "force \<or> vs_version c \<noteq> vs_version p")
      case False
      with step rest Some have "events = rest" by (auto simp: Let_def split: if_splits)
      moreover have "vs_core v = vs_core c"
        using False agree [OF Some] core by (simp add: vs_core_def)
      ultimately show ?thesis
        using rest v self by (metis option.simps(9))
    next
      case True
      have ev: "\<not> vs_version c < vs_version p"
        using step Some by (auto simp: Let_def split: if_splits)
      consider "events = Keyframe e (vs_version c) (vs_prediction_key c) (vs_state c) # rest"
        | d where "encode_delta e p c = Some d" "vs_version c \<noteq> vs_version p"
            "events = Update e (vs_version p) (vs_version c) d # rest"
        using step rest Some True by (auto simp: Let_def split: if_splits option.splits)
      then show ?thesis
      proof cases
        case 1
        then show ?thesis
          using rest v by (auto simp: world_event_def vs_core_def intro!: exI [of _ "Some _"])
      next
        case 2
        then show ?thesis
          using rest v core ev apply_encode [of e p c d]
          by (auto simp: world_event_def vs_core_def intro!: exI [of _ "Some _"])
      qed
    qed
  qed
qed

text \<open>All entities of the visible set, in order.\<close>

lemma world_changes:
  assumes "replication_changes encode_delta force projected desired = Inr events"
    and "distinct (map fst desired)"
    and "\<And>e c. (e, c) \<in> set desired \<Longrightarrow>
        map_option vs_core (w e) = map_option vs_core (map_of projected e)"
    and "versions_identify projected desired"
    and "dom w \<subseteq> D" and "fst ` set desired \<subseteq> D" and "finite D" and "card D \<le> limit"
  shows "\<exists>w'. world_run apply_delta limit events w = Inr w' \<and>
      (\<forall>e. map_option vs_core (w' e) = (case map_of desired e of
         None \<Rightarrow> map_option vs_core (w e) | Some c \<Rightarrow> Some (vs_core c)))"
  using assms
proof (induction desired arbitrary: w events)
  case Nil
  then show ?case by simp
next
  case (Cons d desired)
  obtain e c where d: "d = (e, c)" by (cases d)
  have "card (dom w) < limit" if "w e = None"
  proof -
    have "dom w \<subseteq> D - {e}" using Cons.prems(5) that by auto
    then have "card (dom w) \<le> card (D - {e})"
      using Cons.prems(7) by (intro card_mono) auto
    also have "\<dots> < card D"
      using Cons.prems(6,7) by (intro card_Diff1_less) (auto simp: d)
    finally show ?thesis using Cons.prems(8) by simp
  qed
  moreover have "vs_state p = vs_state c"
    if "map_of projected e = Some p" "vs_version p = vs_version c" for p
    using Cons.prems(4) that by (auto simp: versions_identify_def d)
  ultimately obtain rest v where
    rest: "replication_changes encode_delta force projected desired = Inr rest"
    and run: "world_run apply_delta limit events w = world_run apply_delta limit rest (w(e := v))"
    and v: "map_option vs_core v = Some (vs_core c)"
    using world_change [OF Cons.prems(1) [unfolded d], of w limit] Cons.prems(3) [of e c]
    by (auto simp: d)
  have "\<exists>w'. world_run apply_delta limit rest (w(e := v)) = Inr w' \<and>
      (\<forall>x. map_option vs_core (w' x) = (case map_of desired x of
         None \<Rightarrow> map_option vs_core ((w(e := v)) x) | Some c \<Rightarrow> Some (vs_core c)))"
  proof (rule Cons.IH [OF rest])
    show "distinct (map fst desired)" using Cons.prems(2) by simp
    show "map_option vs_core ((w(e := v)) x) = map_option vs_core (map_of projected x)"
      if "(x, y) \<in> set desired" for x y
      using Cons.prems(2) Cons.prems(3) [of x y] that by (force simp: d)
    show "versions_identify projected desired"
      using Cons.prems(4) by (simp add: versions_identify_def)
    show "dom (w(e := v)) \<subseteq> D" "fst ` set desired \<subseteq> D"
      using Cons.prems(5,6) by (auto simp: d split: if_splits)
  qed (use Cons.prems in auto)
  then obtain w' where w': "world_run apply_delta limit rest (w(e := v)) = Inr w'"
    and core: "\<And>x. map_option vs_core (w' x) = (case map_of desired x of
         None \<Rightarrow> map_option vs_core ((w(e := v)) x) | Some c \<Rightarrow> Some (vs_core c))" by blast
  have fresh: "map_of desired e = None"
    using Cons.prems(2) by (auto simp: d map_of_eq_None_iff)
  have "map_option vs_core (w' x) = (case map_of (d # desired) x of
         None \<Rightarrow> map_option vs_core (w x) | Some c \<Rightarrow> Some (vs_core c))" for x
    using core [of x] v fresh by (cases "x = e") (auto simp: d split: option.splits)
  with w' run show ?case by auto
qed

text \<open>A whole update: the despawns first, then everything visible now.\<close>

lemma world_update:
  assumes changes: "replication_changes encode_delta force projected desired = Inr changes"
    and wf: "bt_wf projected" "bt_wf desired"
    and visible: "world_shows w projected"
    and agree: "versions_identify projected desired"
    and size: "length desired \<le> limit"
  shows "\<exists>w'. world_run apply_delta limit (replication_despawns projected desired @ changes) w =
      Inr w' \<and> world_shows w' desired"
proof -
  let ?gone = "filter (\<lambda>e. \<not> contains_key desired e) (map fst projected)"
  let ?w = "\<lambda>e. if e \<in> set ?gone then None else w e"
  have some: "w e = None \<longleftrightarrow> map_of projected e = None" for e
    using visible by (metis map_option_is_None world_shows_def)
  have keys: "e \<in> fst ` set projected \<longleftrightarrow> map_of projected e \<noteq> None" for e
    by (simp add: map_of_eq_None_iff)
  have gone: "world_run apply_delta limit (replication_despawns projected desired) w = Inr ?w"
    unfolding replication_despawns_def
  proof (rule world_run_despawns)
    show "distinct ?gone" using bt.wf_distinct [OF wf(1)] by simp
    have "w e \<noteq> None" if "e \<in> set ?gone" for e
    proof -
      have "e \<in> fst ` set projected" using that by simp
      then show ?thesis unfolding keys some .
    qed
    then show "set ?gone \<subseteq> dom w" by blast
  qed
  have left: "?w e \<noteq> None \<Longrightarrow> map_of desired e \<noteq> None" for e
    using some [of e] by (auto simp: contains_key_def map_of_eq_None_iff split: if_splits)
  have "\<exists>w'. world_run apply_delta limit changes ?w = Inr w' \<and>
      (\<forall>e. map_option vs_core (w' e) = (case map_of desired e of
         None \<Rightarrow> map_option vs_core (?w e) | Some c \<Rightarrow> Some (vs_core c)))"
  proof (rule world_changes [OF changes bt.wf_distinct [OF wf(2)] _ agree,
        where D = "dom (map_of desired)"])
    show "map_option vs_core (?w e) = map_option vs_core (map_of projected e)"
      if "(e, c) \<in> set desired" for e c
      using that visible wf(2) by (auto simp: world_shows_def contains_key_def bt.in_set_iff)
    show "dom ?w \<subseteq> dom (map_of desired)" using left by blast
    show "fst ` set desired \<subseteq> dom (map_of desired)" by (simp add: dom_map_of_conv_image_fst)
    show "card (dom (map_of desired)) \<le> limit" using size bt.length_dom [OF wf(2)] by simp
  qed (simp add: finite_dom_map_of)
  then obtain w' where w': "world_run apply_delta limit changes ?w = Inr w'"
    and core: "\<And>e. map_option vs_core (w' e) = (case map_of desired e of
         None \<Rightarrow> map_option vs_core (?w e) | Some c \<Rightarrow> Some (vs_core c))" by blast
  have "map_option vs_core (w' e) = map_option vs_core (map_of desired e)" for e
    using core [of e] left [of e] by (cases "map_of desired e"; cases "?w e") simp_all
  with w' show ?thesis
    by (auto simp: world_run_append gone world_shows_def)
qed

end

end
