(* ===== verification/Replication_System.thy ===== *)
theory Replication_System
  imports Replication_Update
begin

section \<open>Replication over an unreliable network\<close>

text \<open>
  A \<open>ReplicationSender\<close> and a \<open>ReplicationReceiver\<close> with the same configuration,
  connected by a network that loses, repeats and reorders packets and acknowledgements. The
  log of all batches ever issued is observed but never read by either end.

  The invariant ties the receiver's entities to the prefix of the log it has acknowledged
  and the sender's projection to the whole log, through the meaning of batches in
  \<open>Replication_World\<close>.
\<close>

subsection \<open>The system\<close>

record ('i, 's, 'd) repl_system =
  ys_sender :: "('i, 's, 'd) replication_sender"
  ys_receiver :: "('i, 's, 'd) replication_receiver"
  ys_packets :: "('i, 's, 'd) replication_packet list"
  ys_acks :: "replication_ack list"
  ys_log :: "('i, 's, 'd) replication_batch list"

inductive repl_step ::
    "('i::linorder \<Rightarrow> 's versioned_state \<Rightarrow> 's versioned_state \<Rightarrow> 'd option) \<Rightarrow>
     ('i \<Rightarrow> 's \<Rightarrow> 'd \<Rightarrow> 's option) \<Rightarrow>
     ('i, 's, 'd) repl_system \<Rightarrow> ('i, 's, 'd) repl_system \<Rightarrow> bool"
  for encode_delta apply_delta where
  repl_update:
    "versions_identify (rs_projected (ys_sender y)) visible \<Longrightarrow>
     replication_sender_update encode_delta (ys_sender y) tick visible = (Inr n, s') \<Longrightarrow>
     repl_step encode_delta apply_delta y
       (y\<lparr>ys_sender := s',
          ys_log := ys_log y @ drop (length (rs_pending (ys_sender y))) (rs_pending s')\<rparr>)"
| repl_force:
    "repl_step encode_delta apply_delta y
       (y\<lparr>ys_sender := replication_sender_force_keyframes (ys_sender y)\<rparr>)"
| repl_send:
    "repl_step encode_delta apply_delta y
       (y\<lparr>ys_packets := ys_packets y @ [replication_sender_packet (ys_sender y)]\<rparr>)"
| repl_lose:
    "repl_step encode_delta apply_delta y
       (y\<lparr>ys_packets := take i (ys_packets y) @ drop (Suc i) (ys_packets y)\<rparr>)"
| repl_receive:
    "packet \<in> set (ys_packets y) \<Longrightarrow>
     replication_receiver_receive apply_delta (ys_receiver y) packet = (result, r') \<Longrightarrow>
     repl_step encode_delta apply_delta y
       (y\<lparr>ys_receiver := r', ys_acks := ys_acks y @ (case result of
          Inl _ \<Rightarrow> [] | Inr report \<Rightarrow> [rrr_acknowledgement report])\<rparr>)"
| repl_acknowledge:
    "acknowledgement \<in> set (ys_acks y) \<Longrightarrow>
     replication_sender_acknowledge (ys_sender y) acknowledgement = (result, s') \<Longrightarrow>
     repl_step encode_delta apply_delta y (y\<lparr>ys_sender := s'\<rparr>)"

inductive repl_reachable ::
    "('i::linorder \<Rightarrow> 's versioned_state \<Rightarrow> 's versioned_state \<Rightarrow> 'd option) \<Rightarrow>
     ('i \<Rightarrow> 's \<Rightarrow> 'd \<Rightarrow> 's option) \<Rightarrow> replication_config \<Rightarrow>
     ('i, 's, 'd) repl_system \<Rightarrow> bool"
  for encode_delta apply_delta config where
  repl_start:
    "replication_sender_new config = Inr s \<Longrightarrow> replication_receiver_new config = Inr r \<Longrightarrow>
     repl_reachable encode_delta apply_delta config
       \<lparr>ys_sender = s, ys_receiver = r, ys_packets = [], ys_acks = [], ys_log = []\<rparr>"
| repl_next:
    "repl_reachable encode_delta apply_delta config y \<Longrightarrow>
     repl_step encode_delta apply_delta y z \<Longrightarrow>
     repl_reachable encode_delta apply_delta config z"

subsection \<open>The log\<close>

text \<open>Batch number \<open>n\<close> of the stream is element \<open>n - 1\<close> of the log.\<close>

definition log_numbered :: "('i, 's, 'd) replication_batch list \<Rightarrow> bool" where
  "log_numbered log \<longleftrightarrow> map (unat \<circ> rb_sequence) log = [1 ..< Suc (length log)]"

abbreviation log_tick :: "('i, 's, 'd) replication_batch list \<Rightarrow> u64 \<Rightarrow> u64" where
  "log_tick log q \<equiv> (if q = 0 then 0 else rb_tick (log ! (unat q - 1)))"

lemma log_numbered_nth:
  "log_numbered log \<Longrightarrow> i < length log \<Longrightarrow> unat (rb_sequence (log ! i)) = Suc i"
proof -
  assume "log_numbered log" and i: "i < length log"
  then have "map (unat \<circ> rb_sequence) log ! i = [1 ..< Suc (length log)] ! i"
    by (simp add: log_numbered_def)
  with i show ?thesis by (simp del: upt_Suc)
qed

lemma log_numbered_mem:
  assumes "log_numbered log" and "b \<in> set log"
  shows "0 < unat (rb_sequence b)" and "unat (rb_sequence b) \<le> length log"
    and "b = log ! (unat (rb_sequence b) - 1)"
  using assms by (auto simp: in_set_conv_nth log_numbered_nth)

lemma log_numbered_append:
  assumes "log_numbered log"
    and "map (unat \<circ> rb_sequence) new = [Suc (length log) ..< Suc (length log) + length new]"
  shows "log_numbered (log @ new)"
  using assms upt_add_eq_append [of 1 "Suc (length log)" "length new"]
  by (simp add: log_numbered_def)

definition sender_log_inv ::
    "('i::linorder, 's, 'd) replication_sender \<Rightarrow> ('i, 's, 'd) replication_batch list \<Rightarrow> bool" where
  "sender_log_inv s log \<longleftrightarrow>
     replication_config_validate (rs_config s) = Inr () \<and>
     log_numbered log \<and> unat (rs_next_sequence s) = Suc (length log) \<and>
     unat (rs_acknowledged_sequence s) \<le> length log \<and>
     rs_pending s = drop (unat (rs_acknowledged_sequence s)) log \<and>
     length (rs_pending s) \<le> rc_history_capacity (rs_config s) \<and>
     bt_wf (rs_projected s) \<and>
     sorted (map rb_tick log) \<and>
     (\<forall>b \<in> set log. rb_tick b \<noteq> 0 \<and> rb_tick b \<le> rs_last_tick s \<and>
        length (rb_events b) \<le> rc_max_events_per_batch (rs_config s))"

definition world_log_inv ::
    "('i::linorder \<Rightarrow> 's \<Rightarrow> 'd \<Rightarrow> 's option) \<Rightarrow> ('i, 's, 'd) replication_sender \<Rightarrow>
     ('i, 's, 'd) replication_batch list \<Rightarrow> bool" where
  "world_log_inv apply_delta s log \<longleftrightarrow>
     (\<exists>w. world_log apply_delta (rc_max_entities (rs_config s)) log Map.empty = Inr w \<and>
          world_shows w (rs_projected s))"

lemma replication_update_Inr:
  assumes "replication_sender_update delta s tick visible = (Inr n, s')"
  obtains desired changes next_sequence where
    "tick \<noteq> 0" "rs_last_tick s < tick" "replication_desired visible [] = Inr desired"
    "length desired \<le> rc_max_entities (rs_config s)"
    "replication_changes delta (rs_force_keyframes s) (rs_projected s) desired = Inr changes"
    "n = div_ceil (length (replication_despawns (rs_projected s) desired @ changes))
           (rc_max_events_per_batch (rs_config s))"
    "usize_sat_add (length (rs_pending s)) n \<le> rc_history_capacity (rs_config s)"
    "unat next_sequence = unat (rs_next_sequence s) + n"
    "s' = s\<lparr>rs_pending := rs_pending s @
               replication_batches n (rs_next_sequence s) tick
                 (rc_max_events_per_batch (rs_config s))
                 (replication_despawns (rs_projected s) desired @ changes),
            rs_next_sequence := next_sequence, rs_last_tick := tick, rs_projected := desired,
            rs_force_keyframes := False\<rparr>"
  using assms
  by (auto simp: replication_sender_update_def Let_def not_le not_less u64_try_from_Some_iff
      checked_add_Some_iff bind_eq_Some_conv split: if_splits sum.splits option.splits)

lemma replication_update_Inl:
  "replication_sender_update delta s tick visible = (Inl e, s') \<Longrightarrow> s' = s"
  by (auto simp: replication_sender_update_def Let_def
      split: if_splits sum.splits option.splits)

subsection \<open>The sender and the log\<close>

lemma sender_log_inv_next:
  "sender_log_inv s log \<Longrightarrow> rs_acknowledged_sequence s < rs_next_sequence s"
  by (simp add: sender_log_inv_def word_less_nat_alt)

lemma sender_log_inv_update:
  assumes inv: "sender_log_inv s log"
    and run: "replication_sender_update delta s tick visible = (Inr n, s')"
  shows "sender_log_inv s' (log @ drop (length (rs_pending s)) (rs_pending s'))"
    and "rs_acknowledged_sequence s' = rs_acknowledged_sequence s"
    and "rs_config s' = rs_config s"
proof -
  from run obtain desired changes nxt where
    tick: "tick \<noteq> 0" "rs_last_tick s < tick" and desired: "replication_desired visible [] = Inr desired"
    and room: "usize_sat_add (length (rs_pending s)) n \<le> rc_history_capacity (rs_config s)"
    and n: "unat nxt = unat (rs_next_sequence s) + n"
    and s': "s' = s\<lparr>rs_pending := rs_pending s @
               replication_batches n (rs_next_sequence s) tick
                 (rc_max_events_per_batch (rs_config s))
                 (replication_despawns (rs_projected s) desired @ changes),
            rs_next_sequence := nxt, rs_last_tick := tick, rs_projected := desired,
            rs_force_keyframes := False\<rparr>"
    by (rule replication_update_Inr)
  define new where "new = replication_batches n (rs_next_sequence s) tick
    (rc_max_events_per_batch (rs_config s)) (replication_despawns (rs_projected s) desired @ changes)"
  have len: "length new = n" and fields: "\<forall>b \<in> set new. rb_tick b = tick \<and>
      length (rb_events b) \<le> rc_max_events_per_batch (rs_config s)"
    by (simp_all add: new_def replication_batches_fields)
  have nxt: "unat nxt = Suc (length log) + n"
    using n inv by (simp add: sender_log_inv_def)
  then have bound: "Suc (length log) + n < 2 ^ 64"
    using unat_lt2p [of nxt] by simp
  have "map (unat \<circ> rb_sequence) new = [Suc (length log) ..< Suc (length log) + length new]"
    unfolding len unfolding new_def
    using inv bound by (subst replication_batches_sequences) (simp_all add: sender_log_inv_def)
  then have "log_numbered (log @ new)"
    using inv by (intro log_numbered_append) (simp_all add: sender_log_inv_def)
  moreover have "length (rs_pending s) + n \<le> rc_history_capacity (rs_config s)"
  proof -
    have "length (rs_pending s) \<le> length log"
      using inv by (simp add: sender_log_inv_def)
    with bound have "length (rs_pending s) + n < 2 ^ 64 - 1" by linarith
    with room show ?thesis
      by (simp add: usize_sat_add_def usize_max_def)
  qed
  moreover have "sorted (map rb_tick (log @ new))"
  proof -
    have "map rb_tick new = replicate n tick"
      using fields len by (intro nth_equalityI) auto
    then show ?thesis
      using inv tick
      by (auto simp: sender_log_inv_def sorted_append sorted_replicate intro: order_trans less_imp_le)
  qed
  moreover have "\<forall>b \<in> set (log @ new). rb_tick b \<noteq> 0 \<and> rb_tick b \<le> tick \<and>
      length (rb_events b) \<le> rc_max_events_per_batch (rs_config s)"
    using inv fields tick by (auto simp: sender_log_inv_def intro: order_trans less_imp_le)
  moreover have "bt_wf desired"
    using desired by (rule replication_desired_wf)
  ultimately show "sender_log_inv s' (log @ drop (length (rs_pending s)) (rs_pending s'))"
    using inv nxt len by (simp add: s' new_def [symmetric] sender_log_inv_def)
  show "rs_acknowledged_sequence s' = rs_acknowledged_sequence s" "rs_config s' = rs_config s"
    by (simp_all add: s')
qed


context delta_codec
begin

lemma world_log_inv_update:
  assumes inv: "sender_log_inv s log" and world: "world_log_inv apply_delta s log"
    and agree: "versions_identify (rs_projected s) visible"
    and run: "replication_sender_update encode_delta s tick visible = (Inr n, s')"
  shows "world_log_inv apply_delta s' (log @ drop (length (rs_pending s)) (rs_pending s'))"
proof -
  from run obtain desired changes nxt where
    desired: "replication_desired visible [] = Inr desired"
    and size: "length desired \<le> rc_max_entities (rs_config s)"
    and changes: "replication_changes encode_delta (rs_force_keyframes s) (rs_projected s) desired =
        Inr changes"
    and n: "n = div_ceil (length (replication_despawns (rs_projected s) desired @ changes))
           (rc_max_events_per_batch (rs_config s))"
    and s': "s' = s\<lparr>rs_pending := rs_pending s @
               replication_batches n (rs_next_sequence s) tick
                 (rc_max_events_per_batch (rs_config s))
                 (replication_despawns (rs_projected s) desired @ changes),
            rs_next_sequence := nxt, rs_last_tick := tick, rs_projected := desired,
            rs_force_keyframes := False\<rparr>"
    by (rule replication_update_Inr)
  let ?m = "rc_max_events_per_batch (rs_config s)" and ?limit = "rc_max_entities (rs_config s)"
  define events where "events = replication_despawns (rs_projected s) desired @ changes"
  define new where "new = replication_batches n (rs_next_sequence s) tick ?m events"
  obtain w where w: "world_log apply_delta ?limit log Map.empty = Inr w"
    and shows_w: "world_shows w (rs_projected s)"
    using world by (auto simp: world_log_inv_def)
  have wf: "bt_wf (rs_projected s)" "bt_wf desired" and vis: "map_of desired = map_of visible"
    using inv replication_desired_wf [OF desired] by (auto simp: sender_log_inv_def)
  have "versions_identify (rs_projected s) desired"
    using agree bt.in_set_iff [OF wf(2)] vis map_of_SomeD
    by (fastforce simp: versions_identify_def)
  then obtain w' where w': "world_run apply_delta ?limit events w = Inr w'"
    and shows_w': "world_shows w' desired"
    using world_update [OF changes wf shows_w _ size] by (auto simp: events_def)
  have "0 < ?m"
    using inv by (auto simp: sender_log_inv_def replication_config_validate_def split: if_splits)
  then have concat: "concat (map rb_events new) = events"
    using div_ceil_enough [of ?m "length events"] n
    by (simp add: new_def replication_batches_events events_def)
  have "distinct (map replication_event_entity events)"
  proof -
    have "set (map replication_event_entity (replication_despawns (rs_projected s) desired
          :: ('i, 's, 'd) replication_event list)) \<inter> fst ` set desired = {}"
      by (auto simp: replication_despawns_def replication_event_entity_def contains_key_def
          map_of_eq_None_iff)
    moreover have "distinct (map replication_event_entity
        (replication_despawns (rs_projected s) desired :: ('i, 's, 'd) replication_event list))"
      using bt.wf_distinct [OF wf(1)]
      by (simp add: replication_despawns_def replication_event_entity_def comp_def)
    ultimately show ?thesis
      using replication_changes_entities [OF changes bt.wf_distinct [OF wf(2)]]
      unfolding events_def map_append distinct_append by blast
  qed
  then have "world_log apply_delta ?limit (log @ new) Map.empty = Inr w'"
    using w w' by (simp add: world_log_append world_log_run concat)
  with shows_w' show ?thesis
    by (auto simp: world_log_inv_def s' new_def events_def)
qed

end

subsection \<open>Acknowledgements and packets\<close>

text \<open>The acknowledgements in flight name a batch of the log and its Tick.\<close>

lemma replication_acknowledge_log:
  assumes inv: "sender_log_inv s log"
    and ack: "unat (ra_acknowledged_sequence a) \<le> length log"
      "ra_applied_tick a = log_tick log (ra_acknowledged_sequence a)"
  shows "\<exists>n s'. replication_sender_acknowledge s a = (Inr n, s') \<and> sender_log_inv s' log \<and>
    rs_acknowledged_sequence s' = max (rs_acknowledged_sequence s) (ra_acknowledged_sequence a) \<and>
    rs_projected s' = rs_projected s \<and> rs_config s' = rs_config s"
proof -
  let ?q = "ra_acknowledged_sequence a" and ?a = "rs_acknowledged_sequence s"
  have issued: "\<not> rs_next_sequence s - 1 < ?q"
    using inv ack(1)
    by (simp add: sender_log_inv_def word_less_nat_alt unat_minus_one word_pos_iff)
  show ?thesis
  proof (cases "?q \<le> ?a")
    case True
    then show ?thesis
      using inv issued by (auto simp: replication_sender_acknowledge_def Let_def max_def)
  next
    case False
    then have less: "unat ?a < unat ?q" by (simp add: word_le_nat_alt)
    let ?i = "unat ?q - 1"
    have i: "?i < length log" and q_pos: "0 < unat ?q" using less ack(1) by auto
    have log: "log_numbered log" "rs_pending s = drop (unat ?a) log"
      using inv by (auto simp: sender_log_inv_def)
    have "rb_sequence (log ! ?i) = ?q"
      using log_numbered_nth [OF log(1) i] q_pos by (intro word_eqI_unat) simp
    moreover have "log ! ?i \<in> set (rs_pending s)"
      unfolding log(2) in_set_conv_nth using i less
      by (intro exI [of _ "?i - unat ?a"]) auto
    ultimately obtain b where b: "find (\<lambda>b. rb_sequence b = ?q) (rs_pending s) = Some b"
      by (cases "find (\<lambda>b. rb_sequence b = ?q) (rs_pending s)") (auto simp: find_None_iff)
    then have "b \<in> set log" "rb_sequence b = ?q"
      by (auto simp: find_Some_iff log(2) in_set_conv_nth)
        (metis add.commute add_less_cancel_right le_add_diff_inverse less_diff_conv log(2) nth_drop)
    then have "b = log ! ?i"
      using log_numbered_mem(3) [OF log(1), of b] by simp
    moreover have "?q \<noteq> 0" using q_pos by auto
    ultimately have tick: "rb_tick b = ra_applied_tick a"
      using ack(2) by simp
    have "dropWhile (\<lambda>b. rb_sequence b \<le> ?q) (drop (unat ?a) log) = drop (unat ?q) log"
    proof -
      let ?xs = "take (unat ?q - unat ?a) (drop (unat ?a) log)"
      have "drop (unat ?a) log = ?xs @ drop (unat ?q) log"
        using append_take_drop_id [of "unat ?q - unat ?a" "drop (unat ?a) log"] less by simp
      moreover have "dropWhile (\<lambda>b. rb_sequence b \<le> ?q) (?xs @ drop (unat ?q) log) =
          dropWhile (\<lambda>b. rb_sequence b \<le> ?q) (drop (unat ?q) log)"
        using less ack(1) log_numbered_nth [OF log(1)]
        by (intro dropWhile_append2) (auto simp: in_set_conv_nth word_le_nat_alt)
      moreover have "dropWhile (\<lambda>b. rb_sequence b \<le> ?q) (drop (unat ?q) log) = drop (unat ?q) log"
        using log_numbered_nth [OF log(1)]
        by (cases "unat ?q < length log")
          (auto simp: Cons_nth_drop_Suc [symmetric] word_le_nat_alt)
      ultimately show ?thesis by simp
    qed
    moreover have "length log - unat ?q \<le> rc_history_capacity (rs_config s)"
      using inv less by (auto simp: sender_log_inv_def)
    ultimately show ?thesis
      using inv issued False b tick ack(1)
      by (auto simp: replication_sender_acknowledge_def Let_def sender_log_inv_def max_def)
  qed
qed

lemma replication_packet_batches:
  assumes "0 < rc_redundancy (rs_config s)"
  shows "set (rp_batches (replication_sender_packet s)) \<subseteq> set (rs_pending s)"
    and "length (rp_batches (replication_sender_packet s)) \<le> rc_redundancy (rs_config s)"
    and "rs_pending s \<noteq> [] \<Longrightarrow> hd (rs_pending s) \<in> set (rp_batches (replication_sender_packet s))"
proof -
  let ?p = "rs_pending s" and ?r = "rc_redundancy (rs_config s)"
  define selected where
    "selected = fold bs_insert [length ?p - (?r - 1) ..< length ?p] (bs_insert (0 :: nat) [])"
  have fold: "set (fold bs_insert xs ys) = set xs \<union> set ys \<and> (bs_wf ys \<longrightarrow> bs_wf (fold bs_insert xs ys))"
    for xs ys :: "nat list"
    by (induction xs arbitrary: ys) (auto simp: bs_wf_insert)
  have set_sel: "set selected = insert 0 {length ?p - (?r - 1) ..< length ?p}"
    and "bs_wf selected"
    using fold [of "[length ?p - (?r - 1) ..< length ?p]" "bs_insert 0 []"]
    by (auto simp: selected_def bs_insert_def bs_wf_def)
  then have "length selected = card (insert 0 {length ?p - (?r - 1) ..< length ?p})"
    by (metis bs_wf_def distinct_card strict_sorted_iff)
  also have "\<dots> \<le> Suc (?r - 1)"
    by (simp add: card_insert_if) arith
  finally have len: "length selected \<le> ?r" using assms by simp
  let ?f = "\<lambda>i. if i < length ?p then Some (?p ! i) else None"
  have batches: "rp_batches (replication_sender_packet s) =
      (if length ?p \<le> ?r then ?p else List.map_filter ?f selected)"
    by (simp add: replication_sender_packet_def selected_def Let_def)
  show "set (rp_batches (replication_sender_packet s)) \<subseteq> set ?p"
    by (auto simp: batches map_filter_def)
  show "length (rp_batches (replication_sender_packet s)) \<le> ?r"
    using len by (auto simp: batches map_filter_def intro: order_trans [OF length_filter_le])
  show "hd ?p \<in> set (rp_batches (replication_sender_packet s))" if "?p \<noteq> []"
    using that set_sel by (auto simp: batches map_filter_def hd_conv_nth image_iff)
qed

end
