(* ===== verification/Replication_Delivery.thy ===== *)
theory Replication_Delivery
  imports Replication_System
begin

section \<open>Delivery and convergence\<close>

text \<open>
  The receiver's half of the invariant and the properties of the whole replication stream:
  a packet of the sender is never refused, the entities of the receiver are the meaning of
  the acknowledged prefix of the log, and lossless exchanges bring both ends together.
\<close>

subsection \<open>Observing the batches of a packet\<close>

lemma replication_observe_ok:
  assumes "sequence_window_inv w"
    and "\<forall>b \<in> set bs. rb_tick b \<noteq> 0 \<and> length (rb_events b) \<le> rc_max_events_per_batch c \<and>
      rb_sequence b \<noteq> 0 \<and>
      rb_sequence b \<le> sat_add (sequence_window_acknowledged w) (sw_reorder_window w)"
  shows "\<exists>new dup' w'.
      replication_observe_batches c bs w acc dup =
        Inr (w', fold (\<lambda>b. bt_insert (rb_sequence b) b) new acc, dup') \<and>
      sw.accepts w (map rb_sequence new) w' \<and> set new \<subseteq> set bs \<and>
      rb_sequence ` set bs \<subseteq> sequence_window_seen w' \<and>
      sw_reorder_window w' = sw_reorder_window w"
  using assms
proof (induction bs arbitrary: w acc dup)
  case Nil
  show ?case
    by (intro exI [of _ "[]"] exI [of _ dup] exI [of _ w]) (simp add: sw.accepts_nil)
next
  case (Cons b bs)
  obtain res w1 where obs: "sequence_window_observe w (rb_sequence b) = (res, w1)"
    by fastforce
  have reorder: "sw_reorder_window w1 = sw_reorder_window w"
    using sequence_window_observe_reorder [of w "rb_sequence b"] obs by simp
  have res: "res = Inr Duplicate \<or> res = Inr Accepted"
    using sequence_window_observe_cases [OF Cons.prems(1), of "rb_sequence b"] Cons.prems(2) obs
    by (auto simp: sequence_window_acknowledged_def not_less split: if_splits)
  then have w1: "sequence_window_inv w1" "rb_sequence b \<in> sequence_window_seen w1"
    and run1: "sw.accepts w (if res = Inr Accepted then [rb_sequence b] else []) w1"
    using sw.accepted [OF Cons.prems(1), of "rb_sequence b" w1]
      sw.duplicate [OF Cons.prems(1), of "rb_sequence b" w1] Cons.prems(1) obs
    by (auto intro: sw.accepts_nil sw.accepts_new sw.accepts_dup)
  have mono: "sequence_window_acknowledged w \<le> sequence_window_acknowledged w1"
    by (rule sw.accepts_acked_mono [OF run1 Cons.prems(1)])
  let ?acc = "if res = Inr Accepted then bt_insert (rb_sequence b) b acc else acc"
  let ?dup = "if res = Inr Accepted then dup else dup + 1"
  have step: "replication_observe_batches c (b # bs) w acc dup =
      replication_observe_batches c bs w1 ?acc ?dup"
    using Cons.prems(2) obs res by auto
  have "\<forall>b \<in> set bs. rb_tick b \<noteq> 0 \<and> length (rb_events b) \<le> rc_max_events_per_batch c \<and>
      rb_sequence b \<noteq> 0 \<and>
      rb_sequence b \<le> sat_add (sequence_window_acknowledged w1) (sw_reorder_window w1)"
    using Cons.prems(2) order_trans [OF _ sat_add_mono [OF mono]] by (auto simp: reorder)
  then obtain new dup' w' where
    run: "replication_observe_batches c bs w1 ?acc ?dup =
        Inr (w', fold (\<lambda>b. bt_insert (rb_sequence b) b) new ?acc, dup')"
    and acc: "sw.accepts w1 (map rb_sequence new) w'" "set new \<subseteq> set bs"
      "rb_sequence ` set bs \<subseteq> sequence_window_seen w'" "sw_reorder_window w' = sw_reorder_window w1"
    using Cons.IH [OF w1(1), of ?acc ?dup] by blast
  let ?new = "(if res = Inr Accepted then [b] else []) @ new"
  have "replication_observe_batches c (b # bs) w acc dup =
      Inr (w', fold (\<lambda>b. bt_insert (rb_sequence b) b) ?new acc, dup')"
    using step run by auto
  moreover have "sw.accepts w (map rb_sequence ?new) w'"
    using sw.accepts_trans [OF run1 acc(1)] by (simp split: if_splits)
  moreover have "rb_sequence b \<in> sequence_window_seen w'"
    using sw.accepts_once [OF acc(1) w1(1)] w1(2) by auto
  ultimately show ?case
    using acc reorder by (intro exI [of _ ?new] exI [of _ dup'] exI [of _ w']) auto
qed

lemma fold_insert_batches:
  fixes bs :: "('i, 's, 'd) replication_batch list"
  defines "m \<equiv> fold (\<lambda>b. bt_insert (rb_sequence b) b) bs []"
  shows "bt_wf m" and "map_of m q = Some b \<Longrightarrow> b \<in> set bs \<and> rb_sequence b = q"
    and "dom (map_of m) = rb_sequence ` set bs"
proof -
  have m: "m = fold (\<lambda>(k, v). bt_insert k v) (map (\<lambda>b. (rb_sequence b, b)) bs) []"
    unfolding m_def by (simp add: fold_map comp_def)
  show "bt_wf m" unfolding m by (rule bt_fold_insert) (rule bt.wf_empty)
  have get: "map_of m = map_of (rev (map (\<lambda>b. (rb_sequence b, b)) bs))"
    unfolding m by (simp add: bt_fold_insert(2) bt.wf_empty)
  show "map_of m q = Some b \<Longrightarrow> b \<in> set bs \<and> rb_sequence b = q"
    unfolding get by (auto dest: map_of_SomeD)
  show "dom (map_of m) = rb_sequence ` set bs"
    unfolding get by (auto simp: dom_map_of_conv_image_fst image_iff)
qed

subsection \<open>The receiver and the log\<close>

definition receiver_log_inv ::
    "('i::linorder \<Rightarrow> 's \<Rightarrow> 'd \<Rightarrow> 's option) \<Rightarrow> ('i, 's, 'd) replication_receiver \<Rightarrow>
     ('i, 's, 'd) replication_batch list \<Rightarrow> bool" where
  "receiver_log_inv apply_delta r log \<longleftrightarrow>
     (let w = rv_sequences r; acked = sequence_window_acknowledged w
      in sequence_window_inv w \<and> sw_reorder_window w = rc_reorder_window (rv_config r) \<and>
         unat acked \<le> length log \<and> bt_wf (rv_entities r) \<and> bt_wf (rv_pending r) \<and>
         world_log apply_delta (rc_max_entities (rv_config r)) (take (unat acked) log) Map.empty =
           Inr (map_of (rv_entities r)) \<and>
         rv_applied_tick r = log_tick log acked \<and>
         (\<forall>q b. map_of (rv_pending r) q = Some b \<longrightarrow> b \<in> set log \<and> rb_sequence b = q) \<and>
         dom (map_of (rv_pending r)) = set (sw_pending w))"

lemma receiver_log_inv_extend:
  "receiver_log_inv apply_delta r log \<Longrightarrow> receiver_log_inv apply_delta r (log @ new)"
  by (auto simp: receiver_log_inv_def Let_def nth_append word_pos_iff)

text \<open>Sequence numbers and positions in the log.\<close>

lemma inclusive_range_log:
  assumes "unat a < 2 ^ 64 - 1"
  shows "inclusive_range (sat_add a 1) b = map of_nat [Suc (unat a) ..< Suc (unat b)]"
  using assms by (simp add: inclusive_range_def unat_sat_add)

lemma log_segment:
  assumes "a \<le> b" and "b \<le> length log"
  shows "map (\<lambda>i. log ! (i - 1)) [Suc a ..< Suc b] = take (b - a) (drop a log)"
  using assms by (intro nth_equalityI) (auto simp del: upt_Suc)

lemma log_lookup:
  assumes log: "log_numbered log"
    and acc: "\<And>q b. map_of accepted q = Some b \<Longrightarrow> b \<in> set log \<and> rb_sequence b = q"
    and pend: "\<And>q b. map_of pending q = Some b \<Longrightarrow> b \<in> set log \<and> rb_sequence b = q"
    and q: "q \<in> dom (map_of accepted) \<union> dom (map_of pending)"
  shows "batch_lookup accepted pending q = Some (log ! (unat q - 1))"
proof -
  obtain b where b: "batch_lookup accepted pending q = Some b" "b \<in> set log" "rb_sequence b = q"
    using q acc [of q] pend [of q]
    by (cases "map_of accepted q") (auto simp: batch_lookup_def)
  then show ?thesis using log_numbered_mem(3) [OF log, of b] by simp
qed

lemma receiver_segment:
  assumes log: "log_numbered log" "sorted (map rb_tick log)"
      "\<forall>b \<in> set log. rb_tick b \<noteq> 0"
    and a: "unat a \<le> unat b" "unat b \<le> length log"
  shows "sorted (log_tick log a # map rb_tick (take (unat b - unat a) (drop (unat a) log)))"
    and "last (log_tick log a # map rb_tick (take (unat b - unat a) (drop (unat a) log))) =
      log_tick log b"
proof -
  let ?seg = "take (unat b - unat a) (drop (unat a) log)"
  have sorted: "sorted (map rb_tick ?seg)"
    using log(2) by (simp add: drop_map [symmetric] take_map [symmetric] sorted_wrt_drop sorted_wrt_take)
  have "log_tick log a \<le> rb_tick x" if x: "x \<in> set ?seg" for x
  proof (cases "a = 0")
    case False
    obtain i where i: "x = log ! (unat a + i)" "unat a + i < length log"
      using x by (auto simp: in_set_conv_nth)
    have "map rb_tick log ! (unat a - 1) \<le> map rb_tick log ! (unat a + i)"
      using log(2) i(2) by (intro sorted_nth_mono) auto
    then show ?thesis using i False by simp
  qed simp
  with sorted show "sorted (log_tick log a # map rb_tick ?seg)" by auto
  show "last (log_tick log a # map rb_tick ?seg) = log_tick log b"
  proof (cases "unat a = unat b")
    case True
    then have "a = b" by (rule word_eqI_unat)
    then show ?thesis by simp
  next
    case False
    then have "b \<noteq> 0" using a(1) by auto
    have "?seg \<noteq> []" using False a by auto
    then have "last (log_tick log a # map rb_tick ?seg) = rb_tick (last ?seg)"
      by (simp add: last_map)
    also have "last ?seg = log ! (unat b - 1)"
      using False a \<open>?seg \<noteq> []\<close> by (subst last_conv_nth) auto
    finally show ?thesis using \<open>b \<noteq> 0\<close> by simp
  qed
qed

text \<open>
  What \<open>receive\<close> leaves in the buffer of reordered batches: the new window's pending
  sequences, each with its batch of the log.
\<close>

lemma receiver_pending_next:
  assumes r: "receiver_log_inv apply_delta r log"
    and run: "sw.accepts (rv_sequences r) (map rb_sequence new) w'"
    and log: "log_numbered log" and new: "set new \<subseteq> set log"
    and q_range: "seqs = map of_nat [Suc (unat (sequence_window_acknowledged (rv_sequences r))) ..<
        Suc (unat (sequence_window_acknowledged w'))]"
    and accepted: "bt_wf accepted" "dom (map_of accepted) = rb_sequence ` set new"
      "\<And>q b. map_of accepted q = Some b \<Longrightarrow> b \<in> set new \<and> rb_sequence b = q"
  defines "pending' \<equiv> fold (\<lambda>(k, v). bt_insert k v) (filter (\<lambda>p. fst p \<notin> set seqs) accepted)
      (map_retain (\<lambda>q _. sequence_window_acknowledged w' < q) (rv_pending r))"
  shows "bt_wf pending'"
    and "\<And>q b. map_of pending' q = Some b \<Longrightarrow> b \<in> set log \<and> rb_sequence b = q"
    and "dom (map_of pending') = set (sw_pending w')"
proof -
  let ?w = "rv_sequences r" and ?rest = "filter (\<lambda>p. fst p \<notin> set seqs) accepted"
  let ?kept = "map_retain (\<lambda>q _. sequence_window_acknowledged w' < q) (rv_pending r)"
  have inv: "sequence_window_inv ?w" and wf: "bt_wf (rv_pending r)"
    and pend: "\<And>q b. map_of (rv_pending r) q = Some b \<Longrightarrow> b \<in> set log \<and> rb_sequence b = q"
    and dom_pend: "dom (map_of (rv_pending r)) = set (sw_pending ?w)"
    using r by (auto simp: receiver_log_inv_def Let_def)
  note once = sw.accepts_once [OF run inv]
  have dist: "distinct (map fst ?rest)"
    by (intro distinct_keys_filter bt.wf_distinct accepted(1))
  have kept: "bt_wf ?kept" by (rule bt_wf_retain [OF wf])
  show "bt_wf pending'" unfolding pending'_def by (rule bt_fold_insert(1) [OF kept])
  have rest_get: "map_of ?rest q = (if q \<in> set seqs then None else map_of accepted q)" for q
    by (simp add: map_of_filter_keys [where P = "\<lambda>q. q \<notin> set seqs"])
  have kept_get: "map_of ?kept q = (if sequence_window_acknowledged w' < q then map_of (rv_pending r) q else None)" for q
    using bt.wf_distinct [OF wf] by (simp add: map_of_retain split: option.splits)
  have get: "map_of pending' q = (case map_of ?rest q of None \<Rightarrow> map_of ?kept q | Some b \<Rightarrow> Some b)" for q
    unfolding pending'_def bt_extend_distinct [OF kept dist] by (simp add: map_add_def)
  show "b \<in> set log \<and> rb_sequence b = q" if "map_of pending' q = Some b" for q b
    using that accepted(3) [of q b] pend [of q b] new
    by (auto simp: get rest_get kept_get split: option.splits if_splits)
  have seqs: "q \<in> set seqs \<longleftrightarrow> sequence_window_acknowledged ?w < q \<and> q \<le> sequence_window_acknowledged w'"
    for q
  proof -
    have "q \<in> set seqs \<longleftrightarrow> (\<exists>i. q = of_nat i \<and> unat (sequence_window_acknowledged ?w) < i \<and>
        i \<le> unat (sequence_window_acknowledged w'))"
      by (auto simp: q_range simp del: upt_Suc)
    also have "\<dots> \<longleftrightarrow> unat (sequence_window_acknowledged ?w) < unat q \<and>
        unat q \<le> unat (sequence_window_acknowledged w')"
    proof safe
      fix i assume "i \<le> unat (sequence_window_acknowledged w')" and
        "unat (sequence_window_acknowledged ?w) < i"
      moreover from this have "unat (of_nat i :: u64) = i"
        using unat_lt2p [of "sequence_window_acknowledged w'"] by (intro unat_of_nat_u64) simp
      ultimately show "unat (sequence_window_acknowledged ?w) < unat (of_nat i :: u64)"
        and "unat (of_nat i :: u64) \<le> unat (sequence_window_acknowledged w')" by simp_all
    qed (auto intro!: exI [of _ "unat q"])
    finally show ?thesis by (simp add: word_less_nat_alt word_le_nat_alt)
  qed
  have fresh: "sequence_window_acknowledged ?w < rb_sequence b" if "b \<in> set new" for b
  proof (rule ccontr)
    assume "\<not> ?thesis"
    moreover have "0 < rb_sequence b"
      using log_numbered_mem(1) [OF log] that new by (auto simp: word_less_nat_alt)
    ultimately have "rb_sequence b \<in> sequence_window_seen ?w"
      by (intro sw.contiguous [OF inv]) simp_all
    then show False using once that by auto
  qed
  have mono: "sequence_window_acknowledged ?w \<le> sequence_window_acknowledged w'"
    by (rule sw.accepts_acked_mono [OF run inv])
  have dom': "q \<in> dom (map_of pending') \<longleftrightarrow> q \<in> rb_sequence ` set new \<and> q \<notin> set seqs \<or>
      q \<in> set (sw_pending ?w) \<and> sequence_window_acknowledged w' < q" for q
    unfolding accepted(2) [symmetric] dom_pend [symmetric]
    by (auto simp: get rest_get kept_get domIff split: option.splits if_splits)
  have window: "q \<in> set (sw_pending v) \<longleftrightarrow>
      q \<in> sequence_window_seen v \<and> sequence_window_acknowledged v < q"
    if "sequence_window_inv v" for v q
    using that by (auto simp: sequence_window_inv_def sequence_window_seen_def sequences_seen_def
        sequence_window_acknowledged_def)
  have "q \<in> dom (map_of pending') \<longleftrightarrow> q \<in> set (sw_pending w')" for q
    unfolding dom' seqs window [OF inv] window [OF conjunct1 [OF once]]
    using once mono fresh by auto
  then show "dom (map_of pending') = set (sw_pending w')" by blast
qed

lemma receiver_log_inv_fields:
  assumes "receiver_log_inv apply_delta r log"
  shows "sequence_window_inv (rv_sequences r)"
    and "sw_reorder_window (rv_sequences r) = rc_reorder_window (rv_config r)"
    and "unat (sequence_window_acknowledged (rv_sequences r)) \<le> length log"
    and "bt_wf (rv_entities r)"
    and "world_log apply_delta (rc_max_entities (rv_config r))
        (take (unat (sequence_window_acknowledged (rv_sequences r))) log) Map.empty =
        Inr (map_of (rv_entities r))"
    and "rv_applied_tick r = log_tick log (sequence_window_acknowledged (rv_sequences r))"
    and "map_of (rv_pending r) q = Some b \<Longrightarrow> b \<in> set log \<and> rb_sequence b = q"
    and "dom (map_of (rv_pending r)) = set (sw_pending (rv_sequences r))"
  using assms by (auto simp: receiver_log_inv_def Let_def)

text \<open>First stage: every batch of the packet is observed without an error.\<close>

lemma receiver_observe:
  assumes r: "receiver_log_inv apply_delta r log" and log: "log_numbered log"
      "\<forall>b \<in> set log. rb_tick b \<noteq> 0 \<and> length (rb_events b) \<le> rc_max_events_per_batch (rv_config r)"
    and reach: "length log \<le> unat (sat_add (sequence_window_acknowledged (rv_sequences r))
        (rc_reorder_window (rv_config r)))"
    and packet: "set batches \<subseteq> set log"
  shows "\<exists>new dup' w'.
      replication_observe_batches (rv_config r) (sort_key rb_sequence batches) (rv_sequences r) [] 0 =
        Inr (w', fold (\<lambda>b. bt_insert (rb_sequence b) b) new [], dup') \<and>
      sw.accepts (rv_sequences r) (map rb_sequence new) w' \<and> set new \<subseteq> set log \<and>
      rb_sequence ` set batches \<subseteq> sequence_window_seen w' \<and>
      sw_reorder_window w' = rc_reorder_window (rv_config r)"
proof -
  let ?w = "rv_sequences r" and ?bs = "sort_key rb_sequence batches"
  note inv = receiver_log_inv_fields [OF r]
  have "\<forall>b \<in> set ?bs. rb_tick b \<noteq> 0 \<and> length (rb_events b) \<le> rc_max_events_per_batch (rv_config r) \<and>
      rb_sequence b \<noteq> 0 \<and> rb_sequence b \<le> sat_add (sequence_window_acknowledged ?w) (sw_reorder_window ?w)"
  proof
    fix b assume "b \<in> set ?bs"
    then have b: "b \<in> set log" using packet by auto
    then show "rb_tick b \<noteq> 0 \<and> length (rb_events b) \<le> rc_max_events_per_batch (rv_config r) \<and>
      rb_sequence b \<noteq> 0 \<and> rb_sequence b \<le> sat_add (sequence_window_acknowledged ?w) (sw_reorder_window ?w)"
      using log(2) log_numbered_mem(1,2) [OF log(1) b] reach
      by (auto simp: word_le_nat_alt inv(2))
  qed
  from replication_observe_ok [OF inv(1) this, of "[]" 0] packet show ?thesis
    unfolding set_sort inv(2) by (meson order_trans)
qed

text \<open>Second stage: every newly contiguous sequence has its batch of the log at hand.\<close>

lemma receiver_contiguous:
  assumes r: "receiver_log_inv apply_delta r log" and log: "log_numbered log"
    and run: "sw.accepts (rv_sequences r) (map rb_sequence new) w'" and new: "set new \<subseteq> set log"
    and acc: "dom (map_of accepted) = rb_sequence ` set new"
      "\<And>q b. map_of accepted q = Some b \<Longrightarrow> b \<in> set new \<and> rb_sequence b = q"
  defines "a \<equiv> unat (sequence_window_acknowledged (rv_sequences r))"
    and "b \<equiv> unat (sequence_window_acknowledged w')"
  shows "a \<le> b" and "b \<le> length log"
    and "list_all2 (\<lambda>q x. batch_lookup accepted (rv_pending r) q = Some x)
      (map of_nat [Suc a ..< Suc b]) (take (b - a) (drop a log))"
    and "distinct (map of_nat [Suc a ..< Suc b] :: u64 list)"
proof -
  let ?w = "rv_sequences r"
  note inv = receiver_log_inv_fields [OF r]
  note once = sw.accepts_once [OF run inv(1)]
  show a_b: "a \<le> b"
    using sw.accepts_acked_mono [OF run inv(1)] by (simp add: a_def b_def word_le_nat_alt)
  have known: "q \<in> dom (map_of accepted) \<union> dom (map_of (rv_pending r)) \<or> unat q \<le> a"
    if "q \<in> sequence_window_seen w'" for q
    using that once
    by (auto simp: acc(1) inv(8) sequence_window_seen_def [of ?w] sequences_seen_def a_def
        sequence_window_acknowledged_def word_le_nat_alt)
  have in_log: "b \<in> set log \<and> rb_sequence b = q"
    if "map_of accepted q = Some b \<or> map_of (rv_pending r) q = Some b" for q b
    using that acc(2) inv(7) new by blast
  show b_log: "b \<le> length log"
  proof (cases "b = 0")
    case False
    then have "sequence_window_acknowledged w' \<in> sequence_window_seen w'"
      by (intro sw.contiguous [OF conjunct1 [OF once]]) (auto simp: b_def word_less_nat_alt)
    from known [OF this] show ?thesis
      using in_log log_numbered_mem(2) [OF log] inv(3) by (force simp: a_def b_def)
  qed simp
  have small: "unat (of_nat i :: u64) = i" if "i < Suc b" for i
    using that unat_lt2p [of "sequence_window_acknowledged w'"]
    by (intro unat_of_nat_u64) (simp add: b_def)
  have "batch_lookup accepted (rv_pending r) (of_nat i) = Some (log ! (i - 1))"
    if i: "i \<in> set [Suc a ..< Suc b]" for i
  proof -
    have q: "unat (of_nat i :: u64) = i" "a < i" "i \<le> b" using i small by auto
    then have "of_nat i \<in> sequence_window_seen w'"
      by (intro sw.contiguous [OF conjunct1 [OF once]])
        (auto simp: b_def word_less_nat_alt word_le_nat_alt)
    from known [OF this] q show ?thesis
      using log_lookup [OF log, where accepted = accepted and q = "of_nat i"] in_log by auto
  qed
  then show "list_all2 (\<lambda>q x. batch_lookup accepted (rv_pending r) q = Some x)
      (map of_nat [Suc a ..< Suc b]) (take (b - a) (drop a log))"
    unfolding log_segment [OF a_b b_log, symmetric] list.rel_map
    by (intro list.rel_refl_strong) blast
  show "distinct (map of_nat [Suc a ..< Suc b] :: u64 list)"
    unfolding distinct_map using small
    by (auto simp: inj_on_def simp del: upt_Suc) metis
qed

text \<open>Third stage: applying those batches computes the meaning of the longer prefix.\<close>

lemma receiver_apply:
  assumes r: "receiver_log_inv apply_delta r log"
    and log: "log_numbered log" "sorted (map rb_tick log)" "\<forall>x \<in> set log. rb_tick x \<noteq> 0"
    and world: "world_log apply_delta (rc_max_entities (rv_config r)) log Map.empty = Inr w"
    and le: "unat (sequence_window_acknowledged (rv_sequences r)) \<le> unat b" "unat b \<le> length log"
    and lookup: "list_all2 (\<lambda>q x. batch_lookup accepted (rv_pending r) q = Some x) seqs
        (take (unat b - unat (sequence_window_acknowledged (rv_sequences r)))
          (drop (unat (sequence_window_acknowledged (rv_sequences r))) log))"
    and dist: "distinct seqs"
  shows "\<exists>changes n events. replication_apply_batches apply_delta r seqs accepted (rv_applied_tick r) []
        (length (rv_entities r)) 0 0 =
      Inr (filter (\<lambda>p. fst p \<notin> set seqs) accepted, log_tick log b, changes, n, events) \<and>
    bt_wf (commit_changes changes (rv_entities r)) \<and>
    world_log apply_delta (rc_max_entities (rv_config r)) (take (unat b) log) Map.empty =
      Inr (map_of (commit_changes changes (rv_entities r)))"
proof -
  note inv = receiver_log_inv_fields [OF r]
  let ?a = "sequence_window_acknowledged (rv_sequences r)" and ?limit = "rc_max_entities (rv_config r)"
  let ?seg = "take (unat b - unat ?a) (drop (unat ?a) log)"
  have "take (unat b) log = take (unat ?a) log @ ?seg"
    using le(1) by (metis le_add_diff_inverse take_add)
  moreover obtain v where v: "world_log apply_delta ?limit (take (unat b) log) Map.empty = Inr v"
    using world_log_prefix [of apply_delta ?limit "take (unat b) log" "drop (unat b) log"] world
    by auto
  ultimately have world': "world_log apply_delta ?limit ?seg (map_of (rv_entities r)) = Inr v"
    using inv(5) by (simp add: world_log_append)
  have rel: "staged_rel (rv_entities r) ([], length (rv_entities r)) (map_of (rv_entities r))"
    by (simp add: staged_rel_def bt.wf_empty bt.length_dom [OF inv(4)] staged_entity_def fun_eq_iff)
  have ticks: "sorted (rv_applied_tick r # map rb_tick ?seg)"
      "last (rv_applied_tick r # map rb_tick ?seg) = log_tick log b"
    unfolding inv(6) using receiver_segment [OF log le] by auto
  show ?thesis
    using replication_apply_batches_world [OF lookup dist ticks(1) rel world', of 0 0]
      commit_changes_staged [OF inv(4)] v
    unfolding ticks(2) by auto
qed

text \<open>A packet of batches from the log is always accepted, and moves the receiver along it.\<close>

lemma replication_receive_ok:
  assumes r: "receiver_log_inv apply_delta r log"
    and log: "log_numbered log" "sorted (map rb_tick log)" "Suc (length log) < 2 ^ 64"
      "\<forall>b \<in> set log. rb_tick b \<noteq> 0 \<and> length (rb_events b) \<le> rc_max_events_per_batch (rv_config r)"
    and world: "world_log apply_delta (rc_max_entities (rv_config r)) log Map.empty = Inr w"
    and reach: "length log \<le> unat (sat_add (sequence_window_acknowledged (rv_sequences r))
        (rc_reorder_window (rv_config r)))"
    and packet: "set (rp_batches packet) \<subseteq> set log"
      "length (rp_batches packet) \<le> rc_redundancy (rv_config r)"
  shows "\<exists>report r'. replication_receiver_receive apply_delta r packet = (Inr report, r') \<and>
    receiver_log_inv apply_delta r' log \<and> rv_config r' = rv_config r \<and>
    rrr_acknowledgement report = \<lparr>ra_acknowledged_sequence =
        sequence_window_acknowledged (rv_sequences r'),
      ra_applied_tick = log_tick log (sequence_window_acknowledged (rv_sequences r'))\<rparr> \<and>
    sequence_window_acknowledged (rv_sequences r) \<le> sequence_window_acknowledged (rv_sequences r') \<and>
    rb_sequence ` set (rp_batches packet) \<subseteq> sequence_window_seen (rv_sequences r')"
proof -
  let ?w = "rv_sequences r"
  note inv = receiver_log_inv_fields [OF r]
  obtain new dup' w' where
    obs: "replication_observe_batches (rv_config r) (sort_key rb_sequence (rp_batches packet)) ?w [] 0 =
        Inr (w', fold (\<lambda>b. bt_insert (rb_sequence b) b) new [], dup')"
    and run: "sw.accepts ?w (map rb_sequence new) w'" and new: "set new \<subseteq> set log"
    and seen: "rb_sequence ` set (rp_batches packet) \<subseteq> sequence_window_seen w'"
    and reorder: "sw_reorder_window w' = rc_reorder_window (rv_config r)"
    using receiver_observe [OF r log(1,4) reach packet(1)] by blast
  define accepted where "accepted = fold (\<lambda>b. bt_insert (rb_sequence b) b) new []"
  have acc: "bt_wf accepted" "dom (map_of accepted) = rb_sequence ` set new"
    "\<And>q b. map_of accepted q = Some b \<Longrightarrow> b \<in> set new \<and> rb_sequence b = q"
    unfolding accepted_def
    by (rule fold_insert_batches(1), rule fold_insert_batches(3), erule fold_insert_batches(2))
  let ?a = "sequence_window_acknowledged ?w" and ?b = "sequence_window_acknowledged w'"
  define seqs :: "u64 list" where "seqs = map of_nat [Suc (unat ?a) ..< Suc (unat ?b)]"
  note cont = receiver_contiguous [OF r log(1) run new acc(2,3), folded seqs_def]
  have range: "inclusive_range (sat_add ?a 1) ?b = seqs"
    unfolding seqs_def using inv(3) log(3) by (intro inclusive_range_log) simp
  obtain changes n events where
    applied: "replication_apply_batches apply_delta r seqs accepted (rv_applied_tick r) []
        (length (rv_entities r)) 0 0 =
      Inr (filter (\<lambda>p. fst p \<notin> set seqs) accepted, log_tick log ?b, changes, n, events)"
    and commit: "bt_wf (commit_changes changes (rv_entities r))"
      "world_log apply_delta (rc_max_entities (rv_config r)) (take (unat ?b) log) Map.empty =
        Inr (map_of (commit_changes changes (rv_entities r)))"
    using receiver_apply [OF r log(1,2) _ world cont] log(4) by blast
  let ?r' = "r\<lparr>rv_entities := commit_changes changes (rv_entities r),
      rv_pending := fold (\<lambda>(k, v). bt_insert k v) (filter (\<lambda>p. fst p \<notin> set seqs) accepted)
        (map_retain (\<lambda>q _. ?b < q) (rv_pending r)),
      rv_sequences := w', rv_applied_tick := log_tick log ?b\<rparr>"
  have "replication_receiver_receive apply_delta r packet =
      (Inr \<lparr>rrr_applied_batches = n, rrr_applied_events = events, rrr_duplicate_batches = dup',
        rrr_acknowledgement = \<lparr>ra_acknowledged_sequence = ?b, ra_applied_tick = log_tick log ?b\<rparr>\<rparr>, ?r')"
    using packet(2) obs applied
    by (simp add: replication_receiver_receive_def Let_def accepted_def [symmetric] range)
  moreover have "receiver_log_inv apply_delta ?r' log"
    using sw.accepts_once [OF run inv(1)] reorder cont(2) commit
      receiver_pending_next [OF r run log(1) new seqs_def acc]
    by (simp add: receiver_log_inv_def Let_def)
  ultimately show ?thesis
    using cont(1) seen by (auto simp: word_le_nat_alt)
qed

subsection \<open>The invariant of the system\<close>

definition repl_system_inv ::
    "('i::linorder \<Rightarrow> 's \<Rightarrow> 'd \<Rightarrow> 's option) \<Rightarrow> replication_config \<Rightarrow>
     ('i, 's, 'd) repl_system \<Rightarrow> bool" where
  "repl_system_inv apply_delta config y \<longleftrightarrow>
     (let s = ys_sender y; r = ys_receiver y; log = ys_log y;
          acked = sequence_window_acknowledged (rv_sequences r)
      in sender_log_inv s log \<and> world_log_inv apply_delta s log \<and>
         receiver_log_inv apply_delta r log \<and> rs_config s = config \<and> rv_config r = config \<and>
         rs_acknowledged_sequence s \<le> acked \<and>
         (\<forall>packet \<in> set (ys_packets y). set (rp_batches packet) \<subseteq> set log \<and>
            length (rp_batches packet) \<le> rc_redundancy config) \<and>
         (\<forall>a \<in> set (ys_acks y). ra_acknowledged_sequence a \<le> acked \<and>
            ra_applied_tick a = log_tick log (ra_acknowledged_sequence a)))"

lemma replication_config_bounds:
  assumes "replication_config_validate c = Inr ()"
  shows "0 < rc_redundancy c" and "rc_history_capacity c \<le> unat (rc_reorder_window c)"
    and "0 < rc_reorder_window c"
  using assms
  by (auto simp: replication_config_validate_def word_less_nat_alt u64_try_from_Some_iff not_less
      word_gt_0 split: if_splits option.splits)

lemma repl_system_inv_start:
  assumes s: "replication_sender_new config = Inr s" and r: "replication_receiver_new config = Inr r"
  shows "repl_system_inv apply_delta config
    \<lparr>ys_sender = s, ys_receiver = r, ys_packets = [], ys_acks = [], ys_log = []\<rparr>"
proof -
  have valid: "replication_config_validate config = Inr ()"
    using s by (auto simp: replication_sender_new_def split: sum.splits)
  then have "sender_log_inv s []" "world_log_inv apply_delta s []" "rs_config s = config"
      "rs_acknowledged_sequence s = 0"
    using s by (auto simp: replication_sender_new_def sender_log_inv_def world_log_inv_def
        log_numbered_def bt.wf_empty world_shows_def)
  moreover obtain w where w: "sequence_window_with_acknowledged (rc_reorder_window config) 0 = Inr w"
    and r': "r = \<lparr>rv_config = config, rv_sequences = w, rv_pending = [], rv_entities = [],
        rv_applied_tick = 0\<rparr>"
    using r valid by (auto simp: replication_receiver_new_def sequence_window_new_def split: sum.splits)
  have "sw_pending w = []"
    using w by (auto simp: sequence_window_with_acknowledged_def split: if_splits)
  with sequence_window_with_acknowledged_inv [OF w] have "receiver_log_inv apply_delta r []"
    by (simp add: r' receiver_log_inv_def sequence_window_acknowledged_def bt.wf_empty)
  ultimately show ?thesis
    by (simp add: repl_system_inv_def r' Let_def)
qed

text \<open>The sender never runs ahead of the receiver's reorder window.\<close>

lemma repl_system_inv_reach:
  assumes "repl_system_inv apply_delta config y"
  shows "length (ys_log y) \<le> unat (sat_add
      (sequence_window_acknowledged (rv_sequences (ys_receiver y))) (rc_reorder_window config))"
    and "Suc (length (ys_log y)) < 2 ^ 64"
proof -
  let ?s = "ys_sender y"
  have s: "sender_log_inv ?s (ys_log y)" "rs_config ?s = config"
    and ack: "rs_acknowledged_sequence ?s \<le> sequence_window_acknowledged (rv_sequences (ys_receiver y))"
    using assms by (auto simp: repl_system_inv_def Let_def)
  have "unat (rs_next_sequence ?s) = Suc (length (ys_log y))"
    using s by (simp add: sender_log_inv_def)
  then show small: "Suc (length (ys_log y)) < 2 ^ 64"
    using unat_lt2p [of "rs_next_sequence ?s"] by simp
  have "length (ys_log y) - unat (rs_acknowledged_sequence ?s) \<le> rc_history_capacity config"
    using s by (auto simp: sender_log_inv_def)
  moreover have "rc_history_capacity config \<le> unat (rc_reorder_window config)"
    using s by (intro replication_config_bounds) (simp add: sender_log_inv_def)
  moreover have "unat (rs_acknowledged_sequence ?s) \<le>
      unat (sequence_window_acknowledged (rv_sequences (ys_receiver y)))"
    using ack by (simp add: word_le_nat_alt)
  ultimately show "length (ys_log y) \<le> unat (sat_add
      (sequence_window_acknowledged (rv_sequences (ys_receiver y))) (rc_reorder_window config))"
    unfolding unat_sat_add using small by simp
qed

lemma repl_system_receive:
  assumes inv: "repl_system_inv apply_delta config y"
    and packet: "set (rp_batches packet) \<subseteq> set (ys_log y)"
      "length (rp_batches packet) \<le> rc_redundancy config"
  shows "\<exists>report r'. replication_receiver_receive apply_delta (ys_receiver y) packet = (Inr report, r') \<and>
    repl_system_inv apply_delta config
      (y\<lparr>ys_receiver := r', ys_acks := ys_acks y @ [rrr_acknowledgement report]\<rparr>) \<and>
    rrr_acknowledgement report = \<lparr>ra_acknowledged_sequence =
        sequence_window_acknowledged (rv_sequences r'),
      ra_applied_tick = log_tick (ys_log y) (sequence_window_acknowledged (rv_sequences r'))\<rparr> \<and>
    rb_sequence ` set (rp_batches packet) \<subseteq> sequence_window_seen (rv_sequences r')"
proof -
  let ?log = "ys_log y" and ?r = "ys_receiver y"
  have s: "sender_log_inv (ys_sender y) ?log" "rs_config (ys_sender y) = config"
    and r: "receiver_log_inv apply_delta ?r ?log" "rv_config ?r = config"
    using inv by (auto simp: repl_system_inv_def Let_def)
  obtain w where w: "world_log apply_delta (rc_max_entities config) ?log Map.empty = Inr w"
    using inv by (auto simp: repl_system_inv_def Let_def world_log_inv_def)
  have log: "log_numbered ?log" "sorted (map rb_tick ?log)"
      "\<forall>b \<in> set ?log. rb_tick b \<noteq> 0 \<and> length (rb_events b) \<le> rc_max_events_per_batch (rv_config ?r)"
    using s r(2) by (auto simp: sender_log_inv_def)
  obtain report r' where run: "replication_receiver_receive apply_delta ?r packet = (Inr report, r')"
    and r': "receiver_log_inv apply_delta r' ?log" "rv_config r' = rv_config ?r"
    and ack: "rrr_acknowledgement report = \<lparr>ra_acknowledged_sequence =
        sequence_window_acknowledged (rv_sequences r'),
      ra_applied_tick = log_tick ?log (sequence_window_acknowledged (rv_sequences r'))\<rparr>"
    and mono: "sequence_window_acknowledged (rv_sequences ?r) \<le>
        sequence_window_acknowledged (rv_sequences r')"
    and seen: "rb_sequence ` set (rp_batches packet) \<subseteq> sequence_window_seen (rv_sequences r')"
    using replication_receive_ok [OF r(1) log(1,2) repl_system_inv_reach(2) [OF inv] log(3) w [folded r(2)]
        repl_system_inv_reach(1) [OF inv, folded r(2)] packet [folded r(2)]] by blast
  have "repl_system_inv apply_delta config
      (y\<lparr>ys_receiver := r', ys_acks := ys_acks y @ [rrr_acknowledgement report]\<rparr>)"
    using inv r' ack order_trans [OF _ mono] by (auto simp: repl_system_inv_def Let_def)
  with run ack seen show ?thesis by blast
qed

lemma repl_system_acknowledge:
  assumes inv: "repl_system_inv apply_delta config y" and a: "a \<in> set (ys_acks y)"
  shows "\<exists>n s'. replication_sender_acknowledge (ys_sender y) a = (Inr n, s') \<and>
    repl_system_inv apply_delta config (y\<lparr>ys_sender := s'\<rparr>) \<and>
    rs_acknowledged_sequence s' =
      max (rs_acknowledged_sequence (ys_sender y)) (ra_acknowledged_sequence a) \<and>
    rs_projected s' = rs_projected (ys_sender y)"
proof -
  let ?log = "ys_log y" and ?acked = "sequence_window_acknowledged (rv_sequences (ys_receiver y))"
  have s: "sender_log_inv (ys_sender y) ?log" and q: "ra_acknowledged_sequence a \<le> ?acked"
      "ra_applied_tick a = log_tick ?log (ra_acknowledged_sequence a)"
    and r: "receiver_log_inv apply_delta (ys_receiver y) ?log"
    using inv a by (auto simp: repl_system_inv_def Let_def)
  have "unat (ra_acknowledged_sequence a) \<le> length ?log"
    using q(1) receiver_log_inv_fields(3) [OF r] by (simp add: word_le_nat_alt)
  from replication_acknowledge_log [OF s this q(2)] obtain n s' where
    run: "replication_sender_acknowledge (ys_sender y) a = (Inr n, s')"
    and s': "sender_log_inv s' ?log" "rs_projected s' = rs_projected (ys_sender y)"
      "rs_config s' = rs_config (ys_sender y)"
      "rs_acknowledged_sequence s' =
        max (rs_acknowledged_sequence (ys_sender y)) (ra_acknowledged_sequence a)"
    by blast
  have "repl_system_inv apply_delta config (y\<lparr>ys_sender := s'\<rparr>)"
    using inv s' q(1) by (auto simp: repl_system_inv_def Let_def world_log_inv_def)
  with run s' show ?thesis by blast
qed

lemma repl_system_packet:
  assumes "repl_system_inv apply_delta config y"
  shows "set (rp_batches (replication_sender_packet (ys_sender y))) \<subseteq> set (ys_log y)"
    and "length (rp_batches (replication_sender_packet (ys_sender y))) \<le> rc_redundancy config"
    and "rs_pending (ys_sender y) \<noteq> [] \<Longrightarrow>
      hd (rs_pending (ys_sender y)) \<in> set (rp_batches (replication_sender_packet (ys_sender y)))"
proof -
  have s: "sender_log_inv (ys_sender y) (ys_log y)" and config: "rs_config (ys_sender y) = config"
    using assms by (auto simp: repl_system_inv_def Let_def)
  have red: "0 < rc_redundancy (rs_config (ys_sender y))"
    using s by (intro replication_config_bounds) (simp add: sender_log_inv_def)
  note packet = replication_packet_batches [OF red]
  have "set (rs_pending (ys_sender y)) \<subseteq> set (ys_log y)"
    using s set_drop_subset by (auto simp: sender_log_inv_def dest: in_set_dropD)
  with packet(1) show "set (rp_batches (replication_sender_packet (ys_sender y))) \<subseteq> set (ys_log y)"
    by blast
  show "length (rp_batches (replication_sender_packet (ys_sender y))) \<le> rc_redundancy config"
    using packet(2) by (simp add: config)
  show "rs_pending (ys_sender y) \<noteq> [] \<Longrightarrow>
      hd (rs_pending (ys_sender y)) \<in> set (rp_batches (replication_sender_packet (ys_sender y)))"
    by (rule packet(3))
qed

context delta_codec
begin

lemma repl_system_update:
  assumes inv: "repl_system_inv apply_delta config y"
    and agree: "versions_identify (rs_projected (ys_sender y)) visible"
    and run: "replication_sender_update encode_delta (ys_sender y) tick visible = (Inr n, s')"
  shows "repl_system_inv apply_delta config (y\<lparr>ys_sender := s',
      ys_log := ys_log y @ drop (length (rs_pending (ys_sender y))) (rs_pending s')\<rparr>)"
proof -
  let ?new = "drop (length (rs_pending (ys_sender y))) (rs_pending s')"
  have s: "sender_log_inv (ys_sender y) (ys_log y)" "world_log_inv apply_delta (ys_sender y) (ys_log y)"
    and r: "receiver_log_inv apply_delta (ys_receiver y) (ys_log y)"
    using inv by (auto simp: repl_system_inv_def Let_def)
  have acked: "unat (sequence_window_acknowledged (rv_sequences (ys_receiver y))) \<le> length (ys_log y)"
    by (rule receiver_log_inv_fields(3) [OF r])
  have "ra_applied_tick a = log_tick (ys_log y @ ?new) (ra_acknowledged_sequence a)"
    if a: "a \<in> set (ys_acks y)" for a
  proof -
    have "unat (ra_acknowledged_sequence a) \<le> length (ys_log y)"
        "ra_applied_tick a = log_tick (ys_log y) (ra_acknowledged_sequence a)"
      using inv a acked by (auto simp: repl_system_inv_def Let_def word_le_nat_alt)
    then show ?thesis by (auto simp: nth_append word_pos_iff)
  qed
  then show ?thesis
    using inv sender_log_inv_update [OF s(1) run] world_log_inv_update [OF s agree run]
      receiver_log_inv_extend [OF r, of ?new]
    by (auto simp: repl_system_inv_def Let_def)
qed

lemma repl_step_inv:
  "repl_step encode_delta apply_delta y z \<Longrightarrow> repl_system_inv apply_delta config y \<Longrightarrow>
   repl_system_inv apply_delta config z"
proof (induction rule: repl_step.induct)
  case (repl_update y visible tick n s')
  then show ?case by (intro repl_system_update)
next
  case (repl_force y)
  then show ?case
    by (auto simp: repl_system_inv_def Let_def replication_sender_force_keyframes_def
        sender_log_inv_def world_log_inv_def)
next
  case (repl_send y)
  then show ?case
    using repl_system_packet [OF repl_send] by (simp add: repl_system_inv_def Let_def)
next
  case (repl_lose y i)
  then show ?case
    by (auto simp: repl_system_inv_def Let_def dest: in_set_takeD in_set_dropD)
next
  case (repl_receive packet y result r')
  then have "set (rp_batches packet) \<subseteq> set (ys_log y)"
      "length (rp_batches packet) \<le> rc_redundancy config"
    by (auto simp: repl_system_inv_def Let_def)
  from repl_system_receive [OF repl_receive(3) this] repl_receive(2) show ?case by auto
next
  case (repl_acknowledge a y result s')
  from repl_system_acknowledge [OF repl_acknowledge(3,1)] repl_acknowledge(2) show ?case by auto
qed

lemma repl_reachable_inv:
  "repl_reachable encode_delta apply_delta config y \<Longrightarrow> repl_system_inv apply_delta config y"
  by (induction rule: repl_reachable.induct) (blast intro: repl_system_inv_start repl_step_inv)+

end

subsection \<open>Lossless rounds\<close>

text \<open>One packet sent, delivered and acknowledged without a loss.\<close>

definition repl_round ::
    "('i::linorder \<Rightarrow> 's \<Rightarrow> 'd \<Rightarrow> 's option) \<Rightarrow> ('i, 's, 'd) repl_system \<Rightarrow>
     ('i, 's, 'd) repl_system" where
  "repl_round apply_delta y =
     (case replication_receiver_receive apply_delta (ys_receiver y)
             (replication_sender_packet (ys_sender y)) of
        (Inl _, r') \<Rightarrow> y\<lparr>ys_receiver := r'\<rparr>
      | (Inr report, r') \<Rightarrow>
          y\<lparr>ys_receiver := r', ys_acks := ys_acks y @ [rrr_acknowledgement report],
            ys_sender := snd (replication_sender_acknowledge (ys_sender y)
              (rrr_acknowledgement report))\<rparr>)"

lemma repl_round_progress:
  assumes inv: "repl_system_inv apply_delta config y"
  shows "repl_system_inv apply_delta config (repl_round apply_delta y)"
    and "rs_projected (ys_sender (repl_round apply_delta y)) = rs_projected (ys_sender y)"
    and "ys_log (repl_round apply_delta y) = ys_log y"
    and "length (rs_pending (ys_sender (repl_round apply_delta y))) \<le>
      length (rs_pending (ys_sender y)) - 1"
proof -
  let ?s = "ys_sender y" and ?p = "replication_sender_packet (ys_sender y)"
  note packet = repl_system_packet [OF inv]
  obtain report r' where run: "replication_receiver_receive apply_delta (ys_receiver y) ?p = (Inr report, r')"
    and inv1: "repl_system_inv apply_delta config
      (y\<lparr>ys_receiver := r', ys_acks := ys_acks y @ [rrr_acknowledgement report]\<rparr>)"
    and ack: "ra_acknowledged_sequence (rrr_acknowledgement report) =
      sequence_window_acknowledged (rv_sequences r')"
    and seen: "rb_sequence ` set (rp_batches ?p) \<subseteq> sequence_window_seen (rv_sequences r')"
    using repl_system_receive [OF inv packet(1,2)] by auto
  let ?y1 = "y\<lparr>ys_receiver := r', ys_acks := ys_acks y @ [rrr_acknowledgement report]\<rparr>"
  obtain n s' where ackn: "replication_sender_acknowledge ?s (rrr_acknowledgement report) = (Inr n, s')"
    and inv2: "repl_system_inv apply_delta config (?y1\<lparr>ys_sender := s'\<rparr>)"
    and s': "rs_acknowledged_sequence s' = max (rs_acknowledged_sequence ?s)
        (sequence_window_acknowledged (rv_sequences r'))" "rs_projected s' = rs_projected ?s"
    using repl_system_acknowledge [OF inv1, of "rrr_acknowledgement report"] by (auto simp: ack)
  have round: "repl_round apply_delta y = ?y1\<lparr>ys_sender := s'\<rparr>"
    by (simp add: repl_round_def run ackn)
  show "repl_system_inv apply_delta config (repl_round apply_delta y)"
    and "rs_projected (ys_sender (repl_round apply_delta y)) = rs_projected (ys_sender y)"
    and "ys_log (repl_round apply_delta y) = ys_log y"
    using inv2 s'(2) by (simp_all add: round)
  have pend: "rs_pending ?s = drop (unat (rs_acknowledged_sequence ?s)) (ys_log y)"
    and numbered: "log_numbered (ys_log y)"
    and low: "rs_acknowledged_sequence ?s \<le> sequence_window_acknowledged (rv_sequences r')"
    using inv inv1 by (auto simp: repl_system_inv_def Let_def sender_log_inv_def)
  have pend': "rs_pending s' = drop (unat (rs_acknowledged_sequence s')) (ys_log y)"
    using inv2 by (simp add: repl_system_inv_def Let_def sender_log_inv_def)
  have "unat (rs_acknowledged_sequence ?s) < unat (rs_acknowledged_sequence s')" if "rs_pending ?s \<noteq> []"
  proof -
    let ?i = "unat (rs_acknowledged_sequence ?s)"
    have i: "?i < length (ys_log y)" using that pend by simp
    then have hd: "hd (rs_pending ?s) = ys_log y ! ?i"
      unfolding pend by (simp add: hd_drop_conv_nth)
    have next_seq: "unat (rb_sequence (ys_log y ! ?i)) = Suc ?i"
      by (rule log_numbered_nth [OF numbered i])
    have w': "sequence_window_inv (rv_sequences r')"
      using inv1 receiver_log_inv_fields(1) by (auto simp: repl_system_inv_def Let_def)
    have mem: "rb_sequence (ys_log y ! ?i) \<in> sequence_window_seen (rv_sequences r')"
      using packet(3) [OF that] seen by (auto simp: hd)
    have "rb_sequence (ys_log y ! ?i) \<le> sequence_window_acknowledged (rv_sequences r')"
    proof (rule sw.acked_maximal [OF w'])
      fix q :: u64 assume q: "0 < q" "q \<le> rb_sequence (ys_log y ! ?i)"
      show "q \<in> sequence_window_seen (rv_sequences r')"
      proof (cases "q = rb_sequence (ys_log y ! ?i)")
        case False
        then have "q \<le> rs_acknowledged_sequence ?s"
          using q(2) next_seq by (auto simp: word_le_nat_alt word_unat_eq_iff)
        then show ?thesis using sw.contiguous [OF w' q(1)] low by auto
      qed (simp add: mem)
    qed
    then show ?thesis using next_seq by (simp add: s'(1) max_def word_le_nat_alt)
  qed
  moreover have "unat (rs_acknowledged_sequence ?s) \<le> unat (rs_acknowledged_sequence s')"
    using low by (simp add: s'(1) max_def word_le_nat_alt)
  ultimately show "length (rs_pending (ys_sender (repl_round apply_delta y))) \<le>
      length (rs_pending (ys_sender y)) - 1"
    by (cases "rs_pending ?s = []") (auto simp: round pend pend')
qed

lemma repl_rounds_progress:
  assumes "repl_system_inv apply_delta config y"
  shows "repl_system_inv apply_delta config ((repl_round apply_delta ^^ n) y) \<and>
    rs_projected (ys_sender ((repl_round apply_delta ^^ n) y)) = rs_projected (ys_sender y) \<and>
    length (rs_pending (ys_sender ((repl_round apply_delta ^^ n) y))) \<le>
      length (rs_pending (ys_sender y)) - n"
proof (induction n)
  case (Suc n)
  then show ?case
    using repl_round_progress [of apply_delta config "(repl_round apply_delta ^^ n) y"]
    by (auto intro: order_trans)
qed (simp add: assms)

lemma repl_system_shows:
  assumes inv: "repl_system_inv apply_delta config y"
    and all: "sequence_window_acknowledged (rv_sequences (ys_receiver y)) + 1 =
      rs_next_sequence (ys_sender y)"
  shows "world_shows (replication_receiver_entity (ys_receiver y)) (rs_projected (ys_sender y))"
proof -
  let ?acked = "sequence_window_acknowledged (rv_sequences (ys_receiver y))"
  have s: "unat (rs_next_sequence (ys_sender y)) = Suc (length (ys_log y))"
    and r: "receiver_log_inv apply_delta (ys_receiver y) (ys_log y)"
    and config: "rs_config (ys_sender y) = rv_config (ys_receiver y)"
    using inv by (auto simp: repl_system_inv_def Let_def sender_log_inv_def)
  have "unat ?acked + 1 < 2 ^ 64"
    using receiver_log_inv_fields(3) [OF r] repl_system_inv_reach(2) [OF inv] by simp
  then have "unat (?acked + 1) = unat ?acked + 1"
    by (simp add: unat_add_lem [THEN iffD1])
  with s all have "unat ?acked = length (ys_log y)" by simp
  with receiver_log_inv_fields(5) [OF r] obtain
    "world_log apply_delta (rc_max_entities (rs_config (ys_sender y))) (ys_log y) Map.empty =
      Inr (map_of (rv_entities (ys_receiver y)))"
    by (simp add: config)
  moreover have "world_log_inv apply_delta (ys_sender y) (ys_log y)"
    using inv by (simp add: repl_system_inv_def Let_def)
  ultimately show ?thesis
    by (auto simp: world_log_inv_def replication_receiver_entity_def [abs_def])
qed

subsection \<open>Running schedules\<close>

text \<open>The steps as a function on scheduled events, and a codec that sends differences.\<close>

datatype ('i, 's) repl_event =
    RUpdate u64 "('i \<times> 's versioned_state) list"
  | RSend
  | RReceive nat
  | RAcknowledge nat

fun repl_run_event ::
    "('i::linorder \<Rightarrow> 's versioned_state \<Rightarrow> 's versioned_state \<Rightarrow> 'd option) \<Rightarrow>
     ('i \<Rightarrow> 's \<Rightarrow> 'd \<Rightarrow> 's option) \<Rightarrow> ('i, 's) repl_event \<Rightarrow>
     ('i, 's, 'd) repl_system \<Rightarrow> ('i, 's, 'd) repl_system" where
  "repl_run_event encode_delta apply_delta (RUpdate tick visible) y =
     (if versions_identify (rs_projected (ys_sender y)) visible
      then (case replication_sender_update encode_delta (ys_sender y) tick visible of
              (Inl _, _) \<Rightarrow> y
            | (Inr _, s') \<Rightarrow> y\<lparr>ys_sender := s', ys_log := ys_log y @
                drop (length (rs_pending (ys_sender y))) (rs_pending s')\<rparr>)
      else y)"
| "repl_run_event encode_delta apply_delta RSend y =
     y\<lparr>ys_packets := ys_packets y @ [replication_sender_packet (ys_sender y)]\<rparr>"
| "repl_run_event encode_delta apply_delta (RReceive i) y =
     (if i < length (ys_packets y)
      then (case replication_receiver_receive apply_delta (ys_receiver y) (ys_packets y ! i) of
              (result, r') \<Rightarrow> y\<lparr>ys_receiver := r', ys_acks := ys_acks y @ (case result of
                Inl _ \<Rightarrow> [] | Inr report \<Rightarrow> [rrr_acknowledgement report])\<rparr>)
      else y)"
| "repl_run_event encode_delta apply_delta (RAcknowledge i) y =
     (if i < length (ys_acks y)
      then y\<lparr>ys_sender := snd (replication_sender_acknowledge (ys_sender y) (ys_acks y ! i))\<rparr>
      else y)"

definition repl_run ::
    "('i::linorder \<Rightarrow> 's versioned_state \<Rightarrow> 's versioned_state \<Rightarrow> 'd option) \<Rightarrow>
     ('i \<Rightarrow> 's \<Rightarrow> 'd \<Rightarrow> 's option) \<Rightarrow> replication_config \<Rightarrow> ('i, 's) repl_event list \<Rightarrow>
     ('i, 's, 'd) repl_system option" where
  "repl_run encode_delta apply_delta config events =
     (case (replication_sender_new config, replication_receiver_new config) of
        (Inr s, Inr r) \<Rightarrow> Some (fold (repl_run_event encode_delta apply_delta) events
          \<lparr>ys_sender = s, ys_receiver = r, ys_packets = [], ys_acks = [], ys_log = []\<rparr>)
      | _ \<Rightarrow> None)"

lemma repl_run_event_step:
  "repl_step encode_delta apply_delta y (repl_run_event encode_delta apply_delta e y) \<or>
   repl_run_event encode_delta apply_delta e y = y"
proof (cases e)
  case (RUpdate tick visible)
  then show ?thesis
    by (auto split: prod.splits sum.splits intro: repl_update)
next
  case RSend
  then show ?thesis by (auto intro: repl_send)
next
  case (RReceive i)
  then show ?thesis
    using repl_receive [OF nth_mem, of i y apply_delta] by (auto split: prod.splits)
next
  case (RAcknowledge i)
  then show ?thesis
    using repl_acknowledge [OF nth_mem prod.collapse [symmetric], of i y] by auto
qed

lemma repl_run_reachable:
  assumes "repl_run encode_delta apply_delta config events = Some y"
  shows "repl_reachable encode_delta apply_delta config y"
proof -
  obtain s r where start: "replication_sender_new config = Inr s" "replication_receiver_new config = Inr r"
    and y: "y = fold (repl_run_event encode_delta apply_delta) events
      \<lparr>ys_sender = s, ys_receiver = r, ys_packets = [], ys_acks = [], ys_log = []\<rparr>"
    using assms by (auto simp: repl_run_def split: sum.splits)
  have "repl_reachable encode_delta apply_delta config z \<Longrightarrow>
      repl_reachable encode_delta apply_delta config
        (fold (repl_run_event encode_delta apply_delta) events z)" for z
  proof (induction events arbitrary: z)
    case (Cons e events)
    then show ?case
      using repl_run_event_step [of encode_delta apply_delta z e] by (auto intro: repl_next)
  qed simp
  with start show ?thesis unfolding y by (blast intro: repl_start)
qed

definition difference_encode :: "nat \<Rightarrow> int versioned_state \<Rightarrow> int versioned_state \<Rightarrow> int option" where
  "difference_encode e previous current =
     (if vs_state previous = 0 then None else Some (vs_state current - vs_state previous))"

definition difference_apply :: "nat \<Rightarrow> int \<Rightarrow> int \<Rightarrow> int option" where
  "difference_apply e state d = Some (state + d)"

lemma difference_codec: "delta_codec difference_encode difference_apply"
  by unfold_locales (auto simp: difference_encode_def difference_apply_def split: if_splits)

abbreviation demo_state :: "u64 \<Rightarrow> int \<Rightarrow> int versioned_state" where
  "demo_state v x \<equiv> \<lparr>vs_version = v, vs_prediction_key = None, vs_state = x\<rparr>"

text \<open>Two updates: the first spawns two entities, the second removes one and moves the other.\<close>

definition repl_demo_updates :: "(nat, int) repl_event list" where
  "repl_demo_updates =
     [RUpdate 5 [(2, demo_state 1 20), (1, demo_state 1 10)], RSend,
      RUpdate 6 [(2, demo_state 2 25), (3, demo_state 1 30)], RSend]"

definition repl_demo_config :: replication_config where
  "repl_demo_config = \<lparr>rc_history_capacity = 4, rc_redundancy = 2, rc_max_events_per_batch = 4,
     rc_max_entities = 3, rc_reorder_window = 8\<rparr>"

definition repl_demo_sent :: "(nat, int, int) repl_system" where
  "repl_demo_sent =
     the (repl_run difference_encode difference_apply repl_demo_config repl_demo_updates)"

definition repl_demo_delivered :: "(nat, int, int) repl_system" where
  "repl_demo_delivered =
     the (repl_run difference_encode difference_apply repl_demo_config
       (repl_demo_updates @ [RReceive 1, RReceive 0, RAcknowledge 0]))"

lemma repl_demo_reachable:
  "repl_reachable difference_encode difference_apply repl_demo_config repl_demo_sent"
  "repl_reachable difference_encode difference_apply repl_demo_config repl_demo_delivered"
proof -
  have "repl_run difference_encode difference_apply repl_demo_config repl_demo_updates \<noteq> None"
    "repl_run difference_encode difference_apply repl_demo_config
       (repl_demo_updates @ [RReceive 1, RReceive 0, RAcknowledge 0]) \<noteq> None"
    by code_simp+
  then show
    "repl_reachable difference_encode difference_apply repl_demo_config repl_demo_sent"
    "repl_reachable difference_encode difference_apply repl_demo_config repl_demo_delivered"
    unfolding repl_demo_sent_def repl_demo_delivered_def by (auto intro: repl_run_reachable)
qed

subsection \<open>Properties\<close>

text \<open>C1. Replication converges: whatever the network lost, repeated and reordered before, as soon
  as the receiver has acknowledged the last batch the sender issued, it has exactly the
  entities of the sender's last update, each with the version and the state given there.
  The hypotheses are that the decoder inverts the encoder and, in the steps of the system,
  that an entity version identifies a state.\<close>

theorem replication_convergence:
  assumes "delta_codec encode_delta apply_delta"
    and "repl_reachable encode_delta apply_delta config y"
    and "sequence_window_acknowledged (rv_sequences (ys_receiver y)) + 1 =
      rs_next_sequence (ys_sender y)"
  shows "\<forall>e. map_option vs_core (replication_receiver_entity (ys_receiver y) e) =
    map_option vs_core (map_of (rs_projected (ys_sender y)) e)"
  using repl_system_shows [OF delta_codec.repl_reachable_inv [OF assms(1,2)] assms(3)]
  by (simp add: world_shows_def)

theorem replication_convergence_witness:
  "map_option vs_core (replication_receiver_entity (ys_receiver repl_demo_delivered) 2) = Some (2, 25)
   \<and> replication_receiver_entity (ys_receiver repl_demo_delivered) 1 = None"
proof -
  have all: "sequence_window_acknowledged (rv_sequences (ys_receiver repl_demo_delivered)) + 1 =
      rs_next_sequence (ys_sender repl_demo_delivered)"
    by code_simp
  have projected: "map_option vs_core (map_of (rs_projected (ys_sender repl_demo_delivered)) 2) = Some (2, 25)"
    "map_of (rs_projected (ys_sender repl_demo_delivered)) 1 = None"
    by code_simp+
  show ?thesis
    using replication_convergence [OF difference_codec repl_demo_reachable(2) all] projected
    by (metis map_option_is_None)
qed

text \<open>C12. A correct pair never refuses each other's messages: in every reachable state every
  packet in flight is accepted by the receiver, so the reorder window, the batch and entity
  limits, the baseline versions and the deltas always fit, and every acknowledgement in
  flight is accepted by the sender.\<close>

theorem replication_never_rejects:
  assumes codec: "delta_codec encode_delta apply_delta"
    and reach: "repl_reachable encode_delta apply_delta config y"
  shows "(\<forall>packet \<in> set (ys_packets y). \<exists>report r'.
        replication_receiver_receive apply_delta (ys_receiver y) packet = (Inr report, r'))
    \<and> (\<forall>a \<in> set (ys_acks y). \<exists>n s'. replication_sender_acknowledge (ys_sender y) a = (Inr n, s'))"
proof -
  note inv = delta_codec.repl_reachable_inv [OF codec reach]
  have "\<exists>report r'. replication_receiver_receive apply_delta (ys_receiver y) packet = (Inr report, r')"
    if "packet \<in> set (ys_packets y)" for packet
    using that inv repl_system_receive [OF inv, of packet] by (auto simp: repl_system_inv_def Let_def)
  with repl_system_acknowledge [OF inv] show ?thesis by blast
qed

theorem replication_never_rejects_witness:
  "\<exists>report r'. replication_receiver_receive difference_apply (ys_receiver repl_demo_sent)
     (ys_packets repl_demo_sent ! 1) = (Inr report, r')"
proof -
  have "1 < length (ys_packets repl_demo_sent)"
    by code_simp
  then show ?thesis
    using replication_never_rejects [OF difference_codec repl_demo_reachable(1)] nth_mem by blast
qed

text \<open>C11. The stream makes progress: because a packet always carries the oldest unacknowledged
  batch, as many loss-free exchanges of one packet and its acknowledgement as there are
  pending batches empty the sender's history and leave the receiver with the projected
  entities, from every reachable state.\<close>

theorem replication_rounds_converge:
  assumes codec: "delta_codec encode_delta apply_delta"
    and reach: "repl_reachable encode_delta apply_delta config y"
    and n: "length (rs_pending (ys_sender y)) \<le> n"
  shows "rs_pending (ys_sender ((repl_round apply_delta ^^ n) y)) = []
    \<and> (\<forall>e. map_option vs_core
          (replication_receiver_entity (ys_receiver ((repl_round apply_delta ^^ n) y)) e) =
        map_option vs_core (map_of (rs_projected (ys_sender y)) e))"
proof -
  let ?z = "(repl_round apply_delta ^^ n) y"
  note inv = delta_codec.repl_reachable_inv [OF codec reach]
  note z = repl_rounds_progress [OF inv, of n]
  have empty: "rs_pending (ys_sender ?z) = []" using z n by auto
  have z_inv: "repl_system_inv apply_delta config ?z" using z by blast
  let ?a = "rs_acknowledged_sequence (ys_sender ?z)"
    and ?b = "sequence_window_acknowledged (rv_sequences (ys_receiver ?z))"
  have "unat ?b \<le> length (ys_log ?z)"
    using z_inv receiver_log_inv_fields(3) by (auto simp: repl_system_inv_def Let_def)
  moreover have "length (ys_log ?z) \<le> unat ?a" "?a \<le> ?b"
    "unat (rs_next_sequence (ys_sender ?z)) = Suc (length (ys_log ?z))"
    using z_inv empty by (auto simp: repl_system_inv_def Let_def sender_log_inv_def)
  ultimately have b: "unat ?b + 1 = unat (rs_next_sequence (ys_sender ?z))"
    by (simp add: word_le_nat_alt)
  then have "?b + 1 = rs_next_sequence (ys_sender ?z)"
    using checked_add_Some_iff [of ?b 1 "rs_next_sequence (ys_sender ?z)"]
    by (simp add: checked_add_def split: if_splits)
  with repl_system_shows [OF z_inv] z empty show ?thesis
    by (simp add: world_shows_def)
qed

theorem replication_rounds_converge_witness:
  "map_option vs_core (replication_receiver_entity
     (ys_receiver ((repl_round difference_apply ^^ 2) repl_demo_sent)) 3) = Some (1, 30)"
proof -
  have "length (rs_pending (ys_sender repl_demo_sent)) \<le> 2"
    and "map_option vs_core (map_of (rs_projected (ys_sender repl_demo_sent)) 3) = Some (1, 30)"
    by code_simp+
  then show ?thesis
    using replication_rounds_converge [OF difference_codec repl_demo_reachable(1)] by simp
qed

text \<open>C17. Updates, acknowledgements and packets are transactional for any input, including packets
  no correct sender produces: an error leaves the sender or the receiver exactly as it was.\<close>

theorem replication_errors_change_nothing:
  "(case replication_sender_update encode_delta s tick visible of
      (Inl _, s') \<Rightarrow> s' = s | (Inr _, _) \<Rightarrow> True) \<and>
   (case replication_sender_acknowledge s acknowledgement of
      (Inl _, s') \<Rightarrow> s' = s | (Inr _, _) \<Rightarrow> True) \<and>
   (case replication_receiver_receive apply_delta r packet of
      (Inl _, r') \<Rightarrow> r' = r | (Inr _, _) \<Rightarrow> True)"
  by (auto simp: replication_sender_acknowledge_def replication_receiver_receive_def Let_def
      dest!: replication_update_Inl split: prod.splits sum.splits option.splits if_splits)

end
