(* ===== verification/Lag_Compensation.thy ===== *)
theory Lag_Compensation
  imports Collections
begin

section \<open>Lag compensation history\<close>

text \<open>
  \<open>LagCompensationHistory\<close> of \<open>src/crates/elura-lag-compensation/src/lib.rs\<close>: a
  bounded ring of authoritative states by Tick, and the validated rewind a client's hit
  query goes through.

  The main result compares the ring with the unbounded log of everything recorded: within
  the configured rewind window the ring never misses a state the log has.
\<close>

subsection \<open>Data\<close>

datatype lag_compensation_error =
    LagInvalidConfig string
  | InvalidTickOrder
  | HistoryEmpty
  | FutureTick
  | RewindLimitExceeded
  | StateUnavailable

record lag_compensation_config =
  lc_history_capacity :: usize
  lc_max_rewind_ticks :: u64

record rewind_context =
  rw_target_tick :: u64
  rw_current_tick :: u64
  rw_rewind_ticks :: u64

record 's rewind_sample =
  rsm_context :: rewind_context
  rsm_state :: 's

record lag_compensation_stats =
  ls_states_recorded :: u64
  ls_queries_completed :: u64
  ls_queries_rejected :: u64

record 's lag_compensation_history =
  lh_config :: lag_compensation_config
  lh_states :: "(u64 \<times> 's) list"
  lh_stats :: lag_compensation_stats

subsection \<open>Operations\<close>

definition lag_compensation_config_default :: lag_compensation_config where
  "lag_compensation_config_default = \<lparr>lc_history_capacity = 64, lc_max_rewind_ticks = 30\<rparr>"

definition lag_compensation_config_validate ::
    "lag_compensation_config \<Rightarrow> lag_compensation_error + unit" where
  "lag_compensation_config_validate c =
     (if lc_history_capacity c = 0 \<or> lc_max_rewind_ticks c = 0
      then Inl (LagInvalidConfig ''history capacity and rewind window must be positive'')
      else
        (let required = sat_add (lc_max_rewind_ticks c) 1
         in if (case u64_try_from (lc_history_capacity c) of
                  None \<Rightarrow> True
                | Some capacity \<Rightarrow> capacity < required)
            then Inl (LagInvalidConfig
              ''history capacity must include the current Tick and full rewind window'')
            else Inr ()))"

definition lag_compensation_stats_default :: lag_compensation_stats where
  "lag_compensation_stats_default =
     \<lparr>ls_states_recorded = 0, ls_queries_completed = 0, ls_queries_rejected = 0\<rparr>"

definition lag_history_new ::
    "lag_compensation_config \<Rightarrow> lag_compensation_error + 's lag_compensation_history" where
  "lag_history_new config =
     (case lag_compensation_config_validate config of
        Inl e \<Rightarrow> Inl e
      | Inr _ \<Rightarrow> Inr \<lparr>lh_config = config, lh_states = [],
                     lh_stats = lag_compensation_stats_default\<rparr>)"

definition lag_history_record ::
    "'s lag_compensation_history \<Rightarrow> u64 \<Rightarrow> 's \<Rightarrow>
     (lag_compensation_error + unit) \<times> 's lag_compensation_history" where
  "lag_history_record h tick state =
     (if tick = 0 \<or> (lh_states h \<noteq> [] \<and> tick \<le> fst (last (lh_states h)))
      then (Inl InvalidTickOrder, h)
      else
        (let states = (if length (lh_states h) = lc_history_capacity (lh_config h)
                       then tl (lh_states h) else lh_states h)
         in (Inr (),
             h\<lparr>lh_states := states @ [(tick, state)],
               lh_stats := (lh_stats h)\<lparr>ls_states_recorded :=
                 sat_add (ls_states_recorded (lh_stats h)) 1\<rparr>\<rparr>)))"

definition lag_history_validate_rewind ::
    "'s lag_compensation_history \<Rightarrow> u64 \<Rightarrow> lag_compensation_error + rewind_context \<times> usize" where
  "lag_history_validate_rewind h target_tick =
     (if lh_states h = [] then Inl HistoryEmpty
      else
        (let current_tick = fst (last (lh_states h))
         in if current_tick < target_tick then Inl FutureTick
            else
              (let rewind_ticks = current_tick - target_tick
               in if lc_max_rewind_ticks (lh_config h) < rewind_ticks
                  then Inl RewindLimitExceeded
                  else
                    (case binary_search_by_key fst target_tick (lh_states h) of
                       Inl _ \<Rightarrow> Inl StateUnavailable
                     | Inr index \<Rightarrow>
                         Inr (\<lparr>rw_target_tick = target_tick, rw_current_tick = current_tick,
                               rw_rewind_ticks = rewind_ticks\<rparr>, index)))))"

definition lag_history_rewind ::
    "'s lag_compensation_history \<Rightarrow> u64 \<Rightarrow>
     (lag_compensation_error + 's rewind_sample) \<times> 's lag_compensation_history" where
  "lag_history_rewind h target_tick =
     (case lag_history_validate_rewind h target_tick of
        Inr (context, index) \<Rightarrow>
          (let h' = h\<lparr>lh_stats := (lh_stats h)\<lparr>ls_queries_completed :=
                       sat_add (ls_queries_completed (lh_stats h)) 1\<rparr>\<rparr>
           in (Inr \<lparr>rsm_context = context, rsm_state = snd (lh_states h' ! index)\<rparr>, h'))
      | Inl error \<Rightarrow>
          (Inl error, h\<lparr>lh_stats := (lh_stats h)\<lparr>ls_queries_rejected :=
             sat_add (ls_queries_rejected (lh_stats h)) 1\<rparr>\<rparr>))"

definition lag_history_with_rewind ::
    "'s lag_compensation_history \<Rightarrow> u64 \<Rightarrow> (rewind_context \<Rightarrow> 's \<Rightarrow> 'r) \<Rightarrow>
     (lag_compensation_error + 'r) \<times> 's lag_compensation_history" where
  "lag_history_with_rewind h target_tick query =
     (case lag_history_rewind h target_tick of
        (Inl e, h') \<Rightarrow> (Inl e, h')
      | (Inr sample, h') \<Rightarrow> (Inr (query (rsm_context sample) (rsm_state sample)), h'))"

definition lag_history_current_tick :: "'s lag_compensation_history \<Rightarrow> u64 option" where
  "lag_history_current_tick h =
     (if lh_states h = [] then None else Some (fst (last (lh_states h))))"

definition lag_history_oldest_tick :: "'s lag_compensation_history \<Rightarrow> u64 option" where
  "lag_history_oldest_tick h =
     (if lh_states h = [] then None else Some (fst (hd (lh_states h))))"

definition lag_history_reset ::
    "'s lag_compensation_history \<Rightarrow> 's lag_compensation_history" where
  "lag_history_reset h = h\<lparr>lh_states := [], lh_stats := lag_compensation_stats_default\<rparr>"

subsection \<open>Runs and their log\<close>

text \<open>
  \<open>lag_run config h log\<close>: \<open>h\<close> results from recordings and queries in any order, and
  \<open>log\<close> holds every recording that succeeded.
\<close>

inductive lag_run ::
    "lag_compensation_config \<Rightarrow> 's lag_compensation_history \<Rightarrow> (u64 \<times> 's) list \<Rightarrow> bool"
  for config where
  lag_start: "lag_history_new config = Inr h \<Longrightarrow> lag_run config h []"
| lag_record: "lag_run config h log \<Longrightarrow> lag_history_record h tick state = (result, h') \<Longrightarrow>
    lag_run config h' (case result of Inl _ \<Rightarrow> log | Inr _ \<Rightarrow> log @ [(tick, state)])"
| lag_query: "lag_run config h log \<Longrightarrow> lag_history_rewind h target = (result, h') \<Longrightarrow>
    lag_run config h' log"

definition lag_log_inv ::
    "lag_compensation_config \<Rightarrow> 's lag_compensation_history \<Rightarrow> (u64 \<times> 's) list \<Rightarrow> bool" where
  "lag_log_inv config h log \<longleftrightarrow>
     lag_compensation_config_validate config = Inr () \<and> lh_config h = config \<and>
     sorted_wrt (<) (map fst log) \<and> (\<forall>p \<in> set log. fst p \<noteq> 0) \<and>
     lh_states h = drop (length log - lc_history_capacity config) log"

text \<open>
  A valid capacity exceeds every distance a rewind may have. The distance of two recorded
  Ticks is below \<open>2 ^ 64 - 1\<close> because Tick zero is never recorded, which covers the
  saturating addition in \<open>validate\<close>.
\<close>

lemma lag_config_capacity:
  assumes "lag_compensation_config_validate c = Inr ()"
    and "d \<le> unat (lc_max_rewind_ticks c)" and "d < 2 ^ 64 - 1"
  shows "d < lc_history_capacity c"
proof -
  from assms obtain w where w: "u64_try_from (lc_history_capacity c) = Some w"
    and le: "sat_add (lc_max_rewind_ticks c) 1 \<le> w"
    by (auto simp: lag_compensation_config_validate_def Let_def not_less split: if_splits option.splits)
  have "min (unat (lc_max_rewind_ticks c) + 1) (2 ^ 64 - 1) \<le> unat w"
    using le by (simp add: word_le_nat_alt unat_sat_add)
  with w assms(2,3) show ?thesis by (simp add: u64_try_from_Some_iff)
qed

lemma sorted_index_gap:
  assumes "sorted_wrt (<) (map f xs)" and "i \<le> j" and "j < length xs"
  shows "unat (f (xs ! i) :: u64) + (j - i) \<le> unat (f (xs ! j))"
  using assms(2,3)
proof (induction j rule: dec_induct)
  case (step n)
  have "f (xs ! n) < f (xs ! Suc n)"
    using assms(1) step.prems by (simp add: sorted_wrt_iff_nth_less)
  with step show ?case by (simp add: word_less_nat_alt)
qed simp

lemma lag_log_inv_record:
  assumes inv: "lag_log_inv config h log"
    and run: "lag_history_record h tick state = (result, h')"
  shows "lag_log_inv config h' (case result of Inl _ \<Rightarrow> log | Inr _ \<Rightarrow> log @ [(tick, state)])"
proof (cases result)
  case (Inl e)
  with run inv show ?thesis by (auto simp: lag_history_record_def Let_def split: if_splits)
next
  case (Inr u)
  let ?c = "lc_history_capacity config"
  have valid: "0 < ?c"
    using inv by (auto simp: lag_log_inv_def lag_compensation_config_validate_def split: if_splits)
  have states: "lh_states h = drop (length log - ?c) log" and config: "lh_config h = config"
    using inv by (auto simp: lag_log_inv_def)
  have tick: "tick \<noteq> 0" "lh_states h \<noteq> [] \<Longrightarrow> fst (last (lh_states h)) < tick"
    and h': "lh_states h' = (if length (lh_states h) = ?c then tl (lh_states h) else lh_states h) @ [(tick, state)]"
      "lh_config h' = config"
    using run Inr config by (auto simp: lag_history_record_def Let_def not_le split: if_splits)
  have last: "fst (last log) < tick" if "log \<noteq> []"
  proof -
    have "length log - ?c < length log" using that valid by simp
    then show ?thesis using tick(2) by (simp add: states last_drop)
  qed
  have sorted: "sorted_wrt (<) (map fst (log @ [(tick, state)]))"
    by (rule sorted_key_snoc) (use inv last in \<open>auto simp: lag_log_inv_def\<close>)
  have "lh_states h' = drop (length (log @ [(tick, state)]) - ?c) (log @ [(tick, state)])"
  proof (cases "length log < ?c")
    case True
    then show ?thesis by (simp add: h' states)
  next
    case False
    then have "Suc (length log) - ?c = Suc (length log - ?c)" "Suc (length log - ?c) \<le> length log"
      using valid by auto
    with False show ?thesis by (simp add: h' states tl_drop drop_Suc)
  qed
  then show ?thesis
    using inv h'(2) tick(1) sorted unfolding lag_log_inv_def Inr sum.case by simp
qed

lemma lag_history_rewind_states:
  "lag_history_rewind h target = (result, h') \<Longrightarrow> lh_states h' = lh_states h \<and> lh_config h' = lh_config h"
  by (auto simp: lag_history_rewind_def Let_def split: sum.splits)

lemma lag_run_inv: "lag_run config h log \<Longrightarrow> lag_log_inv config h log"
proof (induction rule: lag_run.induct)
  case (lag_start h)
  then show ?case by (auto simp: lag_history_new_def lag_log_inv_def split: sum.splits)
next
  case (lag_record h log tick state result h')
  then show ?case by (blast intro: lag_log_inv_record)
next
  case (lag_query h log target result h')
  then show ?case
    using lag_history_rewind_states [OF lag_query(2)] by (simp add: lag_log_inv_def)
qed

text \<open>Binary search on the ring finds exactly what is in it.\<close>

lemma binary_search_sorted:
  assumes "sorted_wrt (<) (map fst xs)"
  shows "case binary_search_by_key fst k xs of
      Inl _ \<Rightarrow> map_of xs k = None
    | Inr i \<Rightarrow> i < length xs \<and> map_of xs k = Some (snd (xs ! i))"
  using assms
proof (induction xs)
  case Nil
  then show ?case by (simp add: binary_search_by_key_def)
next
  case (Cons p xs)
  have bigger: "map_of xs k = None" if "k \<le> fst p"
    using Cons.prems that by (auto simp: map_of_eq_None_iff)
  have "case binary_search_by_key fst k xs of
      Inl _ \<Rightarrow> map_of xs k = None
    | Inr i \<Rightarrow> i < length xs \<and> map_of xs k = Some (snd (xs ! i))"
    using Cons by simp
  then show ?case
    using bigger by (cases p) (auto simp: binary_search_by_key_def Let_def split: if_splits)
qed

lemma map_of_drop_absent:
  assumes "\<And>i. i < length xs \<Longrightarrow> fst (xs ! i) = k \<Longrightarrow> n \<le> i"
  shows "map_of (drop n xs) k = map_of xs k"
proof -
  have "map_of (take n xs) k = None"
    using assms by (force simp: map_of_eq_None_iff in_set_conv_nth)
  moreover have "map_of xs k = (map_of (drop n xs) ++ map_of (take n xs)) k"
    by (metis append_take_drop_id map_of_append)
  ultimately show ?thesis by (simp add: map_add_def)
qed

text \<open>
  What a rewind returns, from the unbounded log alone.
\<close>

definition lag_rewind_spec ::
    "lag_compensation_config \<Rightarrow> (u64 \<times> 's) list \<Rightarrow> u64 \<Rightarrow>
     lag_compensation_error + 's rewind_sample" where
  "lag_rewind_spec config log target =
     (if log = [] then Inl HistoryEmpty
      else if fst (last log) < target then Inl FutureTick
      else if lc_max_rewind_ticks config < fst (last log) - target then Inl RewindLimitExceeded
      else case map_of log target of
             None \<Rightarrow> Inl StateUnavailable
           | Some s \<Rightarrow> Inr \<lparr>rsm_context = \<lparr>rw_target_tick = target,
                 rw_current_tick = fst (last log), rw_rewind_ticks = fst (last log) - target\<rparr>,
               rsm_state = s\<rparr>)"

lemma lag_ring_keeps_window:
  assumes inv: "lag_log_inv config h log" and log: "log \<noteq> []"
    and target: "target \<le> fst (last log)"
      "fst (last log) - target \<le> lc_max_rewind_ticks config"
  shows "map_of (lh_states h) target = map_of log target"
proof -
  have sorted: "sorted_wrt (<) (map fst log)" and pos: "\<forall>p \<in> set log. fst p \<noteq> 0"
    and states: "lh_states h = drop (length log - lc_history_capacity config) log"
    and valid: "lag_compensation_config_validate config = Inr ()"
    using inv by (auto simp: lag_log_inv_def)
  have "length log - lc_history_capacity config \<le> i"
    if i: "i < length log" "fst (log ! i) = target" for i
  proof -
    let ?last = "length log - 1"
    have last: "last log = log ! ?last" using log by (simp add: last_conv_nth)
    have gap: "unat target + (?last - i) \<le> unat (fst (last log))"
      using sorted_index_gap [OF sorted, of i ?last] i by (simp add: last)
    have "target \<noteq> 0" using pos i by auto
    then have "?last - i < 2 ^ 64 - 1"
      using gap unat_lt2p [of "fst (last log)"] by (simp add: word_pos_iff)
    moreover have "?last - i \<le> unat (lc_max_rewind_ticks config)"
      using gap target by (simp add: word_le_nat_alt unat_sub)
    ultimately have "?last - i < lc_history_capacity config"
      by (intro lag_config_capacity [OF valid])
    then show ?thesis using i(1) by simp
  qed
  then show ?thesis
    unfolding states by (rule map_of_drop_absent)
qed

subsection \<open>Properties\<close>

text \<open>C5. The bounded ring answers every rewind as the complete history would: after any sequence of
  recordings and queries, a rewind returns exactly the state recorded at the requested Tick
  when that Tick lies in the allowed window, and the same error as the complete log
  otherwise. Evicting old states never loses one a client may still ask for.\<close>

theorem lag_rewind_complete:
  assumes "lag_run config h log"
  shows "fst (lag_history_rewind h target) = lag_rewind_spec config log target"
proof -
  note inv = lag_run_inv [OF assms]
  have states: "lh_states h = drop (length log - lc_history_capacity config) log"
    and sorted: "sorted_wrt (<) (map fst (lh_states h))" and config: "lh_config h = config"
    and valid: "0 < lc_history_capacity config"
    using inv by (auto simp: lag_log_inv_def drop_map [symmetric] sorted_wrt_drop
        lag_compensation_config_validate_def split: if_splits)
  show ?thesis
  proof (cases "log = []")
    case True
    then show ?thesis
      by (simp add: states lag_rewind_spec_def lag_history_rewind_def lag_history_validate_rewind_def)
  next
    case False
    then have "length log - lc_history_capacity config < length log" using valid by simp
    then have last: "last (lh_states h) = last log" and nonempty: "lh_states h \<noteq> []"
      by (simp_all add: states)
    show ?thesis
    proof (cases "fst (last log) < target \<or> lc_max_rewind_ticks config < fst (last log) - target")
      case True
      then show ?thesis
        using False nonempty by (auto simp: lag_rewind_spec_def lag_history_rewind_def
            lag_history_validate_rewind_def Let_def config last)
    next
      case within: False
      then have "map_of (lh_states h) target = map_of log target"
        by (intro lag_ring_keeps_window [OF inv False]) (simp_all add: not_less)
      then show ?thesis
        using binary_search_sorted [OF sorted, of target] False nonempty within
        by (cases "map_of log target")
          (auto simp: lag_rewind_spec_def lag_history_rewind_def lag_history_validate_rewind_def
            Let_def config last split: sum.splits)
    qed
  qed
qed

definition lag_demo_config :: lag_compensation_config where
  "lag_demo_config = \<lparr>lc_history_capacity = 2, lc_max_rewind_ticks = 1\<rparr>"

definition lag_demo :: "nat lag_compensation_history" where
  "lag_demo =
     (case lag_history_new lag_demo_config of
        Inr h \<Rightarrow> snd (lag_history_record (snd (lag_history_record
                   (snd (lag_history_record h 5 50)) 6 60)) 7 70))"

lemma lag_demo_run: "lag_run lag_demo_config lag_demo [(5, 50), (6, 60), (7, 70)]"
proof -
  let ?h0 = "\<lparr>lh_config = lag_demo_config, lh_states = [], lh_stats = lag_compensation_stats_default\<rparr>
    :: nat lag_compensation_history"
  have new: "lag_history_new lag_demo_config = Inr ?h0"
    by (simp add: lag_history_new_def lag_compensation_config_validate_def lag_demo_config_def
        u64_try_from_def sat_add_def word_le_nat_alt)
  define h1 where "h1 = snd (lag_history_record ?h0 5 50)"
  define h2 where "h2 = snd (lag_history_record h1 6 60)"
  have "lag_history_record ?h0 5 50 = (Inr (), h1)"
    by (simp add: h1_def lag_history_record_def)
  from lag_record [OF lag_start [OF new] this] have r1: "lag_run lag_demo_config h1 [(5, 50)]"
    by simp
  have "lag_history_record h1 6 60 = (Inr (), h2)"
    by (simp add: h2_def h1_def lag_history_record_def)
  from lag_record [OF r1 this] have r2: "lag_run lag_demo_config h2 [(5, 50), (6, 60)]"
    by simp
  have "lag_history_record h2 7 70 = (Inr (), lag_demo)"
    by (simp add: lag_demo_def new h2_def h1_def lag_history_record_def)
  from lag_record [OF r2 this] show ?thesis by simp
qed

theorem lag_rewind_complete_witness:
  "map rsm_state (case fst (lag_history_rewind lag_demo 6) of Inr s \<Rightarrow> [s] | Inl _ \<Rightarrow> []) = [60] \<and>
   fst (lag_history_rewind lag_demo 5) = Inl RewindLimitExceeded"
  unfolding lag_rewind_complete [OF lag_demo_run]
  by (simp add: lag_rewind_spec_def lag_demo_config_def)

end
