(* ===== verification/Game_Room.thy ===== *)
theory Game_Room
  imports Collections "HOL-Library.Multiset"
begin

section \<open>Rooms\<close>

text \<open>
  Model of \<open>crates/elura-room/src/lib.rs\<close>: a roster of members behind a capacity, their
  readiness, the leader and the three lifecycle phases.

  The specification is a roster kept as a list in join order, in which the successor of a
  departing leader is simply the first remaining member. The code keeps a hash map and join
  numbers instead; the refinement theorem shows that the two give the same answers. A hash map has no
  defined iteration order: in a run of the room the list that stands for it may be permuted in any way before every call.
\<close>

subsection \<open>Data\<close>

datatype room_error =
    RoomInvalidConfig string
  | AlreadyMember
  | MemberNotFound
  | Full
  | NotOpen
  | NotEnoughMembers usize usize
  | MembersNotReady

record room_config =
  rc_capacity :: usize
  rc_minimum_to_start :: usize
  rc_require_all_ready :: bool
  rc_allow_join_in_progress :: bool

datatype room_phase = Open | Active | Closed

record 'd room_member =
  rm_data :: 'd
  rm_ready :: bool
  rm_joined_order :: u128

record ('m, 'd) room_departure =
  rd_data :: 'd
  rd_new_leader :: "'m option"
  rd_empty :: bool

record ('i, 'm, 'd) room =
  room_id :: 'i
  room_cfg :: room_config
  room_phase :: room_phase
  room_leader :: "'m option"
  room_members :: "('m \<times> 'd room_member) list"
  room_next_join_order :: u128

subsection \<open>Operations\<close>

definition room_config_default :: room_config where
  "room_config_default = \<lparr>rc_capacity = 4, rc_minimum_to_start = 1,
     rc_require_all_ready = True, rc_allow_join_in_progress = False\<rparr>"

definition room_config_validate :: "room_config \<Rightarrow> room_error + unit" where
  "room_config_validate c =
     (if rc_capacity c = 0 then Inl (RoomInvalidConfig ''capacity must be positive'')
      else if rc_minimum_to_start c = 0 \<or> rc_capacity c < rc_minimum_to_start c
        then Inl (RoomInvalidConfig ''minimum_to_start must be in 1..=capacity'')
      else Inr ())"

definition room_new :: "'i \<Rightarrow> room_config \<Rightarrow> room_error + ('i, 'm, 'd) room" where
  "room_new i config =
     (case room_config_validate config of
        Inl e \<Rightarrow> Inl e
      | Inr _ \<Rightarrow> Inr \<lparr>room_id = i, room_cfg = config, room_phase = Open, room_leader = None,
          room_members = [], room_next_join_order = 0\<rparr>)"

definition room_len :: "('i, 'm, 'd) room \<Rightarrow> usize" where
  "room_len r = length (room_members r)"

definition room_is_empty :: "('i, 'm, 'd) room \<Rightarrow> bool" where
  "room_is_empty r \<longleftrightarrow> room_members r = []"

definition room_contains :: "('i, 'm, 'd) room \<Rightarrow> 'm \<Rightarrow> bool" where
  "room_contains r m \<longleftrightarrow> contains_key (room_members r) m"

definition room_get_member :: "('i, 'm, 'd) room \<Rightarrow> 'm \<Rightarrow> 'd room_member option" where
  "room_get_member r m = map_of (room_members r) m"

text \<open>
  \<open>member_mut\<close> hands out a mutable reference to the stored member; outside the crate
  only the public fields \<open>data\<close> and \<open>ready\<close> can be assigned through it.
\<close>

definition room_member_mut ::
    "('i, 'm, 'd) room \<Rightarrow> 'm \<Rightarrow> ('d \<Rightarrow> 'd) \<Rightarrow> (bool \<Rightarrow> bool) \<Rightarrow> bool \<times> ('i, 'm, 'd) room" where
  "room_member_mut r m set_data set_flag =
     (contains_key (room_members r) m,
      r\<lparr>room_members := map_adjust m
          (\<lambda>v. v\<lparr>rm_data := set_data (rm_data v), rm_ready := set_flag (rm_ready v)\<rparr>)
          (room_members r)\<rparr>)"

abbreviation join_order :: "'m \<times> 'd room_member \<Rightarrow> u128" where
  "join_order p \<equiv> rm_joined_order (snd p)"

definition room_members_in_join_order :: "('i, 'm, 'd) room \<Rightarrow> 'm list" where
  "room_members_in_join_order r = map fst (sort_key join_order (room_members r))"

definition room_join ::
    "('i, 'm, 'd) room \<Rightarrow> 'm \<Rightarrow> 'd \<Rightarrow> (room_error + unit) \<times> ('i, 'm, 'd) room" where
  "room_join r m d =
     (if room_phase r = Closed
         \<or> (room_phase r = Active \<and> \<not> rc_allow_join_in_progress (room_cfg r))
      then (Inl NotOpen, r)
      else if contains_key (room_members r) m then (Inl AlreadyMember, r)
      else if rc_capacity (room_cfg r) \<le> length (room_members r) then (Inl Full, r)
      else
        (let order = room_next_join_order r
         in (Inr (),
             r\<lparr>room_next_join_order := sat_add (room_next_join_order r) 1,
               room_leader := (if room_leader r = None then Some m else room_leader r),
               room_members := hm_insert m
                 \<lparr>rm_data = d, rm_ready = False, rm_joined_order = order\<rparr> (room_members r)\<rparr>)))"

definition room_leave ::
    "('i, 'm, 'd) room \<Rightarrow> 'm \<Rightarrow>
     (room_error + ('m, 'd) room_departure) \<times> ('i, 'm, 'd) room" where
  "room_leave r m =
     (case map_of (room_members r) m of
        None \<Rightarrow> (Inl MemberNotFound, r)
      | Some removed \<Rightarrow>
          (let members = map_remove m (room_members r);
               leader =
                 (if room_leader r = Some m then map_option fst (min_by_key join_order members)
                  else room_leader r)
           in (Inr \<lparr>rd_data = rm_data removed, rd_new_leader = leader,
                     rd_empty = (members = [])\<rparr>,
               r\<lparr>room_members := members, room_leader := leader\<rparr>)))"

definition room_transfer_leader ::
    "('i, 'm, 'd) room \<Rightarrow> 'm \<Rightarrow> (room_error + unit) \<times> ('i, 'm, 'd) room" where
  "room_transfer_leader r m =
     (if \<not> contains_key (room_members r) m then (Inl MemberNotFound, r)
      else (Inr (), r\<lparr>room_leader := Some m\<rparr>))"

definition room_set_ready ::
    "('i, 'm, 'd) room \<Rightarrow> 'm \<Rightarrow> bool \<Rightarrow> (room_error + unit) \<times> ('i, 'm, 'd) room" where
  "room_set_ready r m ready =
     (if room_phase r \<noteq> Open then (Inl NotOpen, r)
      else if \<not> contains_key (room_members r) m then (Inl MemberNotFound, r)
      else (Inr (),
        r\<lparr>room_members := map_adjust m (\<lambda>v. v\<lparr>rm_ready := ready\<rparr>) (room_members r)\<rparr>))"

definition room_ready_count :: "('i, 'm, 'd) room \<Rightarrow> usize" where
  "room_ready_count r = length (filter (\<lambda>p. rm_ready (snd p)) (room_members r))"

definition room_can_start :: "('i, 'm, 'd) room \<Rightarrow> bool" where
  "room_can_start r \<longleftrightarrow>
     room_phase r = Open \<and> rc_minimum_to_start (room_cfg r) \<le> length (room_members r) \<and>
     (\<not> rc_require_all_ready (room_cfg r) \<or> room_ready_count r = length (room_members r))"

definition room_start :: "('i, 'm, 'd) room \<Rightarrow> (room_error + unit) \<times> ('i, 'm, 'd) room" where
  "room_start r =
     (if room_phase r \<noteq> Open then (Inl NotOpen, r)
      else if length (room_members r) < rc_minimum_to_start (room_cfg r)
        then (Inl (NotEnoughMembers (rc_minimum_to_start (room_cfg r)) (length (room_members r))), r)
      else if rc_require_all_ready (room_cfg r) \<and> room_ready_count r \<noteq> length (room_members r)
        then (Inl MembersNotReady, r)
      else (Inr (), r\<lparr>room_phase := Active\<rparr>))"

definition room_close :: "('i, 'm, 'd) room \<Rightarrow> ('i, 'm, 'd) room" where
  "room_close r = r\<lparr>room_phase := Closed\<rparr>"

subsection \<open>Sequences of calls\<close>

datatype ('m, 'd) room_op =
    Join 'm 'd
  | Leave 'm
  | TransferLeader 'm
  | SetReady 'm bool
  | MemberMut 'm "'d \<Rightarrow> 'd" "bool \<Rightarrow> bool"
  | Start
  | Close

type_synonym ('m, 'd) room_outcome = "room_error + ('m, 'd) room_departure option"

abbreviation done_outcome :: "room_error + unit \<Rightarrow> ('m, 'd) room_outcome" where
  "done_outcome \<equiv> map_sum id (\<lambda>_. None)"

fun room_exec ::
    "('i, 'm, 'd) room \<Rightarrow> ('m, 'd) room_op \<Rightarrow> ('m, 'd) room_outcome \<times> ('i, 'm, 'd) room" where
  "room_exec r (Join m d) = map_prod done_outcome id (room_join r m d)"
| "room_exec r (Leave m) = map_prod (map_sum id Some) id (room_leave r m)"
| "room_exec r (TransferLeader m) = map_prod done_outcome id (room_transfer_leader r m)"
| "room_exec r (SetReady m b) = map_prod done_outcome id (room_set_ready r m b)"
| "room_exec r (MemberMut m f g) =
     map_prod (\<lambda>found. if found then Inr None else Inl MemberNotFound) id (room_member_mut r m f g)"
| "room_exec r Start = map_prod done_outcome id (room_start r)"
| "room_exec r Close = (Inr None, room_close r)"

fun room_run ::
    "('i, 'm, 'd) room \<Rightarrow> ('m, 'd) room_op list \<Rightarrow>
     ('m, 'd) room_outcome list \<times> ('i, 'm, 'd) room" where
  "room_run r [] = ([], r)"
| "room_run r (c # cs) =
     (let (out, r') = room_exec r c; (outs, r'') = room_run r' cs in (out # outs, r''))"

text \<open>The same calls on a map that iterates in another order each time.\<close>

inductive room_steps ::
    "('i, 'm, 'd) room \<Rightarrow> ('m, 'd) room_op list \<Rightarrow> ('m, 'd) room_outcome list \<Rightarrow> ('i, 'm, 'd) room \<Rightarrow> bool" where
  room_done: "room_steps r [] [] r"
| room_call: "mset members = mset (room_members r) \<Longrightarrow> room_exec (r\<lparr>room_members := members\<rparr>) c = (out, r') \<Longrightarrow>
     room_steps r' cs outs r'' \<Longrightarrow> room_steps r (c # cs) (out # outs) r''"

inductive_cases room_steps_Cons: "room_steps r (c # cs) outs r'"

subsection \<open>Specification: a roster in join order\<close>

record ('m, 'd) roster =
  ro_config :: room_config
  ro_phase :: room_phase
  ro_leader :: "'m option"
  ro_members :: "('m \<times> 'd \<times> bool) list"

fun roster_exec ::
    "('m, 'd) roster \<Rightarrow> ('m, 'd) room_op \<Rightarrow> ('m, 'd) room_outcome \<times> ('m, 'd) roster" where
  "roster_exec ro (Join m d) =
     (if ro_phase ro = Closed \<or> ro_phase ro = Active \<and> \<not> rc_allow_join_in_progress (ro_config ro)
      then (Inl NotOpen, ro)
      else if m \<in> fst ` set (ro_members ro) then (Inl AlreadyMember, ro)
      else if rc_capacity (ro_config ro) \<le> length (ro_members ro) then (Inl Full, ro)
      else (Inr None, ro\<lparr>ro_members := ro_members ro @ [(m, d, False)],
              ro_leader := (if ro_leader ro = None then Some m else ro_leader ro)\<rparr>))"
| "roster_exec ro (Leave m) =
     (case map_of (ro_members ro) m of
        None \<Rightarrow> (Inl MemberNotFound, ro)
      | Some (d, _) \<Rightarrow>
          (let rest = filter (\<lambda>p. fst p \<noteq> m) (ro_members ro);
               leader = (if ro_leader ro = Some m
                         then (case rest of [] \<Rightarrow> None | p # _ \<Rightarrow> Some (fst p)) else ro_leader ro)
           in (Inr (Some \<lparr>rd_data = d, rd_new_leader = leader, rd_empty = (rest = [])\<rparr>),
               ro\<lparr>ro_members := rest, ro_leader := leader\<rparr>)))"
| "roster_exec ro (TransferLeader m) =
     (if m \<in> fst ` set (ro_members ro) then (Inr None, ro\<lparr>ro_leader := Some m\<rparr>)
      else (Inl MemberNotFound, ro))"
| "roster_exec ro (SetReady m b) =
     (if ro_phase ro \<noteq> Open then (Inl NotOpen, ro)
      else if m \<in> fst ` set (ro_members ro)
        then (Inr None, ro\<lparr>ro_members := map_adjust m (\<lambda>(d, _). (d, b)) (ro_members ro)\<rparr>)
      else (Inl MemberNotFound, ro))"
| "roster_exec ro (MemberMut m f g) =
     (if m \<in> fst ` set (ro_members ro)
      then (Inr None, ro\<lparr>ro_members := map_adjust m (\<lambda>(d, b). (f d, g b)) (ro_members ro)\<rparr>)
      else (Inl MemberNotFound, ro))"
| "roster_exec ro Start =
     (if ro_phase ro \<noteq> Open then (Inl NotOpen, ro)
      else if length (ro_members ro) < rc_minimum_to_start (ro_config ro)
        then (Inl (NotEnoughMembers (rc_minimum_to_start (ro_config ro)) (length (ro_members ro))), ro)
      else if rc_require_all_ready (ro_config ro) \<and> (\<exists>(_, _, ready) \<in> set (ro_members ro). \<not> ready)
        then (Inl MembersNotReady, ro)
      else (Inr None, ro\<lparr>ro_phase := Active\<rparr>))"
| "roster_exec ro Close = (Inr None, ro\<lparr>ro_phase := Closed\<rparr>)"

fun roster_run ::
    "('m, 'd) roster \<Rightarrow> ('m, 'd) room_op list \<Rightarrow> ('m, 'd) room_outcome list \<times> ('m, 'd) roster" where
  "roster_run ro [] = ([], ro)"
| "roster_run ro (c # cs) =
     (let (out, ro') = roster_exec ro c; (outs, ro'') = roster_run ro' cs in (out # outs, ro''))"

definition roster_entry :: "'m \<times> 'd room_member \<Rightarrow> 'm \<times> 'd \<times> bool" where
  "roster_entry p = (fst p, rm_data (snd p), rm_ready (snd p))"

definition room_abs :: "('i, 'm, 'd) room \<Rightarrow> ('m, 'd) roster" where
  "room_abs r = \<lparr>ro_config = room_cfg r, ro_phase = room_phase r, ro_leader = room_leader r,
     ro_members = map roster_entry (sort_key join_order (room_members r))\<rparr>"

text \<open>Between calls the keys are distinct, the join numbers are, and every number given out is below the next one.\<close>

definition room_inv :: "('i, 'm, 'd) room \<Rightarrow> bool" where
  "room_inv r \<longleftrightarrow> hm_wf (room_members r) \<and> inj_on join_order (set (room_members r)) \<and>
     (\<forall>p \<in> set (room_members r). join_order p < room_next_join_order r)"

subsection \<open>Refinement\<close>

lemma room_abs_simps [simp]:
  "ro_config (room_abs r) = room_cfg r" "ro_phase (room_abs r) = room_phase r"
  "ro_leader (room_abs r) = room_leader r"
  "ro_members (room_abs r) = map roster_entry (sort_key join_order (room_members r))"
  by (simp_all add: room_abs_def)

lemma fst_roster_entry [simp]: "fst (roster_entry p) = fst p"
  by (simp add: roster_entry_def)

lemma contains_key_iff: "contains_key m k \<longleftrightarrow> k \<in> fst ` set m"
  by (auto simp: contains_key_def map_of_eq_None_iff)

lemma roster_lookup:
  assumes "hm_wf m"
  shows "map_of (map roster_entry (sort_key join_order m)) k =
    map_option (\<lambda>v. (rm_data v, rm_ready v)) (map_of m k)"
proof -
  have "map_of (map roster_entry ps) k = map_option (\<lambda>v. (rm_data v, rm_ready v)) (map_of ps k)"
    for ps :: "('a \<times> 'b room_member) list"
    by (induction ps) (auto simp: roster_entry_def)
  moreover have "map_of (sort_key join_order m) = map_of m"
    using assms by (intro map_of_inject_set [THEN iffD2]) (auto simp: hm_wf_def distinct_map)
  ultimately show ?thesis by simp
qed

lemma roster_adjust:
  assumes "\<And>v. rm_joined_order (f v) = rm_joined_order v"
    and "\<And>v. (rm_data (f v), rm_ready (f v)) = g (rm_data v, rm_ready v)"
  shows "map roster_entry (sort_key join_order (map_adjust k f m)) =
    map_adjust k g (map roster_entry (sort_key join_order m))"
  unfolding map_adjust_def using assms
  by (subst sort_key_map_same) (auto simp: roster_entry_def)

lemma roster_hd_fst:
  "(case map roster_entry xs of [] \<Rightarrow> None | p # _ \<Rightarrow> Some (fst p)) =
   map_option fst (case xs of [] \<Rightarrow> None | p # _ \<Rightarrow> Some p)"
  by (cases xs) simp_all

lemma room_join_refines:
  assumes "room_inv r"
  shows "roster_exec (room_abs r) (Join m d) = map_prod id room_abs (room_exec r (Join m d))"
proof (cases "contains_key (room_members r) m")
  case True
  then show ?thesis
    by (auto simp: room_join_def contains_key_iff image_comp comp_def)
next
  case False
  then have "map_remove m (room_members r) = room_members r"
    by (simp add: map_remove_absent contains_key_def)
  moreover have "insort_key join_order (m, v) (sort_key join_order (room_members r)) =
      sort_key join_order (room_members r) @ [(m, v)]"
    if "rm_joined_order v = room_next_join_order r" for v
    using assms that by (intro insort_key_last) (auto simp: room_inv_def)
  ultimately show ?thesis
    using False by (auto simp: room_join_def contains_key_iff image_comp comp_def Let_def
        hm_insert_def room_abs_def roster_entry_def)
qed

lemma room_leave_refines:
  assumes "room_inv r"
  shows "roster_exec (room_abs r) (Leave m) = map_prod id room_abs (room_exec r (Leave m))"
proof (cases "map_of (room_members r) m")
  case None
  then show ?thesis
    using assms by (simp add: room_leave_def roster_lookup room_inv_def)
next
  case (Some v)
  let ?rest = "sort_key join_order (map_remove m (room_members r))"
  have "filter (\<lambda>p. fst p \<noteq> m) (map roster_entry (sort_key join_order (room_members r))) =
      map roster_entry ?rest"
    by (simp add: map_remove_def filter_map comp_def filter_sort)
  then show ?thesis
    using assms Some
    by (simp add: room_leave_def roster_lookup room_inv_def Let_def min_by_key_sort roster_hd_fst
        room_abs_def)
qed

lemma room_all_ready_iff:
  "room_ready_count r = length (room_members r) \<longleftrightarrow>
   (\<forall>(_, _, ready) \<in> set (ro_members (room_abs r)). ready)"
proof -
  have "room_ready_count r = length (room_members r) \<longleftrightarrow>
      filter (\<lambda>p. rm_ready (snd p)) (room_members r) = room_members r"
    unfolding room_ready_count_def by (metis filter_id_conv length_filter_less less_irrefl)
  then show ?thesis
    by (auto simp: filter_id_conv roster_entry_def)
qed

lemma room_exec_refines:
  assumes "room_inv r"
  shows "roster_exec (room_abs r) c = map_prod id room_abs (room_exec r c)"
proof (cases c)
  case Start
  then show ?thesis
    using room_all_ready_iff [of r]
    by (auto simp: room_start_def room_abs_def)
next
  case (SetReady m b)
  then show ?thesis
    by (auto simp: room_set_ready_def contains_key_iff image_comp comp_def room_abs_def
        intro!: roster_adjust [symmetric])
next
  case (MemberMut m f g)
  have "map_adjust m h (room_members r) = room_members r" if "\<not> contains_key (room_members r) m" for h
    using that by (force simp: map_adjust_def contains_key_iff intro!: map_idI)
  with MemberMut show ?thesis
    by (auto simp: room_member_mut_def contains_key_iff image_comp comp_def room_abs_def
        intro!: roster_adjust [symmetric])
next
  case (Join m d)
  then show ?thesis using room_join_refines [OF assms] by simp
next
  case (Leave m)
  then show ?thesis using room_leave_refines [OF assms] by simp
qed (auto simp: room_transfer_leader_def room_close_def contains_key_iff image_comp comp_def
    room_abs_def)

lemma room_adjust_inv:
  assumes "hm_wf m" "inj_on join_order (set m)" "\<forall>p \<in> set m. join_order p < n"
    and "\<And>v. rm_joined_order (f v) = rm_joined_order v"
  shows "hm_wf (map_adjust k f m) \<and> inj_on join_order (set (map_adjust k f m)) \<and>
    (\<forall>p \<in> set (map_adjust k f m). join_order p < n)"
proof -
  let ?g = "\<lambda>p. if fst p = k then (k, f (snd p)) else p"
  have adjust: "map_adjust k f m = map ?g m" by (auto simp: map_adjust_def)
  have order: "join_order (?g p) = join_order p" for p using assms(4) by simp
  have "inj_on join_order (?g ` set m)"
  proof (rule inj_onI)
    fix p q assume "p \<in> ?g ` set m" "q \<in> ?g ` set m" and eq: "join_order p = join_order q"
    then obtain p' q' where p': "p' \<in> set m" "p = ?g p'" and q': "q' \<in> set m" "q = ?g q'" by blast
    then have "join_order p' = join_order q'" using eq order by metis
    with p' q' assms(2) show "p = q" by (metis inj_onD)
  qed
  moreover have "\<forall>p \<in> ?g ` set m. join_order p < n" using assms(3,4) by auto
  moreover have "hm_wf (map_adjust k f m)" using assms(1) by (simp add: hm_wf_def)
  ultimately show ?thesis by (simp add: adjust)
qed

lemma room_inv_permute:
  assumes "room_inv r" "mset members = mset (room_members r)"
  shows "room_inv (r\<lparr>room_members := members\<rparr>)" "room_abs (r\<lparr>room_members := members\<rparr>) = room_abs r"
proof -
  have same: "set members = set (room_members r)" using assms(2) by (metis set_mset_mset)
  have "mset (map fst members) = mset (map fst (room_members r))" using assms(2) by simp
  then have "distinct (map fst members)"
    using assms(1) mset_eq_imp_distinct_iff [of "map fst members" "map fst (room_members r)"]
    by (auto simp: room_inv_def hm_wf_def)
  then show "room_inv (r\<lparr>room_members := members\<rparr>)"
    using assms(1) same by (simp add: room_inv_def hm_wf_def)
  have "inj_on join_order (set members)" using assms(1) same by (simp add: room_inv_def)
  then have "sort_key join_order members = sort_key join_order (room_members r)"
    using assms(2) by (intro sort_key_inj_key_eq) simp_all
  then show "room_abs (r\<lparr>room_members := members\<rparr>) = room_abs r" by (simp add: room_abs_def)
qed

lemma room_exec_inv:
  assumes "room_inv r" and "room_next_join_order r \<noteq> - 1"
  shows "room_inv (snd (room_exec r c))"
proof (cases c)
  case (Join m d)
  have less: "room_next_join_order r < sat_add (room_next_join_order r) 1"
    using assms(2) by (rule sat_succ_less)
  let ?new = "(m, \<lparr>rm_data = d, rm_ready = False, rm_joined_order = room_next_join_order r\<rparr>)"
  have old: "inj_on join_order (set (room_members r))" "\<forall>p \<in> set (room_members r). join_order p < room_next_join_order r"
    using assms(1) unfolding room_inv_def by blast+
  have "room_next_join_order r \<notin> join_order ` set (room_members r)"
  proof
    assume "room_next_join_order r \<in> join_order ` set (room_members r)"
    then obtain p where "p \<in> set (room_members r)" "room_next_join_order r = join_order p" by (rule imageE)
    with old(2) show False by fastforce
  qed
  then have "inj_on join_order (insert ?new (set (room_members r)))"
    using old(1) unfolding inj_on_insert by (simp, meson Diff_subset image_mono subsetD)
  moreover have "set (hm_insert m (snd ?new) (room_members r)) \<subseteq> insert ?new (set (room_members r))"
    by (auto simp: hm_insert_def map_remove_def)
  ultimately have inj: "inj_on join_order (set (hm_insert m (snd ?new) (room_members r)))" by (rule inj_on_subset)
  have below: "\<forall>p \<in> set (hm_insert m (snd ?new) (room_members r)). join_order p < sat_add (room_next_join_order r) 1"
  proof
    fix p assume "p \<in> set (hm_insert m (snd ?new) (room_members r))"
    then have "p = ?new \<or> p \<in> set (room_members r)" by (auto simp: hm_insert_def map_remove_def)
    then have "join_order p \<le> room_next_join_order r" using assms(1) by (auto simp: room_inv_def)
    then show "join_order p < sat_add (room_next_join_order r) 1" using less by (rule order_le_less_trans)
  qed
  have wf: "hm_wf (hm_insert m (snd ?new) (room_members r))" using assms(1) by (simp add: room_inv_def hm.map_laws)
  have "snd (room_exec r c) = r \<or> room_members (snd (room_exec r c)) = hm_insert m (snd ?new) (room_members r) \<and>
      room_next_join_order (snd (room_exec r c)) = sat_add (room_next_join_order r) 1"
    by (simp add: Join room_join_def Let_def)
  then consider "snd (room_exec r c) = r"
    | "room_members (snd (room_exec r c)) = hm_insert m (snd ?new) (room_members r)"
      "room_next_join_order (snd (room_exec r c)) = sat_add (room_next_join_order r) 1"
    by blast
  then show ?thesis
  proof cases
    case 1
    with assms(1) show ?thesis by simp
  next
    case 2
    with inj below wf show ?thesis unfolding room_inv_def by (simp del: map_of_eq_Some_iff)
  qed
next
  case (Leave m)
  have sub: "set (map_remove m (room_members r)) \<subseteq> set (room_members r)" by (auto simp: map_remove_def)
  have inj: "inj_on join_order (set (map_remove m (room_members r)))"
    using assms(1) unfolding room_inv_def by (meson inj_on_subset sub)
  have below: "\<forall>p \<in> set (map_remove m (room_members r)). join_order p < room_next_join_order r"
    using assms(1) sub unfolding room_inv_def by blast
  have wf: "hm_wf (map_remove m (room_members r))" using assms(1) by (simp add: room_inv_def hm.map_laws)
  have "snd (room_exec r c) = r \<or> room_members (snd (room_exec r c)) = map_remove m (room_members r) \<and>
      room_next_join_order (snd (room_exec r c)) = room_next_join_order r"
    by (simp add: Leave room_leave_def Let_def split: option.split)
  then consider "snd (room_exec r c) = r"
    | "room_members (snd (room_exec r c)) = map_remove m (room_members r)"
      "room_next_join_order (snd (room_exec r c)) = room_next_join_order r"
    by blast
  then show ?thesis
  proof cases
    case 1
    with assms(1) show ?thesis by simp
  next
    case 2
    with inj below wf show ?thesis unfolding room_inv_def by simp
  qed
next
  case (SetReady m b)
  with assms show ?thesis
    using room_adjust_inv [of "room_members r" "room_next_join_order r" "\<lambda>v. v\<lparr>rm_ready := b\<rparr>" m]
    by (simp add: room_inv_def room_set_ready_def)
next
  case (MemberMut m f g)
  with assms show ?thesis
    using room_adjust_inv [of "room_members r" "room_next_join_order r"
        "\<lambda>v. v\<lparr>rm_data := f (rm_data v), rm_ready := g (rm_ready v)\<rparr>" m]
    by (simp add: room_inv_def room_member_mut_def)
qed (use assms in \<open>simp_all add: room_inv_def room_transfer_leader_def room_start_def room_close_def\<close>)

lemma room_exec_next_order:
  "unat (room_next_join_order (snd (room_exec r c))) \<le> Suc (unat (room_next_join_order r))"
  by (cases c) (auto simp: room_join_def room_leave_def room_set_ready_def room_member_mut_def
      room_transfer_leader_def room_start_def room_close_def Let_def rust_arith
      split: option.splits)

lemma room_run_config: "room_cfg (snd (room_run r cs)) = room_cfg r"
proof (induction cs arbitrary: r)
  case (Cons c cs)
  have "room_cfg (snd (room_exec r c)) = room_cfg r"
    by (cases c) (auto simp: room_join_def room_leave_def room_set_ready_def room_member_mut_def
        room_transfer_leader_def room_start_def room_close_def Let_def split: option.splits)
  with Cons show ?case by (simp add: split_beta Let_def)
qed simp

lemma room_run_refines:
  assumes "room_inv r" "unat (room_next_join_order r) + length cs < 2 ^ 128"
  shows "roster_run (room_abs r) cs = map_prod id room_abs (room_run r cs) \<and>
    room_inv (snd (room_run r cs))"
  using assms
proof (induction cs arbitrary: r)
  case (Cons c cs)
  let ?r = "snd (room_exec r c)"
  have "room_next_join_order r \<noteq> - 1"
    using Cons.prems(2) by (auto simp: unat_max)
  then have "room_inv ?r" by (rule room_exec_inv [OF Cons.prems(1)])
  moreover have "unat (room_next_join_order ?r) + length cs < 2 ^ 128"
    using room_exec_next_order [of r c] Cons.prems(2) by simp
  ultimately show ?case
    using Cons.IH [of ?r] room_exec_refines [OF Cons.prems(1), of c]
    by (simp add: split_beta Let_def)
qed simp

lemma room_steps_refines:
  assumes "room_steps r cs outs r'" "room_inv r" "unat (room_next_join_order r) + length cs < 2 ^ 128"
  shows "roster_run (room_abs r) cs = (outs, room_abs r')"
  using assms
proof (induction rule: room_steps.induct)
  case (room_call members r c out r1 cs outs r2)
  note perm = room_inv_permute [OF room_call.prems(1) room_call.hyps(1)]
  have "room_next_join_order r \<noteq> - 1" using room_call.prems(2) by (auto simp: unat_max)
  then have inv: "room_inv r1" using room_exec_inv [OF perm(1), of c] room_call.hyps(2) by simp
  have "unat (room_next_join_order r1) + length cs < 2 ^ 128"
    using room_exec_next_order [of "r\<lparr>room_members := members\<rparr>" c] room_call.hyps(2) room_call.prems(2) by simp
  from room_call.IH [OF inv this] show ?case
    using room_exec_refines [OF perm(1), of c] room_call.hyps(2) by (simp add: perm(2))
qed simp

subsection \<open>Leadership in the specification\<close>

definition roster_inv :: "('m, 'd) roster \<Rightarrow> bool" where
  "roster_inv ro \<longleftrightarrow>
     length (ro_members ro) \<le> rc_capacity (ro_config ro) \<and>
     (case ro_leader ro of None \<Rightarrow> ro_members ro = [] | Some m \<Rightarrow> m \<in> fst ` set (ro_members ro))"

lemma roster_exec_inv:
  assumes "roster_inv ro"
  shows "roster_inv (snd (roster_exec ro c))"
proof (cases c)
  case (Leave m)
  let ?rest = "filter (\<lambda>p. fst p \<noteq> m) (ro_members ro)"
  have len: "length ?rest \<le> length (ro_members ro)" by (rule length_filter_le)
  have keep: "l \<in> fst ` set ?rest" if "(l, x) \<in> set (ro_members ro)" "l \<noteq> m" for l x
    using that by force
  from assms len Leave keep show ?thesis
    by (cases ?rest; cases "map_of (ro_members ro) m"; cases "ro_leader ro")
      (auto simp: roster_inv_def Let_def)
qed (use assms in \<open>auto simp: roster_inv_def split: option.splits\<close>)

lemma roster_run_inv: "roster_inv ro \<Longrightarrow> roster_inv (snd (roster_run ro cs))"
proof (induction cs arbitrary: ro)
  case (Cons c cs)
  then show ?case
    using Cons.IH [OF roster_exec_inv [OF Cons.prems]] by (simp add: split_beta Let_def)
qed simp

lemma room_new_inv: "room_new i config = Inr r \<Longrightarrow> room_inv r \<and> room_next_join_order r = 0 \<and>
    room_abs r = \<lparr>ro_config = config, ro_phase = Open, ro_leader = None, ro_members = []\<rparr>"
  by (auto simp: room_new_def room_inv_def room_abs_def hm.map_laws split: sum.splits)

subsection \<open>Properties\<close>

text \<open>C6. A room answers every sequence of calls exactly as a roster kept in join order: the same
  result for each call, the same members with the same data and readiness in join order, the
  same leader and phase, in whatever order the hash map iterates at each call. In particular a
  departing leader is succeeded by the earliest remaining member. When another member leaves, the
  leader stays, and the departure reports the leader there is after the call, which after
  \<open>transfer_leader\<close> need not be the earliest member. The bound on the number of calls is the one
  at which the 128-bit join counter would saturate.\<close>

theorem room_refines_roster:
  assumes "room_new i config = Inr r" "room_steps r cs outs r'" "length cs < 2 ^ 128"
  shows "roster_run \<lparr>ro_config = config, ro_phase = Open, ro_leader = None, ro_members = []\<rparr> cs =
    (outs, room_abs r')"
  using room_steps_refines [OF assms(2)] room_new_inv [OF assms(1)] assms(3) by simp

text \<open>After any sequence of calls on a new room the roster is within capacity, the room has a
  leader exactly when it has members, the leader is one of them, and \<open>can_start\<close> tells
  exactly whether \<open>start\<close> would succeed.\<close>

theorem room_leader_is_member:
  assumes "room_new i config = Inr r" and "length cs < 2 ^ 128"
    and "room_run r cs = (outs, r')"
  shows "room_len r' \<le> rc_capacity config \<and>
    (room_leader r' = None \<longleftrightarrow> room_is_empty r') \<and>
    (\<forall>m. room_leader r' = Some m \<longrightarrow> room_contains r' m) \<and>
    (room_can_start r' \<longleftrightarrow> fst (room_start r') = Inr ())"
proof -
  have "roster_inv (room_abs r')"
    using roster_run_inv [of "room_abs r" cs] room_run_refines [of r cs]
      room_new_inv [OF assms(1)] assms(2,3)
    by (simp add: roster_inv_def [of "\<lparr>ro_config = _, ro_phase = _, ro_leader = _, ro_members = _\<rparr>"])
  moreover have "room_cfg r' = config"
    using room_run_config [of r cs] room_new_inv [OF assms(1)] assms(3)
    by (auto simp: room_abs_def)
  ultimately show ?thesis
    by (auto simp: roster_inv_def room_len_def room_is_empty_def room_contains_def contains_key_iff
        image_comp comp_def room_can_start_def room_start_def split: option.splits)
qed

text \<open>Three members join, the leader hands over and both leaders leave in turn.\<close>

definition room_demo_ops :: "(nat, nat) room_op list" where
  "room_demo_ops = [Join 1 10, Join 2 20, Join 3 30, TransferLeader 3, Leave 3, SetReady 2 True]"

definition room_demo :: "(nat, nat, nat) room" where
  "room_demo = \<lparr>room_id = 7, room_cfg = room_config_default, room_phase = Open, room_leader = None,
     room_members = [], room_next_join_order = 0\<rparr>"

lemma room_demo_new: "room_new 7 room_config_default = Inr room_demo"
  by (simp add: room_new_def room_config_validate_def room_config_default_def room_demo_def)

lemma roster_demo:
  "roster_run \<lparr>ro_config = room_config_default, ro_phase = Open, ro_leader = None, ro_members = []\<rparr>
     room_demo_ops =
   ([Inr None, Inr None, Inr None, Inr None,
     Inr (Some \<lparr>rd_data = 30, rd_new_leader = Some 1, rd_empty = False\<rparr>), Inr None],
    \<lparr>ro_config = room_config_default, ro_phase = Open, ro_leader = Some 1,
     ro_members = [(1, 10, False), (2, 20, True)]\<rparr>)"
  by code_simp

text \<open>The same calls with the map turned round before each of them.\<close>

fun room_run_reversed ::
    "('i, 'm, 'd) room \<Rightarrow> ('m, 'd) room_op list \<Rightarrow> ('m, 'd) room_outcome list \<times> ('i, 'm, 'd) room" where
  "room_run_reversed r [] = ([], r)"
| "room_run_reversed r (c # cs) =
     (let (out, r') = room_exec (r\<lparr>room_members := rev (room_members r)\<rparr>) c;
          (outs, r'') = room_run_reversed r' cs in (out # outs, r''))"

lemma room_run_reversed_steps: "room_steps r cs (fst (room_run_reversed r cs)) (snd (room_run_reversed r cs))"
proof (induction cs arbitrary: r)
  case (Cons c cs)
  show ?case
    by (simp add: split_beta Let_def) (rule room_call [OF _ prod.collapse [symmetric]], simp, rule Cons.IH)
qed (simp add: room_done)

theorem room_refines_roster_witness:
  "ro_members (room_abs (snd (room_run_reversed room_demo room_demo_ops))) = [(1, 10, False), (2, 20, True)] \<and>
   ro_leader (room_abs (snd (room_run_reversed room_demo room_demo_ops))) = Some 1"
proof -
  have "length room_demo_ops < 2 ^ 128" by (simp add: room_demo_ops_def)
  from arg_cong [OF room_refines_roster [OF room_demo_new room_run_reversed_steps this], of snd] show ?thesis
    unfolding roster_demo by (simp add: room_abs_def)
qed

theorem room_leader_is_member_witness:
  "room_len (snd (room_run room_demo room_demo_ops)) \<le> 4 \<and>
   \<not> room_can_start (snd (room_run room_demo room_demo_ops))"
proof -
  have "fst (room_start (snd (room_run room_demo room_demo_ops))) = Inl MembersNotReady"
    by code_simp
  then show ?thesis
    using room_leader_is_member [OF room_demo_new _ prod.collapse [symmetric], of room_demo_ops]
    by (simp add: room_demo_ops_def) (simp add: room_config_default_def)
qed

end
