(* ===== verification/Fixed_Step.thy ===== *)
theory Fixed_Step
  imports Prelude
begin

section \<open>The fixed-step simulation clock\<close>

text \<open>
  Model of \<open>crates/elura-simulation/src/lib.rs\<close>: an accumulator that turns irregular
  elapsed times into a bounded number of steps of one fixed length. The simulation itself is
  a parameter, a callback on a state of its own that may fail.

  The properties say that no time is lost or invented (every nanosecond is simulated, waiting
  or counted as dropped) and that the steps a simulation commits are the same sequence for
  every way the elapsed time is cut up and for every pattern of failures.
\<close>

subsection \<open>Data\<close>

record simulation_config =
  si_step :: duration
  si_max_steps_per_update :: u32
  si_max_accumulated_time :: duration

record simulation_step =
  ss_tick :: u128
  ss_delta :: duration
  ss_simulation_time :: duration

text \<open>The 64-bit float quotient of two durations stays symbolic.\<close>

datatype f64_ratio = RatioOne | SecsRatio duration duration

record simulation_report =
  sr_steps :: u32
  sr_tick :: u128
  sr_simulation_time :: duration
  sr_backlog :: duration
  sr_backlog_steps :: u128
  sr_interpolation :: f64_ratio
  sr_dropped_time :: duration
  sr_total_dropped_time :: duration

datatype simulation_error = SimulationInvalidConfig string

record fixed_step_clock =
  fc_config :: simulation_config
  fc_accumulator :: duration
  fc_simulation_time :: duration
  fc_tick :: u128
  fc_total_dropped_time :: duration

subsection \<open>Operations\<close>

definition simulation_config_default :: simulation_config where
  "simulation_config_default = \<lparr>si_step = millis 50, si_max_steps_per_update = 4,
     si_max_accumulated_time = millis 500\<rparr>"

definition simulation_config_validate :: "simulation_config \<Rightarrow> simulation_error + unit" where
  "simulation_config_validate c =
     (if si_step c = 0 then Inl (SimulationInvalidConfig ''step must be positive'')
      else if si_max_steps_per_update c = 0
        then Inl (SimulationInvalidConfig ''max_steps_per_update must be positive'')
      else if si_max_accumulated_time c < si_step c
        then Inl (SimulationInvalidConfig ''max_accumulated_time must be at least one step'')
      else Inr ())"

definition fixed_step_clock_new :: "simulation_config \<Rightarrow> simulation_error + fixed_step_clock" where
  "fixed_step_clock_new config =
     (case simulation_config_validate config of
        Inl e \<Rightarrow> Inl e
      | Inr _ \<Rightarrow> Inr \<lparr>fc_config = config, fc_accumulator = 0, fc_simulation_time = 0,
          fc_tick = 0, fc_total_dropped_time = 0\<rparr>)"

definition whole_steps :: "duration \<Rightarrow> duration \<Rightarrow> u128" where
  "whole_steps d step = of_nat (d div step)"

definition duration_ratio :: "duration \<Rightarrow> duration \<Rightarrow> f64_ratio" where
  "duration_ratio d step = SecsRatio d step"

definition fixed_step_report :: "fixed_step_clock \<Rightarrow> u32 \<Rightarrow> duration \<Rightarrow> simulation_report" where
  "fixed_step_report c steps dropped_time =
     (let backlog_steps = whole_steps (fc_accumulator c) (si_step (fc_config c))
      in \<lparr>sr_steps = steps, sr_tick = fc_tick c, sr_simulation_time = fc_simulation_time c,
          sr_backlog = fc_accumulator c, sr_backlog_steps = backlog_steps,
          sr_interpolation = (if 0 < backlog_steps then RatioOne
            else duration_ratio (fc_accumulator c) (si_step (fc_config c))),
          sr_dropped_time = dropped_time, sr_total_dropped_time = fc_total_dropped_time c\<rparr>)"

text \<open>The steps of one update: the first failing callback ends the loop with its error.\<close>

primrec fixed_step_loop ::
    "('s \<Rightarrow> simulation_step \<Rightarrow> ('e + unit) \<times> 's) \<Rightarrow> nat \<Rightarrow> u32 \<Rightarrow> fixed_step_clock \<Rightarrow> 's \<Rightarrow>
     ('e + u32) \<times> fixed_step_clock \<times> 's" where
  "fixed_step_loop step 0 committed c s = (Inr committed, c, s)"
| "fixed_step_loop step (Suc n) committed c s =
     (let next_tick = sat_add (fc_tick c) 1;
          next_time = dur_sat_add (fc_simulation_time c) (si_step (fc_config c))
      in case step s \<lparr>ss_tick = next_tick, ss_delta = si_step (fc_config c),
                      ss_simulation_time = next_time\<rparr> of
           (Inl e, s') \<Rightarrow> (Inl e, c, s')
         | (Inr _, s') \<Rightarrow>
             fixed_step_loop step n (committed + 1)
               (c\<lparr>fc_tick := next_tick, fc_simulation_time := next_time,
                  fc_accumulator := fc_accumulator c - si_step (fc_config c)\<rparr>) s')"

definition fixed_step_advance ::
    "('s \<Rightarrow> simulation_step \<Rightarrow> ('e + unit) \<times> 's) \<Rightarrow> fixed_step_clock \<Rightarrow> duration \<Rightarrow> 's \<Rightarrow>
     ('e + simulation_report) \<times> fixed_step_clock \<times> 's" where
  "fixed_step_advance step c elapsed s =
     (let accumulated = dur_sat_add (fc_accumulator c) elapsed;
          limit = si_max_accumulated_time (fc_config c);
          dropped_time = accumulated - limit;
          c1 = c\<lparr>fc_accumulator := min accumulated limit,
                 fc_total_dropped_time := dur_sat_add (fc_total_dropped_time c) dropped_time\<rparr>;
          available = whole_steps (fc_accumulator c1) (si_step (fc_config c));
          scheduled = min available (ucast (si_max_steps_per_update (fc_config c)));
          (result, c2, s') = fixed_step_loop step (unat (ucast scheduled :: u32)) 0 c1 s
      in case result of
           Inl e \<Rightarrow> (Inl e, c2, s')
         | Inr committed \<Rightarrow> (Inr (fixed_step_report c2 committed dropped_time), c2, s'))"

definition fixed_step_reset :: "fixed_step_clock \<Rightarrow> fixed_step_clock" where
  "fixed_step_reset c = c\<lparr>fc_accumulator := 0, fc_simulation_time := 0, fc_tick := 0,
     fc_total_dropped_time := 0\<rparr>"

subsection \<open>Sequences of updates\<close>

primrec fixed_step_run ::
    "('s \<Rightarrow> simulation_step \<Rightarrow> ('e + unit) \<times> 's) \<Rightarrow> duration list \<Rightarrow> fixed_step_clock \<Rightarrow> 's \<Rightarrow>
     fixed_step_clock \<times> 's" where
  "fixed_step_run step [] c s = (c, s)"
| "fixed_step_run step (d # ds) c s =
     (let (_, c', s') = fixed_step_advance step c d s in fixed_step_run step ds c' s')"

text \<open>A simulation that also keeps the list of the steps it has committed.\<close>

definition recording ::
    "('s \<Rightarrow> simulation_step \<Rightarrow> ('e + unit) \<times> 's) \<Rightarrow> 's \<times> simulation_step list \<Rightarrow> simulation_step \<Rightarrow>
     ('e + unit) \<times> ('s \<times> simulation_step list)" where
  "recording step st x =
     (case step (fst st) x of
        (Inl e, s') \<Rightarrow> (Inl e, (s', snd st))
      | (Inr _, s') \<Rightarrow> (Inr (), (s', snd st @ [x])))"

definition nominal_step :: "duration \<Rightarrow> nat \<Rightarrow> simulation_step" where
  "nominal_step d k = \<lparr>ss_tick = of_nat k, ss_delta = d, ss_simulation_time = k * d\<rparr>"

definition clock_inv :: "simulation_config \<Rightarrow> nat \<Rightarrow> fixed_step_clock \<Rightarrow> simulation_step list \<Rightarrow> bool" where
  "clock_inv config elapsed c log \<longleftrightarrow>
     fc_config c = config \<and>
     fc_simulation_time c + fc_accumulator c + fc_total_dropped_time c = elapsed \<and>
     fc_simulation_time c = unat (fc_tick c) * si_step config \<and>
     fc_accumulator c \<le> si_max_accumulated_time config \<and>
     log = map (nominal_step (si_step config)) [1..<Suc (unat (fc_tick c))]"

subsection \<open>The invariant of a run\<close>

lemma duration_max_less: "duration_max < 2 ^ 128 - 1"
  by (simp add: duration_max_def)

lemma dur_sat_add_exact: "a + b \<le> duration_max \<Longrightarrow> dur_sat_add a b = a + b"
  by (simp add: dur_sat_add_def)

lemma clock_inv_next_tick:
  assumes "clock_inv config elapsed c log" "elapsed \<le> duration_max" "0 < si_step config"
  shows "unat (sat_add (fc_tick c) 1) = Suc (unat (fc_tick c))"
proof -
  have "unat (fc_tick c) \<le> unat (fc_tick c) * si_step config" using assms(3) by simp
  also have "\<dots> \<le> elapsed" using assms(1) by (simp add: clock_inv_def)
  finally have "unat (fc_tick c) < 2 ^ 128 - 1"
    using assms(2) duration_max_less by linarith
  then show ?thesis by (simp add: unat_sat_add)
qed

lemma clock_inv_commit:
  assumes inv: "clock_inv config elapsed c log" and bound: "elapsed \<le> duration_max"
    and pos: "0 < si_step config" and avail: "si_step config \<le> fc_accumulator c"
  defines "t \<equiv> sat_add (fc_tick c) 1"
    and "time \<equiv> dur_sat_add (fc_simulation_time c) (si_step (fc_config c))"
  shows "clock_inv config elapsed
      (c\<lparr>fc_tick := t, fc_simulation_time := time,
         fc_accumulator := fc_accumulator c - si_step (fc_config c)\<rparr>)
      (log @ [\<lparr>ss_tick = t, ss_delta = si_step (fc_config c), ss_simulation_time = time\<rparr>])"
proof -
  have tick: "unat t = Suc (unat (fc_tick c))"
    unfolding t_def by (rule clock_inv_next_tick [OF inv bound pos])
  then have t: "t = of_nat (Suc (unat (fc_tick c)))" by (metis of_nat_unat ucast_id)
  have "fc_simulation_time c + si_step config \<le> duration_max"
    using inv bound avail by (auto simp: clock_inv_def)
  then have "time = fc_simulation_time c + si_step config"
    using inv by (simp add: time_def dur_sat_add_exact clock_inv_def)
  then show ?thesis
    using inv avail tick t by (auto simp: clock_inv_def nominal_step_def)
qed

lemma recording_commit [simp]:
  "step (fst st) x = (Inr u, s') \<Longrightarrow> recording step st x = (Inr (), (s', snd st @ [x]))"
  by (simp add: recording_def)

lemma fixed_step_loop_inv:
  assumes "clock_inv config elapsed c (snd st)" "elapsed \<le> duration_max" "0 < si_step config"
    and "n * si_step config \<le> fc_accumulator c"
    and "fixed_step_loop (recording step) n k c st = (r, c', st')"
  shows "clock_inv config elapsed c' (snd st') \<and>
    (case r of
       Inl _ \<Rightarrow> unat (fc_tick c') < unat (fc_tick c) + n
     | Inr m \<Rightarrow> m = k + of_nat n \<and> unat (fc_tick c') = unat (fc_tick c) + n)"
  using assms
proof (induction n arbitrary: k c st)
  case (Suc n)
  let ?x = "\<lparr>ss_tick = sat_add (fc_tick c) 1, ss_delta = si_step (fc_config c),
      ss_simulation_time = dur_sat_add (fc_simulation_time c) (si_step (fc_config c))\<rparr>"
  let ?c = "c\<lparr>fc_tick := ss_tick ?x, fc_simulation_time := ss_simulation_time ?x,
      fc_accumulator := fc_accumulator c - si_step (fc_config c)\<rparr>"
  show ?case
  proof (cases "step (fst st) ?x")
    case (Pair q s')
    show ?thesis
    proof (cases q)
      case (Inl e)
      with Pair Suc.prems show ?thesis by (auto simp: recording_def Let_def)
    next
      case (Inr u)
      have "clock_inv config elapsed ?c (snd (s', snd st @ [?x]))"
        using clock_inv_commit [OF Suc.prems(1-3)] Suc.prems(4) by simp
      moreover have "fixed_step_loop (recording step) n (k + 1) ?c (s', snd st @ [?x]) = (r, c', st')"
        using Suc.prems(5) Pair Inr by (simp add: Let_def)
      moreover have "n * si_step config \<le> fc_accumulator ?c"
        using Suc.prems(1,4) by (simp add: clock_inv_def)
      moreover have "unat (fc_tick ?c) = Suc (unat (fc_tick c))"
        using clock_inv_next_tick [OF Suc.prems(1-3)] by simp
      ultimately show ?thesis
        using Suc.IH [of ?c "(s', snd st @ [?x])" "k + 1"] Suc.prems(2,3)
        by (auto simp: add.assoc split: sum.splits)
    qed
  qed
qed auto

text \<open>The number of steps one update schedules.\<close>

lemma scheduled_steps:
  assumes "d \<le> duration_max" "0 < step"
  shows "unat (ucast (min (whole_steps d step) (ucast (m :: u32))) :: u32) = min (d div step) (unat m)"
proof -
  have "d div step < 2 ^ 128"
    using assms duration_max_less div_le_dividend [of d step] by linarith
  then have "unat (whole_steps d step) = d div step"
    by (simp add: whole_steps_def unat_of_nat)
  moreover have "unat (ucast m :: u128) = unat m"
    using unat_lt2p [of m] by (simp add: unsigned_ucast_eq take_bit_nat_def)
  ultimately have "unat (min (whole_steps d step) (ucast m)) = min (d div step) (unat m)"
    by (simp add: min_def word_le_nat_alt)
  then show ?thesis
    using unat_lt2p [of m] by (simp add: unsigned_ucast_eq take_bit_nat_def)
qed

lemma fixed_step_advance_inv:
  assumes inv: "clock_inv config elapsed c (snd st)" and bound: "elapsed + d \<le> duration_max"
    and pos: "0 < si_step config"
    and run: "fixed_step_advance (recording step) c d st = (r, c', st')"
  defines "due \<equiv> min (min (fc_accumulator c + d) (si_max_accumulated_time config) div si_step config)
      (unat (si_max_steps_per_update config))"
  shows "clock_inv config (elapsed + d) c' (snd st') \<and>
    (case r of
       Inl _ \<Rightarrow> unat (fc_tick c') < unat (fc_tick c) + due
     | Inr report \<Rightarrow> report = fixed_step_report c' (of_nat due)
           (fc_accumulator c + d - si_max_accumulated_time config) \<and>
         unat (fc_tick c') = unat (fc_tick c) + due)"
proof -
  let ?acc = "fc_accumulator c + d" and ?limit = "si_max_accumulated_time config"
  let ?c = "c\<lparr>fc_accumulator := min ?acc ?limit,
      fc_total_dropped_time := fc_total_dropped_time c + (?acc - ?limit)\<rparr>"
  have config: "fc_config c = config" using inv by (simp add: clock_inv_def)
  have small: "?acc \<le> duration_max" "fc_total_dropped_time c + (?acc - ?limit) \<le> duration_max"
    using inv bound by (auto simp: clock_inv_def)
  have inv': "clock_inv config (elapsed + d) ?c (snd st)"
    using inv by (auto simp: clock_inv_def)
  have "unat (ucast (min (whole_steps (min ?acc ?limit) (si_step config))
      (ucast (si_max_steps_per_update config))) :: u32) = due"
    using scheduled_steps [of "min ?acc ?limit" "si_step config"] small(1) pos
    by (simp add: due_def)
  then obtain q where loop: "fixed_step_loop (recording step) due 0 ?c st = (q, c', st')"
    and r: "r = (case q of Inl e \<Rightarrow> Inl e | Inr k \<Rightarrow> Inr (fixed_step_report c' k (?acc - ?limit)))"
    using run by (auto simp: fixed_step_advance_def Let_def config dur_sat_add_exact small
        split: prod.splits sum.splits)
  have "due * si_step config \<le> (min ?acc ?limit div si_step config) * si_step config"
    unfolding due_def by (rule mult_le_mono1) simp
  also have "\<dots> \<le> min ?acc ?limit" by (rule div_times_less_eq_dividend)
  finally have "due * si_step config \<le> fc_accumulator ?c" by simp
  from fixed_step_loop_inv [OF inv' bound pos this loop] show ?thesis
    by (auto simp: r split: sum.splits)
qed

lemma fixed_step_loop_recording:
  "map_prod id (map_prod id fst) (fixed_step_loop (recording step) n k c st) =
   fixed_step_loop step n k c (fst st)"
  by (induction n arbitrary: k c st)
    (auto simp: recording_def Let_def split: prod.splits sum.splits)

lemma fixed_step_advance_recording:
  "map_prod id (map_prod id fst) (fixed_step_advance (recording step) c d st) =
   fixed_step_advance step c d (fst st)"
  unfolding fixed_step_advance_def Let_def fixed_step_loop_recording [symmetric]
  by (auto split: prod.splits sum.splits)

lemma fixed_step_run_recording:
  "map_prod id fst (fixed_step_run (recording step) ds c st) = fixed_step_run step ds c (fst st)"
proof (induction ds arbitrary: c st)
  case (Cons d ds)
  then show ?case
    unfolding fixed_step_run.simps fixed_step_advance_recording [symmetric]
    by (auto simp: Let_def split: prod.splits)
qed simp

lemma fixed_step_run_inv:
  assumes "clock_inv config elapsed c (snd st)" "elapsed + sum_list ds \<le> duration_max"
    and "0 < si_step config" and "fixed_step_run (recording step) ds c st = (c', st')"
  shows "clock_inv config (elapsed + sum_list ds) c' (snd st')"
  using assms
proof (induction ds arbitrary: elapsed c st)
  case (Cons d ds)
  obtain r c1 st1 where step: "fixed_step_advance (recording step) c d st = (r, c1, st1)"
    by (cases "fixed_step_advance (recording step) c d st") auto
  have "clock_inv config (elapsed + d) c1 (snd st1)"
    using fixed_step_advance_inv [OF Cons.prems(1) _ Cons.prems(3) step] Cons.prems(2) by simp
  from Cons.IH [OF this] show ?case
    using Cons.prems(2-4) step by (simp add: add.assoc)
qed simp

lemma fixed_step_clock_new_inv:
  "fixed_step_clock_new config = Inr c \<Longrightarrow> clock_inv config 0 c [] \<and> 0 < si_step config"
  by (auto simp: fixed_step_clock_new_def simulation_config_validate_def clock_inv_def
      split: sum.splits if_splits)

subsection \<open>Properties\<close>

text \<open>C7. No time is lost: after any updates with any pattern of failing steps, the simulated time,
  the backlog and the time counted as dropped add up to exactly the elapsed time that was
  supplied, the simulated time is the tick number times the step, and the backlog is within
  its limit.\<close>

theorem fixed_step_time_conserved:
  assumes "fixed_step_clock_new config = Inr c" and "sum_list ds \<le> duration_max"
    and "fixed_step_run step ds c s = (c', s')"
  shows "fc_simulation_time c' + fc_accumulator c' + fc_total_dropped_time c' = sum_list ds \<and>
    fc_simulation_time c' = unat (fc_tick c') * si_step config \<and>
    fc_accumulator c' \<le> si_max_accumulated_time config"
proof -
  obtain st' where "fixed_step_run (recording step) ds c (s, []) = (c', st')"
    using fixed_step_run_recording [of step ds c "(s, [])"] assms(3)
    by (cases "fixed_step_run (recording step) ds c (s, [])") auto
  moreover have "clock_inv config 0 c (snd (s, []))" "0 < si_step config"
    using fixed_step_clock_new_inv [OF assms(1)] by simp_all
  ultimately have "clock_inv config (sum_list ds) c' (snd st')"
    using fixed_step_run_inv [of config 0 c "(s, [])"] assms(2) by simp
  then show ?thesis by (simp add: clock_inv_def)
qed

text \<open>C14. The steps a simulation commits depend only on their number: whatever the elapsed times
  and whichever callbacks fail, the committed steps are tick 1, 2, 3 and so on, each with
  the configured delta and its exact simulation time. No tick is skipped or run twice.\<close>

theorem fixed_step_schedule:
  assumes "fixed_step_clock_new config = Inr c" and "sum_list ds \<le> duration_max"
    and "fixed_step_run (recording step) ds c (s, []) = (c', (s', log))"
  shows "log = map (nominal_step (si_step config)) [1..<Suc (unat (fc_tick c'))] \<and>
    fixed_step_run step ds c s = (c', s')"
proof
  have "clock_inv config 0 c (snd (s, []))" "0 < si_step config"
    using fixed_step_clock_new_inv [OF assms(1)] by simp_all
  then have "clock_inv config (sum_list ds) c' log"
    using fixed_step_run_inv [of config 0 c "(s, [])"] assms(2,3) by fastforce
  then show "log = map (nominal_step (si_step config)) [1..<Suc (unat (fc_tick c'))]"
    unfolding clock_inv_def by (elim conjE)
  show "fixed_step_run step ds c s = (c', s')"
    using fixed_step_run_recording [of step ds c "(s, [])"] assms(3) by simp
qed

text \<open>Updates of 13, 3 and 90 ns with steps of 5 ns; the third callback fails once.\<close>

definition fixed_demo_step :: "nat \<Rightarrow> simulation_step \<Rightarrow> (nat + unit) \<times> nat" where
  "fixed_demo_step s x = (if s = 2 then (Inl s, Suc s) else (Inr (), Suc s))"

definition fixed_demo_config :: simulation_config where
  "fixed_demo_config = \<lparr>si_step = 5, si_max_steps_per_update = 2, si_max_accumulated_time = 20\<rparr>"

definition fixed_demo_clock :: fixed_step_clock where
  "fixed_demo_clock = \<lparr>fc_config = fixed_demo_config, fc_accumulator = 0, fc_simulation_time = 0,
     fc_tick = 0, fc_total_dropped_time = 0\<rparr>"

lemma fixed_demo_new: "fixed_step_clock_new fixed_demo_config = Inr fixed_demo_clock"
  by (simp add: fixed_step_clock_new_def simulation_config_validate_def fixed_demo_config_def
      fixed_demo_clock_def)

lemma fixed_demo_run:
  "fixed_step_run (recording fixed_demo_step) [13, 3, 90] fixed_demo_clock (0, []) =
   (fixed_demo_clock\<lparr>fc_tick := 4, fc_simulation_time := 20, fc_accumulator := 10,
      fc_total_dropped_time := 76\<rparr>,
    (5, map (nominal_step 5) [1, 2, 3, 4]))"
  by code_simp

theorem fixed_step_time_conserved_witness:
  "fc_simulation_time (fst (fixed_step_run fixed_demo_step [13, 3, 90] fixed_demo_clock 0)) +
   fc_accumulator (fst (fixed_step_run fixed_demo_step [13, 3, 90] fixed_demo_clock 0)) +
   fc_total_dropped_time (fst (fixed_step_run fixed_demo_step [13, 3, 90] fixed_demo_clock 0)) = 106"
  using fixed_step_time_conserved
    [OF fixed_demo_new _ prod.collapse [symmetric], of "[13, 3, 90]" fixed_demo_step 0]
  by (simp add: duration_max_def del: fixed_step_run.simps)

theorem fixed_step_schedule_witness:
  "fst (fixed_step_run fixed_demo_step [13, 3, 90] fixed_demo_clock 0) =
     fixed_demo_clock\<lparr>fc_tick := 4, fc_simulation_time := 20, fc_accumulator := 10,
       fc_total_dropped_time := 76\<rparr>"
  using fixed_step_schedule [OF fixed_demo_new _ fixed_demo_run]
  by (simp add: duration_max_def del: fixed_step_run.simps)

end
