(* ===== verification/Core_Error.thy ===== *)
theory Core_Error
  imports Prelude
begin

section \<open>Errors and their public envelope\<close>

text \<open>
  Model of \<open>crates/elura-core/src/error.rs\<close>: the error type every service returns, the
  envelope that is sent to peers in its place, and the way back. JSON is a parameter, a pair
  of functions in \<open>json_codec\<close> of which the properties only use that decoding undoes
  encoding.

  A Rust string is the list of its bytes, so that \<open>len()\<close> is the length of the list. An
  \<open>io::Error\<close> carries its kind and either a message or the error it wraps; a
  \<open>serde_json::Error\<close> is the text it prints.
\<close>

type_synonym bytes = "u8 list"

subsection \<open>Data\<close>

datatype io_error_kind = UnexpectedEof | InvalidData | InvalidInput | OtherKind

datatype core_error =
    InvalidConfig string
  | InvalidFrame string
  | Authentication
  | DuplicateSession
  | SessionRevoked
  | AdmissionDenied string string u64
  | OutboxLeaseLost
  | OutboxNotFound
  | DuplicateEvent
  | AlreadyProcessed
  | Business string string bool
  | TicketExpired
  | TicketReplayed
  | RouteNotFound u32
  | DuplicateRoute u32
  | RateLimited
  | QueueFull
  | Unavailable
  | Timeout
  | Io io_error
  | Serialization string
  | Internal string
  and io_error =
    IoMessage io_error_kind string
  | IoWrapped io_error_kind core_error

record error_envelope =
  ee_code :: string
  ee_message :: string
  ee_retryable :: bool
  ee_retry_after_ms :: "u64 option"

record 'a json_codec =
  json_to_vec :: "'a \<Rightarrow> bytes option"
  json_from_slice :: "bytes \<Rightarrow> 'a option"

definition string_bytes :: "string \<Rightarrow> bytes" where
  "string_bytes s = map of_char s"

subsection \<open>ASCII\<close>

definition byte_in :: "nat \<Rightarrow> nat \<Rightarrow> char \<Rightarrow> bool" where
  "byte_in lo hi c \<longleftrightarrow> lo \<le> of_char c \<and> (of_char c :: nat) \<le> hi"

definition is_ascii_uppercase :: "char \<Rightarrow> bool" where
  "is_ascii_uppercase c \<longleftrightarrow> byte_in 65 90 c"

definition is_ascii_digit :: "char \<Rightarrow> bool" where
  "is_ascii_digit c \<longleftrightarrow> byte_in 48 57 c"

definition is_ascii_alphanumeric :: "char \<Rightarrow> bool" where
  "is_ascii_alphanumeric c \<longleftrightarrow> byte_in 65 90 c \<or> byte_in 97 122 c \<or> byte_in 48 57 c"

definition to_ascii_uppercase :: "char \<Rightarrow> char" where
  "to_ascii_uppercase c = (if byte_in 97 122 c then char_of ((of_char c :: nat) - 32) else c)"

text \<open>
  \<open>s.trim().is_empty()\<close>: every character is white space. The characters with the Unicode
  property \<open>White_Space\<close> are given by their UTF-8 bytes.
\<close>

definition ascii_space :: "char \<Rightarrow> bool" where
  "ascii_space c \<longleftrightarrow> byte_in 9 13 c \<or> byte_in 32 32 c"

fun trim_is_empty :: "string \<Rightarrow> bool" where
  "trim_is_empty [] = True"
| "trim_is_empty [a] = ascii_space a"
| "trim_is_empty [a, b] =
     (if ascii_space a then trim_is_empty [b]
      else a = CHR 0xC2 \<and> (b = CHR 0x85 \<or> b = CHR 0xA0))"
| "trim_is_empty (a # b # c # s) =
     (if ascii_space a then trim_is_empty (b # c # s)
      else if a = CHR 0xC2 \<and> (b = CHR 0x85 \<or> b = CHR 0xA0) then trim_is_empty (c # s)
      else ((a = CHR 0xE1 \<and> b = CHR 0x9A \<and> c = CHR 0x80)
         \<or> (a = CHR 0xE2 \<and> b = CHR 0x80 \<and>
             (byte_in 0x80 0x8A c \<or> byte_in 0xA8 0xA9 c \<or> c = CHR 0xAF))
         \<or> (a = CHR 0xE2 \<and> b = CHR 0x81 \<and> c = CHR 0x9F)
         \<or> (a = CHR 0xE3 \<and> b = CHR 0x80 \<and> c = CHR 0x80)) \<and> trim_is_empty s)"

text \<open>An unsigned integer in decimal, as \<open>write!\<close> prints it.\<close>

fun decimal :: "nat \<Rightarrow> string" where
  "decimal n = (if n < 10 then [char_of (48 + n)] else decimal (n div 10) @ [char_of (48 + n mod 10)])"

declare decimal.simps [simp del]

subsection \<open>Operations\<close>

definition error_envelope_new :: "string \<Rightarrow> string \<Rightarrow> bool \<Rightarrow> error_envelope" where
  "error_envelope_new code message retryable =
     \<lparr>ee_code = code, ee_message = message, ee_retryable = retryable, ee_retry_after_ms = None\<rparr>"

definition error_envelope_with_retry_after :: "error_envelope \<Rightarrow> u64 \<Rightarrow> error_envelope" where
  "error_envelope_with_retry_after e retry_after_ms =
     e\<lparr>ee_retry_after_ms := (if 0 < retry_after_ms then Some retry_after_ms else None)\<rparr>"

definition error_envelope_to_bytes :: "error_envelope json_codec \<Rightarrow> error_envelope \<Rightarrow> bytes" where
  "error_envelope_to_bytes J e =
     (case json_to_vec J e of
        Some v \<Rightarrow> v
      | None \<Rightarrow> string_bytes (''{'' @ [CHR 0x22] @ ''code'' @ [CHR 0x22] @ '':'' @ [CHR 0x22] @
          ''INTERNAL'' @ [CHR 0x22] @ '','' @ [CHR 0x22] @ ''message'' @ [CHR 0x22] @ '':'' @
          [CHR 0x22] @ ''internal error'' @ [CHR 0x22] @ '','' @ [CHR 0x22] @ ''retryable'' @
          [CHR 0x22] @ '':false}''))"

definition error_envelope_from_slice ::
    "error_envelope json_codec \<Rightarrow> bytes \<Rightarrow> core_error + error_envelope" where
  "error_envelope_from_slice J input =
     (case json_from_slice J input of
        None \<Rightarrow> Inl (InvalidFrame ''invalid error envelope'')
      | Some envelope \<Rightarrow>
          if ee_code envelope = [] \<or> 64 < length (ee_code envelope)
             \<or> 1024 < length (ee_message envelope)
             \<or> \<not> list_all (\<lambda>byte. is_ascii_uppercase byte \<or> is_ascii_digit byte \<or> byte = CHR ''_'')
                   (ee_code envelope)
          then Inl (InvalidFrame ''invalid error envelope fields'')
          else Inr envelope)"

definition error_envelope_into_error :: "error_envelope \<Rightarrow> core_error" where
  "error_envelope_into_error e =
     (if ee_code e = ''UNAUTHENTICATED'' then Authentication
      else if ee_code e = ''DUPLICATE_SESSION'' then DuplicateSession
      else if ee_code e = ''SESSION_REVOKED'' then SessionRevoked
      else if ee_code e = ''RATE_LIMITED'' then RateLimited
      else if ee_code e = ''QUEUE_FULL'' then QueueFull
      else if ee_code e = ''UNAVAILABLE'' then Unavailable
      else if ee_code e = ''TIMEOUT'' then Timeout
      else if ee_code e = ''INTERNAL'' then Internal ''remote service error''
      else Business (ee_code e) (ee_message e) (ee_retryable e))"

definition error_business :: "string \<Rightarrow> string \<Rightarrow> core_error" where
  "error_business code message = Business code message False"

definition error_retryable :: "string \<Rightarrow> string \<Rightarrow> core_error" where
  "error_retryable code message = Business code message True"

definition public_code :: "string \<Rightarrow> string" where
  "public_code v =
     (let code = map (\<lambda>byte. if is_ascii_alphanumeric byte then to_ascii_uppercase byte else CHR ''_'')
                   (take 64 v)
      in if code = [] then ''BUSINESS_ERROR'' else code)"

fun error_envelope_from :: "core_error \<Rightarrow> error_envelope" where
  "error_envelope_from (InvalidConfig _) =
     error_envelope_new ''INVALID_CONFIG'' ''invalid configuration'' False"
| "error_envelope_from (InvalidFrame _) =
     error_envelope_new ''INVALID_REQUEST'' ''invalid request'' False"
| "error_envelope_from (Serialization _) =
     error_envelope_new ''INVALID_REQUEST'' ''invalid request'' False"
| "error_envelope_from Authentication =
     error_envelope_new ''UNAUTHENTICATED'' ''authentication failed'' False"
| "error_envelope_from TicketExpired =
     error_envelope_new ''UNAUTHENTICATED'' ''authentication failed'' False"
| "error_envelope_from TicketReplayed =
     error_envelope_new ''UNAUTHENTICATED'' ''authentication failed'' False"
| "error_envelope_from DuplicateSession =
     error_envelope_new ''DUPLICATE_SESSION'' ''duplicate session'' False"
| "error_envelope_from SessionRevoked =
     error_envelope_new ''SESSION_REVOKED'' ''account session was revoked'' False"
| "error_envelope_from (AdmissionDenied code reason retry_after_ms) =
     error_envelope_with_retry_after (error_envelope_new (public_code code) reason True)
       retry_after_ms"
| "error_envelope_from (Business code message retryable) =
     error_envelope_new (public_code code) message retryable"
| "error_envelope_from (RouteNotFound _) =
     error_envelope_new ''ROUTE_NOT_FOUND'' ''route is not registered'' False"
| "error_envelope_from RateLimited =
     error_envelope_new ''RATE_LIMITED'' ''request rate exceeded'' True"
| "error_envelope_from QueueFull =
     error_envelope_new ''QUEUE_FULL'' ''service queue is full'' True"
| "error_envelope_from Unavailable =
     error_envelope_new ''UNAVAILABLE'' ''service is unavailable'' True"
| "error_envelope_from (Io _) =
     error_envelope_new ''UNAVAILABLE'' ''service is unavailable'' True"
| "error_envelope_from Timeout =
     error_envelope_new ''TIMEOUT'' ''operation timed out'' True"
| "error_envelope_from OutboxLeaseLost = error_envelope_new ''INTERNAL'' ''internal error'' False"
| "error_envelope_from OutboxNotFound = error_envelope_new ''INTERNAL'' ''internal error'' False"
| "error_envelope_from DuplicateEvent = error_envelope_new ''INTERNAL'' ''internal error'' False"
| "error_envelope_from AlreadyProcessed = error_envelope_new ''INTERNAL'' ''internal error'' False"
| "error_envelope_from (DuplicateRoute _) = error_envelope_new ''INTERNAL'' ''internal error'' False"
| "error_envelope_from (Internal _) = error_envelope_new ''INTERNAL'' ''internal error'' False"

fun error_display :: "core_error \<Rightarrow> string" and io_error_display :: "io_error \<Rightarrow> string" where
  "error_display (InvalidConfig message) = ''invalid configuration: '' @ message"
| "error_display (InvalidFrame message) = ''invalid frame: '' @ message"
| "error_display Authentication = ''authentication failed''"
| "error_display DuplicateSession = ''duplicate session''"
| "error_display SessionRevoked = ''account version revoked''"
| "error_display (AdmissionDenied code reason retry_after_ms) =
     ''admission denied ('' @ code @ ''): '' @ reason @ ''; retry after '' @
     decimal (unat retry_after_ms) @ ''ms''"
| "error_display OutboxLeaseLost = ''outbox lease was lost''"
| "error_display OutboxNotFound = ''outbox event was not found''"
| "error_display DuplicateEvent = ''outbox event ID conflicts with another event''"
| "error_display AlreadyProcessed = ''event was already processed''"
| "error_display (Business code message _) = code @ '': '' @ message"
| "error_display TicketExpired = ''ticket expired''"
| "error_display TicketReplayed = ''ticket replayed''"
| "error_display (RouteNotFound route) = ''route '' @ decimal (unat route) @ '' is not registered''"
| "error_display (DuplicateRoute route) = ''route '' @ decimal (unat route) @ '' already exists''"
| "error_display RateLimited = ''request rate exceeded''"
| "error_display QueueFull = ''queue is full''"
| "error_display Unavailable = ''service is unavailable''"
| "error_display Timeout = ''operation timed out''"
| "error_display (Io error) = ''I/O error: '' @ io_error_display error"
| "error_display (Serialization error) = ''serialization error: '' @ error"
| "error_display (Internal message) = ''internal error: '' @ message"
| "io_error_display (IoMessage _ message) = message"
| "io_error_display (IoWrapped _ error) = error_display error"

subsection \<open>Public codes\<close>

definition valid_code :: "string \<Rightarrow> bool" where
  "valid_code code \<longleftrightarrow> code \<noteq> [] \<and> length code \<le> 64 \<and>
     list_all (\<lambda>byte. is_ascii_uppercase byte \<or> is_ascii_digit byte \<or> byte = CHR ''_'') code"

text \<open>What is assumed of JSON: the value serializes, and its text parses back to it.\<close>

definition json_roundtrips :: "'a json_codec \<Rightarrow> 'a \<Rightarrow> bool" where
  "json_roundtrips J x \<longleftrightarrow>
     (case json_to_vec J x of None \<Rightarrow> False | Some v \<Rightarrow> json_from_slice J v = Some x)"

lemma char_of_byte [simp]: "char_of (unat (of_char c :: u8)) = c"
proof -
  have "(of_char c :: u8) = of_nat (of_char c)"
    by (simp only: of_nat_of_char)
  then have "unat (of_char c :: u8) = of_char c mod 256"
    by (simp only: unat_of_nat) simp
  then show ?thesis by simp
qed

lemmas ascii_defs = is_ascii_uppercase_def is_ascii_digit_def is_ascii_alphanumeric_def
  to_ascii_uppercase_def byte_in_def

lemma upper_of_alphanumeric:
  "is_ascii_alphanumeric c \<Longrightarrow>
   is_ascii_uppercase (to_ascii_uppercase c) \<or> is_ascii_digit (to_ascii_uppercase c)"
  by (auto simp: ascii_defs)

lemma upper_of_valid:
  "is_ascii_uppercase c \<or> is_ascii_digit c \<Longrightarrow> is_ascii_alphanumeric c \<and> to_ascii_uppercase c = c"
  by (auto simp: ascii_defs)

lemma public_code_valid: "valid_code (public_code v)"
proof (cases "take 64 v = []")
  case True
  then have "public_code v = ''BUSINESS_ERROR''" by (simp add: public_code_def)
  then show ?thesis by (simp add: valid_code_def ascii_defs)
next
  case False
  then show ?thesis
    using upper_of_alphanumeric by (auto simp: public_code_def valid_code_def Let_def list_all_iff)
qed

lemma public_code_fixed:
  assumes "valid_code v"
  shows "public_code v = v"
proof -
  have "map (\<lambda>byte. if is_ascii_alphanumeric byte then to_ascii_uppercase byte else CHR ''_'') v = v"
  proof (rule map_idI)
    fix c assume "c \<in> set v"
    then consider "is_ascii_uppercase c \<or> is_ascii_digit c" | "c = CHR ''_''"
      using assms by (auto simp: valid_code_def list_all_iff)
    then show "(if is_ascii_alphanumeric c then to_ascii_uppercase c else CHR ''_'') = c"
      by cases (auto dest: upper_of_valid simp: ascii_defs)
  qed
  then show ?thesis
    using assms by (simp add: public_code_def valid_code_def)
qed

lemma error_envelope_from_valid: "valid_code (ee_code (error_envelope_from e))"
  by (induction e rule: error_envelope_from.induct)
    (simp_all add: error_envelope_new_def error_envelope_with_retry_after_def public_code_valid,
     simp_all add: valid_code_def ascii_defs)

subsection \<open>Properties\<close>

text \<open>C33. The envelope of every error decodes at the peer to exactly the same envelope, unless its
  message is longer than 1024 bytes, in which case the peer rejects it; only the message of
  an application or an admission error can be that long.\<close>

theorem error_envelope_roundtrip:
  assumes "json_roundtrips J (error_envelope_from e)"
  shows "error_envelope_from_slice J (error_envelope_to_bytes J (error_envelope_from e)) =
      (if length (ee_message (error_envelope_from e)) \<le> 1024 then Inr (error_envelope_from e)
       else Inl (InvalidFrame ''invalid error envelope fields''))
    \<and> (1024 < length (ee_message (error_envelope_from e)) \<longrightarrow>
        (\<exists>code m. (\<exists>b. e = Business code m b) \<or> (\<exists>t. e = AdmissionDenied code m t)))"
proof
  obtain v where "json_to_vec J (error_envelope_from e) = Some v"
    and "json_from_slice J v = Some (error_envelope_from e)"
    using assms by (auto simp: json_roundtrips_def split: option.splits)
  then show "error_envelope_from_slice J (error_envelope_to_bytes J (error_envelope_from e)) =
      (if length (ee_message (error_envelope_from e)) \<le> 1024 then Inr (error_envelope_from e)
       else Inl (InvalidFrame ''invalid error envelope fields''))"
    using error_envelope_from_valid [of e]
    by (auto simp: error_envelope_from_slice_def error_envelope_to_bytes_def valid_code_def)
  show "1024 < length (ee_message (error_envelope_from e)) \<longrightarrow>
      (\<exists>code m. (\<exists>b. e = Business code m b) \<or> (\<exists>t. e = AdmissionDenied code m t))"
    by (induction e rule: error_envelope_from.induct) (simp_all add: error_envelope_new_def)
qed

text \<open>The public code of an error survives any number of hops: a service that decodes a valid
  envelope into its local error and reports that error again sends the same code.\<close>

theorem error_code_survives_hops:
  assumes "valid_code (ee_code env)"
  shows "ee_code (((\<lambda>x. error_envelope_from (error_envelope_into_error x)) ^^ n) env) = ee_code env"
proof (induction n)
  case (Suc n)
  have "ee_code (error_envelope_from (error_envelope_into_error x)) = ee_code x"
    if "valid_code (ee_code x)" for x
    using that by (auto simp: error_envelope_into_error_def error_envelope_new_def public_code_fixed)
  with Suc assms show ?case by simp
qed simp

definition error_demo_json :: "error_envelope json_codec" where
  "error_demo_json = \<lparr>json_to_vec = (\<lambda>e. Some (string_bytes (ee_code e @ CHR '':'' # ee_message e))),
     json_from_slice = (\<lambda>v. Some \<lparr>ee_code = map (\<lambda>b. char_of (unat b)) (takeWhile (\<lambda>b. b \<noteq> of_char CHR '':'') v),
       ee_message = map (\<lambda>b. char_of (unat b)) (tl (dropWhile (\<lambda>b. b \<noteq> of_char CHR '':'') v)),
       ee_retryable = False, ee_retry_after_ms = None\<rparr>)\<rparr>"

theorem error_envelope_roundtrip_witness:
  "error_envelope_from_slice error_demo_json (error_envelope_to_bytes error_demo_json
     (error_envelope_from (Business ''not-enough gold'' ''need 5'' False))) =
   Inr \<lparr>ee_code = ''NOT_ENOUGH_GOLD'', ee_message = ''need 5'', ee_retryable = False,
        ee_retry_after_ms = None\<rparr>"
proof -
  let ?e = "Business ''not-enough gold'' ''need 5'' False"
  have "json_roundtrips error_demo_json (error_envelope_from ?e)"
    "error_envelope_from ?e = \<lparr>ee_code = ''NOT_ENOUGH_GOLD'', ee_message = ''need 5'',
       ee_retryable = False, ee_retry_after_ms = None\<rparr>"
    by code_simp+
  then show ?thesis
    using error_envelope_roundtrip [of error_demo_json ?e] by simp
qed

theorem error_code_survives_hops_witness:
  "valid_code ''TIMEOUT'' \<and>
   ee_code (((\<lambda>x. error_envelope_from (error_envelope_into_error x)) ^^ 3)
     (error_envelope_new ''TIMEOUT'' ''slow'' False)) = ''TIMEOUT''"
proof -
  have "valid_code ''TIMEOUT''" by code_simp
  then show ?thesis
    using error_code_survives_hops [of "error_envelope_new ''TIMEOUT'' ''slow'' False" 3]
    by (simp add: error_envelope_new_def)
qed

end
