(* ===== verification/Frame_Codec.thy ===== *)
theory Frame_Codec
  imports Core_Error
begin

section \<open>The ELR2 frame format\<close>

text \<open>
  Model of \<open>crates/elura-core/src/protocol.rs\<close>: the 28-byte header, the frames and the
  codec that writes them to a byte stream and reads them back, from a stream that arrives in
  pieces or from one complete message.

  The integer accessors of the \<open>bytes\<close> crate (\<open>put_u16\<close>, \<open>get_u16\<close> and so on)
  are a parameter, \<open>byte_order\<close>. The locale \<open>byte_order_laws\<close> states what the codec relies
  on: each integer is written in its own number of bytes and read back from them. The
  documented big-endian order is an instance.
\<close>

subsection \<open>Data\<close>

record byte_order =
  put_u16 :: "u16 \<Rightarrow> bytes"
  put_u32 :: "u32 \<Rightarrow> bytes"
  put_u64 :: "u64 \<Rightarrow> bytes"
  get_u16 :: "bytes \<Rightarrow> u16"
  get_u32 :: "bytes \<Rightarrow> u32"
  get_u64 :: "bytes \<Rightarrow> u64"

definition MAGIC :: u32 where
  "MAGIC = 0x454C5232"

definition VERSION :: u16 where
  "VERSION = 2"

definition HEADER_LEN :: usize where
  "HEADER_LEN = 28"

definition DEFAULT_MAX_PAYLOAD :: usize where
  "DEFAULT_MAX_PAYLOAD = 1048576"

datatype frame_kind = Request | Response | Push | ErrorFrame

record frame =
  fr_kind :: frame_kind
  fr_flags :: u8
  fr_route :: u32
  fr_request_id :: u64
  fr_sequence :: u32
  fr_payload :: bytes

record frame_codec =
  fcd_max_payload :: usize

subsection \<open>Frames\<close>

fun frame_kind_code :: "frame_kind \<Rightarrow> u8" where
  "frame_kind_code Request = 1"
| "frame_kind_code Response = 2"
| "frame_kind_code Push = 3"
| "frame_kind_code ErrorFrame = 4"

definition frame_kind_try_from :: "u8 \<Rightarrow> core_error + frame_kind" where
  "frame_kind_try_from v =
     (if v = 1 then Inr Request else if v = 2 then Inr Response else if v = 3 then Inr Push
      else if v = 4 then Inr ErrorFrame else Inl (InvalidFrame ''unknown frame kind''))"

definition frame_request :: "u32 \<Rightarrow> u64 \<Rightarrow> bytes \<Rightarrow> core_error + frame" where
  "frame_request route request_id payload =
     (if route = 0 then Inl (InvalidFrame ''route must be non-zero'')
      else if request_id = 0 then Inl (InvalidFrame ''request id must be non-zero'')
      else Inr \<lparr>fr_kind = Request, fr_flags = 0, fr_route = route, fr_request_id = request_id,
                fr_sequence = 0, fr_payload = payload\<rparr>)"

definition frame_response :: "frame \<Rightarrow> bytes \<Rightarrow> frame" where
  "frame_response request payload =
     \<lparr>fr_kind = Response, fr_flags = 0, fr_route = fr_route request,
      fr_request_id = fr_request_id request, fr_sequence = fr_sequence request,
      fr_payload = payload\<rparr>"

definition frame_error :: "frame \<Rightarrow> bytes \<Rightarrow> frame" where
  "frame_error request message =
     \<lparr>fr_kind = ErrorFrame, fr_flags = 0, fr_route = fr_route request,
      fr_request_id = fr_request_id request, fr_sequence = fr_sequence request,
      fr_payload = message\<rparr>"

definition frame_validate :: "frame \<Rightarrow> usize \<Rightarrow> core_error + unit" where
  "frame_validate f max_payload =
     (if max_payload < length (fr_payload f) then Inl (InvalidFrame ''payload is too large'')
      else if fr_flags f \<noteq> 0 then Inl (InvalidFrame ''unsupported frame flags'')
      else if fr_route f = 0 then Inl (InvalidFrame ''route must be non-zero'')
      else if fr_kind f \<in> {Request, Response, ErrorFrame} \<and> fr_request_id f = 0
        then Inl (InvalidFrame ''request id must be non-zero'')
      else if fr_kind f = Push \<and> fr_request_id f \<noteq> 0
        then Inl (InvalidFrame ''push request id must be zero'')
      else Inr ())"

subsection \<open>The codec\<close>

definition frame_codec_new :: "usize \<Rightarrow> core_error + frame_codec" where
  "frame_codec_new max_payload =
     (if max_payload = 0 \<or> 67108864 < max_payload
      then Inl (InvalidConfig ''max payload must be in 1..=64MiB'')
      else Inr \<lparr>fcd_max_payload = max_payload\<rparr>)"

definition frame_codec_default :: frame_codec where
  "frame_codec_default = \<lparr>fcd_max_payload = DEFAULT_MAX_PAYLOAD\<rparr>"

text \<open>
  Both decoders read the header in the same order and fail at the same points. The result
  is the frame without its payload, and the announced payload length.
\<close>

definition frame_header :: "byte_order \<Rightarrow> frame_codec \<Rightarrow> bytes \<Rightarrow> io_error + (frame \<times> usize)" where
  "frame_header bo c header =
     (if get_u32 bo (take 4 header) \<noteq> MAGIC then Inl (IoMessage InvalidData ''invalid Elura magic'')
      else if get_u16 bo (take 2 (drop 4 header)) \<noteq> VERSION
        then Inl (IoMessage InvalidData ''unsupported Elura version'')
      else case frame_kind_try_from (header ! 6) of
             Inl e \<Rightarrow> Inl (IoWrapped InvalidData e)
           | Inr kind \<Rightarrow>
               let flags = header ! 7;
                   route = get_u32 bo (take 4 (drop 8 header));
                   request_id = get_u64 bo (take 8 (drop 12 header));
                   sequence = get_u32 bo (take 4 (drop 20 header));
                   payload_len = unat (get_u32 bo (take 4 (drop 24 header)))
               in if fcd_max_payload c < payload_len
                  then Inl (IoMessage InvalidData ''Elura payload is too large'')
                  else Inr (\<lparr>fr_kind = kind, fr_flags = flags, fr_route = route,
                             fr_request_id = request_id, fr_sequence = sequence,
                             fr_payload = []\<rparr>, payload_len))"

definition frame_codec_decode_message ::
    "byte_order \<Rightarrow> frame_codec \<Rightarrow> bytes \<Rightarrow> io_error + frame" where
  "frame_codec_decode_message bo c source =
     (if length source < HEADER_LEN then Inl (IoMessage UnexpectedEof ''incomplete Elura frame'')
      else case frame_header bo c (take HEADER_LEN source) of
             Inl e \<Rightarrow> Inl e
           | Inr (head, payload_len) \<Rightarrow>
               if length source \<noteq> HEADER_LEN + payload_len
               then Inl (IoMessage InvalidData ''Elura message must contain exactly one frame'')
               else
                 let f = head\<lparr>fr_payload := drop HEADER_LEN source\<rparr>
                 in case frame_validate f (fcd_max_payload c) of
                      Inl e \<Rightarrow> Inl (IoWrapped InvalidData e)
                    | Inr _ \<Rightarrow> Inr f)"

text \<open>The stream decoder also returns what it leaves in the buffer.\<close>

definition frame_codec_decode ::
    "byte_order \<Rightarrow> frame_codec \<Rightarrow> bytes \<Rightarrow> (io_error + frame option) \<times> bytes" where
  "frame_codec_decode bo c source =
     (if length source < HEADER_LEN then (Inr None, source)
      else case frame_header bo c (take HEADER_LEN source) of
             Inl e \<Rightarrow> (Inl e, source)
           | Inr (head, payload_len) \<Rightarrow>
               if length source < HEADER_LEN + payload_len then (Inr None, source)
               else
                 let body = drop HEADER_LEN source;
                     f = head\<lparr>fr_payload := take payload_len body\<rparr>;
                     rest = drop payload_len body
                 in case frame_validate f (fcd_max_payload c) of
                      Inl e \<Rightarrow> (Inl (IoWrapped InvalidData e), rest)
                    | Inr _ \<Rightarrow> (Inr (Some f), rest))"

definition frame_codec_encode ::
    "byte_order \<Rightarrow> frame_codec \<Rightarrow> frame \<Rightarrow> bytes \<Rightarrow> (io_error + unit) \<times> bytes" where
  "frame_codec_encode bo c f destination =
     (case frame_validate f (fcd_max_payload c) of
        Inl e \<Rightarrow> (Inl (IoWrapped InvalidInput e), destination)
      | Inr _ \<Rightarrow>
          (Inr (), destination @ put_u32 bo MAGIC @ put_u16 bo VERSION @ [frame_kind_code (fr_kind f)]
             @ [fr_flags f] @ put_u32 bo (fr_route f) @ put_u64 bo (fr_request_id f)
             @ put_u32 bo (fr_sequence f) @ put_u32 bo (of_nat (length (fr_payload f)))
             @ fr_payload f))"

text \<open>The bytes of a frame, and a connection that decodes whatever its buffer holds after each
  piece the transport delivers.\<close>

definition frame_head :: "byte_order \<Rightarrow> frame \<Rightarrow> usize \<Rightarrow> bytes" where
  "frame_head bo f n = put_u32 bo MAGIC @ put_u16 bo VERSION @ [frame_kind_code (fr_kind f)]
     @ [fr_flags f] @ put_u32 bo (fr_route f) @ put_u64 bo (fr_request_id f)
     @ put_u32 bo (fr_sequence f) @ put_u32 bo (of_nat n)"

definition frame_bytes :: "byte_order \<Rightarrow> frame \<Rightarrow> bytes" where
  "frame_bytes bo f = frame_head bo f (length (fr_payload f)) @ fr_payload f"

fun frame_drain :: "byte_order \<Rightarrow> frame_codec \<Rightarrow> nat \<Rightarrow> bytes \<Rightarrow> (io_error + frame list) \<times> bytes" where
  "frame_drain bo c 0 buffer = (Inr [], buffer)"
| "frame_drain bo c (Suc n) buffer =
     (case frame_codec_decode bo c buffer of
        (Inl e, rest) \<Rightarrow> (Inl e, rest)
      | (Inr None, rest) \<Rightarrow> (Inr [], rest)
      | (Inr (Some f), rest) \<Rightarrow>
          (case frame_drain bo c n rest of
             (Inl e, rest') \<Rightarrow> (Inl e, rest')
           | (Inr fs, rest') \<Rightarrow> (Inr (f # fs), rest')))"

text \<open>Every frame takes at least a header, so the length of the buffer is enough fuel.\<close>

fun frame_stream :: "byte_order \<Rightarrow> frame_codec \<Rightarrow> bytes \<Rightarrow> bytes list \<Rightarrow> (io_error + frame list) \<times> bytes" where
  "frame_stream bo c buffer [] = (Inr [], buffer)"
| "frame_stream bo c buffer (chunk # chunks) =
     (case frame_drain bo c (length (buffer @ chunk)) (buffer @ chunk) of
        (Inl e, rest) \<Rightarrow> (Inl e, rest)
      | (Inr fs, rest) \<Rightarrow>
          (case frame_stream bo c rest chunks of
             (Inl e, rest') \<Rightarrow> (Inl e, rest')
           | (Inr gs, rest') \<Rightarrow> (Inr (fs @ gs), rest')))"

text \<open>Network byte order, the instance the \<open>bytes\<close> crate documents.\<close>

primrec be_put :: "nat \<Rightarrow> nat \<Rightarrow> bytes" where
  "be_put 0 v = []"
| "be_put (Suc n) v = of_nat (v div 256 ^ n) # be_put n (v mod 256 ^ n)"

primrec be_val :: "bytes \<Rightarrow> nat" where
  "be_val [] = 0"
| "be_val (b # bs) = unat b * 256 ^ length bs + be_val bs"

definition big_endian :: byte_order where
  "big_endian =
     \<lparr>put_u16 = (\<lambda>w. be_put 2 (unat w)), put_u32 = (\<lambda>w. be_put 4 (unat w)),
      put_u64 = (\<lambda>w. be_put 8 (unat w)), get_u16 = (\<lambda>bs. of_nat (be_val bs)),
      get_u32 = (\<lambda>bs. of_nat (be_val bs)), get_u64 = (\<lambda>bs. of_nat (be_val bs))\<rparr>"

subsection \<open>What the codec relies on\<close>

locale byte_order_laws =
  fixes bo :: byte_order
  assumes put_length: "length (put_u16 bo a) = 2" "length (put_u32 bo b) = 4"
      "length (put_u64 bo d) = 8"
    and get_put: "get_u16 bo (put_u16 bo a) = a" "get_u32 bo (put_u32 bo b) = b"
      "get_u64 bo (put_u64 bo d) = d"
    and put_get: "length x = 2 \<Longrightarrow> put_u16 bo (get_u16 bo x) = x"
      "length y = 4 \<Longrightarrow> put_u32 bo (get_u32 bo y) = y"
      "length z = 8 \<Longrightarrow> put_u64 bo (get_u64 bo z) = z"
begin

lemma head_length [simp]: "length (frame_head bo f n) = HEADER_LEN"
  by (simp add: frame_head_def put_length HEADER_LEN_def)

lemma header_of_head:
  assumes "n \<le> fcd_max_payload c" "n < 2 ^ 32"
  shows "frame_header bo c (frame_head bo f n) = Inr (f\<lparr>fr_payload := []\<rparr>, n)"
proof -
  have "frame_kind_try_from (frame_kind_code (fr_kind f)) = Inr (fr_kind f)"
    by (cases "fr_kind f") (simp_all add: frame_kind_try_from_def)
  then show ?thesis
    using assms
    by (simp add: frame_header_def frame_head_def put_length get_put nth_append Let_def
        unat_of_nat)
qed

lemma head_of_header:
  assumes len: "length h = HEADER_LEN" and ok: "frame_header bo c h = Inr (f, n)"
  shows "h = frame_head bo f n \<and> n \<le> fcd_max_payload c \<and> n < 2 ^ 32 \<and> fr_payload f = []"
proof -
  have split: "drop a h = take k (drop a h) @ drop (a + k) h" for a k
    by (metis add.commute append_take_drop_id drop_drop)
  have "drop 6 h = [h ! 6, h ! 7] @ drop 8 h"
    using len by (simp add: HEADER_LEN_def Cons_nth_drop_Suc numeral_eq_Suc)
  then have h: "h = take 4 h @ take 2 (drop 4 h) @ [h ! 6, h ! 7] @ take 4 (drop 8 h)
      @ take 8 (drop 12 h) @ take 4 (drop 20 h) @ take 4 (drop 24 h)"
    using split [of 0 4] split [of 4 2] split [of 8 4] split [of 12 8] split [of 20 4] len
    by (simp add: HEADER_LEN_def)
  have kind: "frame_kind_code k = v" if "frame_kind_try_from v = Inr k" for k v
    using that by (auto simp: frame_kind_try_from_def split: if_splits)
  have put: "put_u32 bo (get_u32 bo (take 4 (drop a h))) = take 4 (drop a h)" if "a \<le> 24" for a
    using len that by (simp add: put_get HEADER_LEN_def)
  show ?thesis
    using ok kind put [of 0] put [of 8] put [of 20] put [of 24] len
      put_get(1) [of "take 2 (drop 4 h)"] put_get(3) [of "take 8 (drop 12 h)"]
      unat_lt2p [of "get_u32 bo (take 4 (drop 24 h))"]
    by (subst h)
      (auto simp: frame_header_def frame_head_def Let_def HEADER_LEN_def split: if_splits sum.splits)
qed

end

abbreviation frame_ok :: "frame_codec \<Rightarrow> frame \<Rightarrow> bool" where
  "frame_ok c f \<equiv> frame_validate f (fcd_max_payload c) = Inr ()"

lemma frame_ok_payload: "frame_ok c f \<Longrightarrow> length (fr_payload f) \<le> fcd_max_payload c"
  by (auto simp: frame_validate_def split: if_splits)

context byte_order_laws
begin

lemma encode_frame:
  "frame_codec_encode bo c f buffer =
     (case frame_validate f (fcd_max_payload c) of
        Inl e \<Rightarrow> (Inl (IoWrapped InvalidInput e), buffer)
      | Inr _ \<Rightarrow> (Inr (), buffer @ frame_bytes bo f))"
  by (simp add: frame_codec_encode_def frame_bytes_def frame_head_def split: sum.split)

lemma frame_bytes_length: "length (frame_bytes bo f) = HEADER_LEN + length (fr_payload f)"
  by (simp add: frame_bytes_def)

lemma decode_complete:
  assumes "frame_ok c f" "fcd_max_payload c < 2 ^ 32"
  shows "frame_codec_decode bo c (frame_bytes bo f @ rest) = (Inr (Some f), rest)"
proof -
  have "length (fr_payload f) \<le> fcd_max_payload c" by (rule frame_ok_payload [OF assms(1)])
  with header_of_head [of "length (fr_payload f)" c f] assms show ?thesis
    by (simp add: frame_codec_decode_def frame_bytes_def Let_def)
qed

lemma decode_partial:
  assumes "frame_ok c f" "fcd_max_payload c < 2 ^ 32"
    and "frame_bytes bo f = buffer @ x # ys"
  shows "frame_codec_decode bo c buffer = (Inr None, buffer)"
proof (cases "length buffer < HEADER_LEN")
  case True
  then show ?thesis by (simp add: frame_codec_decode_def)
next
  case False
  have "take HEADER_LEN (frame_bytes bo f) = frame_head bo f (length (fr_payload f))"
    by (simp add: frame_bytes_def)
  then have "take HEADER_LEN buffer = frame_head bo f (length (fr_payload f))"
    using False assms(3) by simp
  moreover have "length buffer < HEADER_LEN + length (fr_payload f)"
    using arg_cong [OF assms(3), of length] by (simp add: frame_bytes_length)
  ultimately show ?thesis
    using header_of_head [of "length (fr_payload f)" c f] frame_ok_payload [OF assms(1)] assms(2) False
    by (simp add: frame_codec_decode_def)
qed

lemma decode_canonical:
  assumes "frame_codec_decode bo c source = (Inr (Some f), rest)"
  shows "source = frame_bytes bo f @ rest \<and> frame_ok c f"
proof -
  obtain h n where long: "\<not> length source < HEADER_LEN"
    and header: "frame_header bo c (take HEADER_LEN source) = Inr (h, n)"
    and enough: "\<not> length source < HEADER_LEN + n"
    and f: "f = h\<lparr>fr_payload := take n (drop HEADER_LEN source)\<rparr>"
    and ok: "frame_ok c f" and rest: "rest = drop n (drop HEADER_LEN source)"
    using assms by (auto simp: frame_codec_decode_def Let_def split: if_splits sum.splits)
  have "take HEADER_LEN source = frame_head bo h n"
    using head_of_header [OF _ header] long by simp
  moreover have "frame_head bo h n = frame_head bo f (length (fr_payload f))"
    using enough by (simp add: f frame_head_def)
  ultimately have "frame_bytes bo f = take HEADER_LEN source @ take n (drop HEADER_LEN source)"
    by (simp add: frame_bytes_def) (simp add: f)
  then show ?thesis
    using ok by (metis append.assoc append_take_drop_id rest)
qed

lemma decode_message_iff:
  assumes "fcd_max_payload c < 2 ^ 32"
  shows "frame_codec_decode_message bo c source = Inr f \<longleftrightarrow> frame_ok c f \<and> source = frame_bytes bo f"
proof
  assume m: "frame_codec_decode_message bo c source = Inr f"
  then have "frame_codec_decode bo c source = (Inr (Some f), [])"
    by (auto simp: frame_codec_decode_message_def frame_codec_decode_def Let_def
        split: if_splits sum.splits)
  from decode_canonical [OF this] show "frame_ok c f \<and> source = frame_bytes bo f" by simp
next
  assume *: "frame_ok c f \<and> source = frame_bytes bo f"
  then show "frame_codec_decode_message bo c source = Inr f"
    using header_of_head [of "length (fr_payload f)" c f] frame_ok_payload [of f c] assms
    by (simp add: frame_codec_decode_message_def frame_bytes_def Let_def)
qed

lemma drain_frames:
  assumes "fcd_max_payload c < 2 ^ 32" "\<forall>f \<in> set fs. frame_ok c f"
    and "buffer @ later = concat (map (frame_bytes bo) fs)" "length buffer \<le> n"
  shows "\<exists>gs hs rest. frame_drain bo c n buffer = (Inr gs, rest) \<and> fs = gs @ hs \<and>
    rest @ later = concat (map (frame_bytes bo) hs) \<and>
    frame_codec_decode bo c rest = (Inr None, rest)"
  using assms(2-)
proof (induction fs arbitrary: buffer n)
  case Nil
  then show ?case
    by (cases n) (auto simp: frame_codec_decode_def HEADER_LEN_def)
next
  case (Cons f fs)
  have ok: "frame_ok c f" using Cons.prems(1) by simp
  show ?case
  proof (cases "length buffer < length (frame_bytes bo f)")
    case True
    from Cons.prems(2) have "buffer @ later = frame_bytes bo f @ concat (map (frame_bytes bo) fs)"
      by simp
    with True obtain us where us: "buffer @ us = frame_bytes bo f"
      by (auto simp: append_eq_append_conv2)
    with True have "us \<noteq> []" by auto
    then obtain x ys where "us = x # ys" by (cases us) auto
    with us have "frame_bytes bo f = buffer @ x # ys" by simp
    then have none: "frame_codec_decode bo c buffer = (Inr None, buffer)"
      by (rule decode_partial [OF ok assms(1)])
    then have "frame_drain bo c n buffer = (Inr [], buffer)" by (cases n) simp_all
    with none Cons.prems(2) show ?thesis
      by (intro exI [of _ "[]"] exI [of _ "f # fs"] exI [of _ buffer]) simp
  next
    case False
    define tail where "tail = drop (length (frame_bytes bo f)) buffer"
    have "take (length (frame_bytes bo f)) buffer = frame_bytes bo f \<and>
        tail @ later = concat (map (frame_bytes bo) fs)"
      using Cons.prems(2) False
      by (auto simp: tail_def append_eq_append_conv_if split: if_splits)
    then have buffer: "buffer = frame_bytes bo f @ tail"
      and tail: "tail @ later = concat (map (frame_bytes bo) fs)"
      by (metis append_take_drop_id tail_def, simp)
    obtain m where n: "n = Suc m" "length tail \<le> m"
      using Cons.prems(3) by (cases n) (auto simp: buffer frame_bytes_length HEADER_LEN_def)
    from Cons.IH [OF _ tail n(2)] Cons.prems(1) obtain gs hs rest where
      "frame_drain bo c m tail = (Inr gs, rest)" "fs = gs @ hs"
      "rest @ later = concat (map (frame_bytes bo) hs)"
      "frame_codec_decode bo c rest = (Inr None, rest)" by auto
    with decode_complete [OF ok assms(1)] show ?thesis
      by (intro exI [of _ "f # gs"] exI [of _ hs]) (simp add: buffer n(1))
  qed
qed

lemma stream_frames:
  assumes "fcd_max_payload c < 2 ^ 32" "\<forall>f \<in> set fs. frame_ok c f"
    and "buffer @ concat chunks = concat (map (frame_bytes bo) fs)"
    and "frame_codec_decode bo c buffer = (Inr None, buffer)"
  shows "frame_stream bo c buffer chunks = (Inr fs, [])"
  using assms(2-)
proof (induction chunks arbitrary: fs buffer)
  case Nil
  have "fs = []"
  proof (cases fs)
    case (Cons f gs)
    with Nil decode_complete [of f c, OF _ assms(1)] show ?thesis by simp
  qed simp
  with Nil show ?case by simp
next
  case (Cons chunk chunks)
  from drain_frames [OF assms(1) Cons.prems(1), of "buffer @ chunk" "concat chunks" "length (buffer @ chunk)"]
    Cons.prems(2) obtain gs hs rest where
    drain: "frame_drain bo c (length (buffer @ chunk)) (buffer @ chunk) = (Inr gs, rest)"
    and fs: "fs = gs @ hs" and rest: "rest @ concat chunks = concat (map (frame_bytes bo) hs)"
      "frame_codec_decode bo c rest = (Inr None, rest)"
    by auto
  from Cons.IH [OF _ rest] Cons.prems(1) fs have "frame_stream bo c rest chunks = (Inr hs, [])"
    by simp
  with drain fs show ?case by simp
qed

end

subsection \<open>Big-endian integers\<close>

lemma length_be_put [simp]: "length (be_put n v) = n"
  by (induction n arbitrary: v) simp_all

lemma be_val_put: "v < 256 ^ n \<Longrightarrow> be_val (be_put n v) = v"
proof (induction n arbitrary: v)
  case (Suc n)
  then have "v div 256 ^ n < 256" by (simp add: less_mult_imp_div_less mult.commute)
  with Suc.IH [of "v mod 256 ^ n"] show ?case by (simp add: unat_of_nat div_mult_mod_eq)
qed simp

lemma be_val_less: "be_val bs < 256 ^ length bs"
proof (induction bs)
  case (Cons b bs)
  have "unat b * 256 ^ length bs + be_val bs < Suc (unat b) * 256 ^ length bs"
    using Cons by simp
  also have "\<dots> \<le> 256 * 256 ^ length bs"
    using unat_lt2p [of b] by (intro mult_le_mono1) simp
  finally show ?case by simp
qed simp

lemma be_put_val: "be_put (length bs) (be_val bs) = bs"
proof (induction bs)
  case (Cons b bs)
  then show ?case using be_val_less [of bs] by (simp add: div_add1_eq)
qed simp

lemma be_put_get:
  assumes "length bs = n" "256 ^ n = (2 :: nat) ^ LENGTH('a)"
  shows "be_put n (unat (of_nat (be_val bs) :: 'a::len word)) = bs"
proof -
  have "unat (of_nat (be_val bs) :: 'a word) = be_val bs"
    using be_val_less [of bs] assms by (simp add: unat_of_nat)
  then show ?thesis using be_put_val [of bs] assms(1) by simp
qed

lemma be_get_put:
  assumes "256 ^ n = (2 :: nat) ^ LENGTH('a)"
  shows "of_nat (be_val (be_put n (unat (w :: 'a::len word)))) = w"
  using be_val_put [of "unat w" n] unat_lt2p [of w] assms by simp

interpretation be: byte_order_laws big_endian
  by unfold_locales (simp_all add: big_endian_def be_put_get be_get_put)

subsection \<open>Properties\<close>

text \<open>C22. Frames survive any segmentation of the stream: however the transport cuts the
  concatenated encodings of any valid frames into pieces, the decoder returns exactly these
  frames in order, never an error, and leaves nothing in the buffer.\<close>

theorem frame_stream_roundtrip:
  assumes "byte_order_laws bo" and "frame_codec_new max_payload = Inr c"
    and "\<forall>f \<in> set fs. frame_validate f max_payload = Inr ()"
    and "concat chunks =
      fold (\<lambda>f buffer. snd (frame_codec_encode bo c f buffer)) fs []"
  shows "frame_stream bo c [] chunks = (Inr fs, [])"
proof -
  have c: "c = \<lparr>fcd_max_payload = max_payload\<rparr>" and bound: "fcd_max_payload c < 2 ^ 32"
    using assms(2) by (auto simp: frame_codec_new_def split: if_splits)
  have "fold (\<lambda>f buffer. snd (frame_codec_encode bo c f buffer)) gs buffer =
      buffer @ concat (map (frame_bytes bo) gs)"
    if "\<forall>f \<in> set gs. frame_validate f max_payload = Inr ()" for gs buffer
    using that
    by (induction gs arbitrary: buffer) (simp_all add: byte_order_laws.encode_frame [OF assms(1)] c)
  with assms(3,4) have "[] @ concat chunks = concat (map (frame_bytes bo) fs)"
    by simp
  moreover have "frame_codec_decode bo c [] = (Inr None, [])"
    by (simp add: frame_codec_decode_def HEADER_LEN_def)
  ultimately show ?thesis
    using byte_order_laws.stream_frames [OF assms(1) bound] assms(3) c by simp
qed

text \<open>C23. The encoding is canonical and the two decoders agree: a message decodes to a frame
  exactly when it is that frame's encoding and the frame is valid, which is also exactly when
  the stream decoder takes that frame from the same bytes and leaves nothing.\<close>

theorem frame_decoders_canonical:
  assumes "byte_order_laws bo" and "frame_codec_new max_payload = Inr c"
  shows "(frame_codec_decode_message bo c source = Inr f \<longleftrightarrow>
      frame_codec_encode bo c f [] = (Inr (), source)) \<and>
    (frame_codec_decode_message bo c source = Inr f \<longleftrightarrow>
      frame_codec_decode bo c source = (Inr (Some f), []))"
proof
  have bound: "fcd_max_payload c < 2 ^ 32"
    using assms(2) by (auto simp: frame_codec_new_def split: if_splits)
  note iff = byte_order_laws.decode_message_iff [OF assms(1) bound]
  show "frame_codec_decode_message bo c source = Inr f \<longleftrightarrow>
      frame_codec_encode bo c f [] = (Inr (), source)"
    by (auto simp: iff byte_order_laws.encode_frame [OF assms(1)] split: sum.splits)
  show "frame_codec_decode_message bo c source = Inr f \<longleftrightarrow>
      frame_codec_decode bo c source = (Inr (Some f), [])"
    using byte_order_laws.decode_canonical [OF assms(1), of c source f "[]"]
      byte_order_laws.decode_complete [OF assms(1) _ bound, of f "[]"]
    by (auto simp: iff)
qed

text \<open>The golden vector of the source's tests, sent twice and cut in both headers.\<close>

definition frame_demo :: frame where
  "frame_demo =
     \<lparr>fr_kind = Request, fr_flags = 0, fr_route = 100, fr_request_id = 7, fr_sequence = 11,
      fr_payload = [0x68, 0x65, 0x6c, 0x6c, 0x6f]\<rparr>"

definition frame_demo_bytes :: bytes where
  "frame_demo_bytes =
     [0x45, 0x4c, 0x52, 0x32, 0x00, 0x02, 0x01, 0x00, 0x00, 0x00, 0x00, 0x64, 0x00, 0x00,
      0x00, 0x00, 0x00, 0x00, 0x00, 0x07, 0x00, 0x00, 0x00, 0x0b, 0x00, 0x00, 0x00, 0x05,
      0x68, 0x65, 0x6c, 0x6c, 0x6f]"

lemma frame_demo_codec: "frame_codec_new 64 = Inr \<lparr>fcd_max_payload = 64\<rparr>"
  by (simp add: frame_codec_new_def)

lemma be_put_2: "be_put 2 v = [of_nat (v div 256), of_nat (v mod 256)]"
  by (simp add: numeral_2_eq_2)

lemma be_put_unfold:
  "be_put 4 v = of_nat (v div 16777216) # of_nat (v mod 16777216 div 65536) #
     be_put 2 (v mod 16777216 mod 65536)"
  "be_put 8 v = of_nat (v div 72057594037927936) #
     of_nat (v mod 72057594037927936 div 281474976710656) #
     of_nat (v mod 72057594037927936 mod 281474976710656 div 1099511627776) #
     of_nat (v mod 72057594037927936 mod 281474976710656 mod 1099511627776 div 4294967296) #
     be_put 4 (v mod 72057594037927936 mod 281474976710656 mod 1099511627776 mod 4294967296)"
  using be_put.simps(2) [of 3 v] be_put.simps(2) [of 2 "v mod 256 ^ 3"]
    be_put.simps(2) [of 7 v] be_put.simps(2) [of 6 "v mod 256 ^ 7"]
    be_put.simps(2) [of 5 "v mod 256 ^ 7 mod 256 ^ 6"]
    be_put.simps(2) [of 4 "v mod 256 ^ 7 mod 256 ^ 6 mod 256 ^ 5"]
  by simp_all

lemma frame_demo_valid: "frame_validate frame_demo 64 = Inr ()"
  by (simp add: frame_demo_def frame_validate_def)

lemma frame_demo_encode:
  "frame_codec_encode big_endian \<lparr>fcd_max_payload = 64\<rparr> frame_demo buffer =
     (Inr (), buffer @ frame_demo_bytes)"
  unfolding frame_codec_encode_def
  by (simp add: frame_demo_valid)
    (simp add: big_endian_def MAGIC_def VERSION_def frame_demo_def frame_demo_bytes_def be_put_2
      be_put_unfold)

theorem frame_stream_roundtrip_witness:
  "frame_stream big_endian \<lparr>fcd_max_payload = 64\<rparr> []
     [take 5 frame_demo_bytes, drop 5 frame_demo_bytes @ take 9 frame_demo_bytes,
      drop 9 frame_demo_bytes]
   = (Inr [frame_demo, frame_demo], [])"
  by (rule frame_stream_roundtrip [OF be.byte_order_laws_axioms frame_demo_codec])
    (simp_all add: frame_demo_encode frame_demo_valid)

theorem frame_decoders_canonical_witness:
  "frame_codec_decode_message big_endian \<lparr>fcd_max_payload = 64\<rparr> frame_demo_bytes = Inr frame_demo"
proof -
  have "frame_codec_encode big_endian \<lparr>fcd_max_payload = 64\<rparr> frame_demo [] =
      (Inr (), frame_demo_bytes)"
    by (simp add: frame_demo_encode)
  then show ?thesis
    using frame_decoders_canonical [OF be.byte_order_laws_axioms frame_demo_codec] by blast
qed

end
