(* ===== verification/Session.thy ===== *)
theory Session
  imports Core_Error
begin

section \<open>Sessions and session control\<close>

text \<open>
  Model of \<open>crates/elura-core/src/session.rs\<close> (player keys, identities, the lifecycle of
  one client session) and \<open>crates/elura-core/src/protocol/session_control.rs\<close> (the control
  message pushed to clients).

  The lock around the shared state makes every method one atomic step; a poisoned lock is a
  flag of the state. The system clock and the random identifier are arguments. Protobuf is a
  parameter.
\<close>

subsection \<open>Data\<close>

record player_key =
  pk_region_id :: u32
  pk_realm_id :: u32
  pk_user_id :: i64

record identity =
  id_account_id :: i64
  id_user_id :: i64
  id_region_id :: u32
  id_realm_id :: u32
  id_generation :: u64

datatype session_control_kind = SckLogin | SckForceLogout | SckVersionChanged

record session_control_event =
  sce_kind :: session_control_kind
  sce_region_id :: u32
  sce_realm_id :: u32
  sce_user_id :: i64
  sce_generation :: u64
  sce_session_id :: "uuid option"
  sce_keep_session_id :: "uuid option"
  sce_reason :: string

datatype session_state = Anonymous | Authenticated | Closed

record 'ip session_snapshot =
  sn_id :: uuid
  sn_remote_ip :: 'ip
  sn_state :: session_state
  sn_identity :: "identity option"
  sn_connected_at :: instant
  sn_last_activity_at :: instant

record session_inner =
  sin_state :: session_state
  sin_identity :: "identity option"
  sin_last_activity_at :: instant

record 'ip session =
  se_id :: uuid
  se_remote_ip :: 'ip
  se_connected_at :: instant
  se_inner :: session_inner
  se_poisoned :: bool

subsection \<open>Keys, identities and control events\<close>

definition player_key_validate :: "player_key \<Rightarrow> core_error + unit" where
  "player_key_validate k =
     (if pk_region_id k = 0 \<or> pk_realm_id k = 0 \<or> pk_user_id k \<le> 0
      then Inl (InvalidConfig ''invalid player key'') else Inr ())"

definition player_key_new :: "u32 \<Rightarrow> u32 \<Rightarrow> i64 \<Rightarrow> core_error + player_key" where
  "player_key_new region_id realm_id user_id =
     (let key = \<lparr>pk_region_id = region_id, pk_realm_id = realm_id, pk_user_id = user_id\<rparr>
      in case player_key_validate key of Inl e \<Rightarrow> Inl e | Inr _ \<Rightarrow> Inr key)"

definition identity_validate :: "identity \<Rightarrow> core_error + unit" where
  "identity_validate i =
     (if id_account_id i \<le> 0 \<or> id_user_id i \<le> 0 \<or> id_region_id i = 0 \<or> id_realm_id i = 0
         \<or> id_generation i = 0
      then Inl Authentication else Inr ())"

definition identity_player_key :: "identity \<Rightarrow> player_key" where
  "identity_player_key i = \<lparr>pk_region_id = id_region_id i, pk_realm_id = id_realm_id i,
     pk_user_id = id_user_id i\<rparr>"

definition session_control_event_validate :: "session_control_event \<Rightarrow> core_error + unit" where
  "session_control_event_validate e =
     (if sce_region_id e = 0 \<or> sce_realm_id e = 0 \<or> sce_user_id e \<le> 0
         \<or> 256 < length (sce_reason e)
         \<or> (sce_kind e = SckVersionChanged \<and> sce_generation e = 0)
      then Inl (InvalidConfig ''invalid Session control event'') else Inr ())"

subsection \<open>The session\<close>

definition session_new :: "uuid \<Rightarrow> instant \<Rightarrow> 'ip \<Rightarrow> 'ip session" where
  "session_new fresh now remote_ip =
     \<lparr>se_id = fresh, se_remote_ip = remote_ip, se_connected_at = now,
      se_inner = \<lparr>sin_state = Anonymous, sin_identity = None, sin_last_activity_at = now\<rparr>,
      se_poisoned = False\<rparr>"

definition session_authenticate ::
    "'ip session \<Rightarrow> instant \<Rightarrow> identity \<Rightarrow> (core_error + unit) \<times> 'ip session" where
  "session_authenticate s now identity =
     (case identity_validate identity of
        Inl e \<Rightarrow> (Inl e, s)
      | Inr _ \<Rightarrow>
          if se_poisoned s then (Inl (Internal ''session lock poisoned''), s)
          else if sin_state (se_inner s) \<noteq> Anonymous then (Inl Authentication, s)
          else (Inr (), s\<lparr>se_inner := \<lparr>sin_state = Authenticated, sin_identity = Some identity,
                   sin_last_activity_at = now\<rparr>\<rparr>))"

definition session_identity :: "'ip session \<Rightarrow> identity option" where
  "session_identity s = (if se_poisoned s then None else sin_identity (se_inner s))"

definition session_touch :: "'ip session \<Rightarrow> instant \<Rightarrow> 'ip session" where
  "session_touch s now =
     (if se_poisoned s then s
      else s\<lparr>se_inner := (se_inner s)\<lparr>sin_last_activity_at := now\<rparr>\<rparr>)"

definition session_close :: "'ip session \<Rightarrow> instant \<Rightarrow> 'ip session" where
  "session_close s now =
     (if se_poisoned s then s
      else s\<lparr>se_inner := (se_inner s)\<lparr>sin_state := Closed, sin_last_activity_at := now\<rparr>\<rparr>)"

definition session_get_snapshot :: "'ip session \<Rightarrow> core_error + 'ip session_snapshot" where
  "session_get_snapshot s =
     (if se_poisoned s then Inl (Internal ''session lock poisoned'')
      else Inr \<lparr>sn_id = se_id s, sn_remote_ip = se_remote_ip s, sn_state = sin_state (se_inner s),
                sn_identity = sin_identity (se_inner s), sn_connected_at = se_connected_at s,
                sn_last_activity_at = sin_last_activity_at (se_inner s)\<rparr>)"

subsection \<open>Control messages\<close>

datatype session_control_action =
    Unspecified | Kick | AccountVersionChanged | DuplicateLogin | ForceLogout | ServerDraining

record session_control =
  sc_action :: int
  sc_reason :: string

record 'a proto_codec =
  proto_encode :: "'a \<Rightarrow> bytes"
  proto_decode :: "bytes \<Rightarrow> 'a option"

fun session_control_action_code :: "session_control_action \<Rightarrow> int" where
  "session_control_action_code Unspecified = 0"
| "session_control_action_code Kick = 1"
| "session_control_action_code AccountVersionChanged = 2"
| "session_control_action_code DuplicateLogin = 3"
| "session_control_action_code ForceLogout = 4"
| "session_control_action_code ServerDraining = 5"

definition session_control_action_try_from :: "int \<Rightarrow> session_control_action option" where
  "session_control_action_try_from n =
     (if n = 0 then Some Unspecified else if n = 1 then Some Kick
      else if n = 2 then Some AccountVersionChanged else if n = 3 then Some DuplicateLogin
      else if n = 4 then Some ForceLogout else if n = 5 then Some ServerDraining else None)"

definition session_control_action_kind :: "session_control \<Rightarrow> core_error + session_control_action" where
  "session_control_action_kind c =
     (case session_control_action_try_from (sc_action c) of
        None \<Rightarrow> Inl (InvalidConfig ''unknown Session control action'')
      | Some action \<Rightarrow>
          if action = Unspecified then Inl (InvalidConfig ''Session control action is unspecified'')
          else Inr action)"

definition session_control_validate :: "session_control \<Rightarrow> core_error + unit" where
  "session_control_validate c =
     (case session_control_action_kind c of
        Inl e \<Rightarrow> Inl e
      | Inr _ \<Rightarrow>
          if 256 < length (sc_reason c)
          then Inl (InvalidConfig ''Session control reason exceeds 256 bytes'') else Inr ())"

definition session_control_new :: "session_control_action \<Rightarrow> string \<Rightarrow> core_error + session_control" where
  "session_control_new action reason =
     (let control = \<lparr>sc_action = session_control_action_code action, sc_reason = reason\<rparr>
      in case session_control_validate control of Inl e \<Rightarrow> Inl e | Inr _ \<Rightarrow> Inr control)"

definition session_control_encode_frame_payload ::
    "session_control proto_codec \<Rightarrow> session_control \<Rightarrow> core_error + bytes" where
  "session_control_encode_frame_payload P c =
     (case session_control_validate c of Inl e \<Rightarrow> Inl e | Inr _ \<Rightarrow> Inr (proto_encode P c))"

definition session_control_decode_frame_payload ::
    "session_control proto_codec \<Rightarrow> bytes \<Rightarrow> core_error + session_control" where
  "session_control_decode_frame_payload P payload =
     (case proto_decode P payload of
        None \<Rightarrow> Inl (InvalidFrame ''invalid Session control Protobuf payload'')
      | Some control \<Rightarrow>
          (case session_control_validate control of
             Inl _ \<Rightarrow> Inl (InvalidFrame ''invalid Session control Protobuf payload'')
           | Inr _ \<Rightarrow> Inr control))"

subsection \<open>Sequences of calls\<close>

datatype session_op = Authenticate identity | Touch | Close

fun session_exec :: "'ip session \<Rightarrow> session_op \<times> instant \<Rightarrow> (core_error + unit) \<times> 'ip session" where
  "session_exec s (Authenticate i, now) = session_authenticate s now i"
| "session_exec s (Touch, now) = (Inr (), session_touch s now)"
| "session_exec s (Close, now) = (Inr (), session_close s now)"

fun session_run :: "'ip session \<Rightarrow> (session_op \<times> instant) list \<Rightarrow> 'ip session" where
  "session_run s [] = s"
| "session_run s (op # ops) = session_run (snd (session_exec s op)) ops"

text \<open>
  What the lifecycle should be, read off the calls alone: the session belongs to the first
  valid identity presented before the first close.
\<close>

fun valid_login :: "session_op \<Rightarrow> identity option" where
  "valid_login (Authenticate i) = (if identity_validate i = Inr () then Some i else None)"
| "valid_login _ = None"

definition session_owner :: "session_op list \<Rightarrow> identity option" where
  "session_owner ops =
     (case List.map_filter valid_login (takeWhile (\<lambda>op. op \<noteq> Close) ops) of
        [] \<Rightarrow> None | i # _ \<Rightarrow> Some i)"

subsection \<open>Lifecycle\<close>

lemma session_run_closed:
  assumes "sin_state (se_inner s) = Closed"
  shows "sin_state (se_inner (session_run s ops)) = Closed \<and>
    sin_identity (se_inner (session_run s ops)) = sin_identity (se_inner s)"
  using assms
proof (induction ops arbitrary: s)
  case (Cons op ops)
  then show ?case
    by (cases "(s, op)" rule: session_exec.cases)
      (auto simp: session_authenticate_def session_touch_def session_close_def split: sum.splits)
qed simp

lemma session_run_authenticated:
  assumes "sin_state (se_inner s) = Authenticated" "\<not> se_poisoned s"
  shows "sin_state (se_inner (session_run s ops)) =
      (if Close \<in> fst ` set ops then Closed else Authenticated) \<and>
    sin_identity (se_inner (session_run s ops)) = sin_identity (se_inner s)"
  using assms
proof (induction ops arbitrary: s)
  case (Cons op ops)
  then show ?case
    using session_run_closed [of "session_close s (snd op)" ops]
    by (cases "(s, op)" rule: session_exec.cases)
      (auto simp: session_authenticate_def session_touch_def session_close_def split: sum.splits)
qed simp

lemma session_run_anonymous:
  assumes "sin_state (se_inner s) = Anonymous" "sin_identity (se_inner s) = None" "\<not> se_poisoned s"
  shows "sin_identity (se_inner (session_run s ops)) = session_owner (map fst ops) \<and>
    sin_state (se_inner (session_run s ops)) =
      (if Close \<in> fst ` set ops then Closed
       else if session_owner (map fst ops) = None then Anonymous else Authenticated)"
  using assms
proof (induction ops arbitrary: s)
  case (Cons op ops)
  show ?case
  proof (cases "(s, op)" rule: session_exec.cases)
    case (1 s' i now)
    show ?thesis
    proof (cases "identity_validate i = Inr ()")
      case True
      with 1 Cons.prems session_run_authenticated [of "snd (session_authenticate s now i)" ops]
      show ?thesis
        by (auto simp: session_authenticate_def session_owner_def map_filter_simps)
    next
      case False
      with 1 Cons show ?thesis
        by (auto simp: session_authenticate_def session_owner_def map_filter_simps split: sum.splits)
    qed
  next
    case (2 s' now)
    with Cons show ?thesis
      by (auto simp: session_touch_def session_owner_def map_filter_simps)
  next
    case (3 s' now)
    with Cons.prems session_run_closed [of "session_close s now" ops] show ?thesis
      by (auto simp: session_close_def session_owner_def map_filter_simps)
  qed
qed (simp add: session_owner_def map_filter_simps)

lemma session_run_frame:
  "se_id (session_run s ops) = se_id s \<and> se_poisoned (session_run s ops) = se_poisoned s"
proof (induction ops arbitrary: s)
  case (Cons op ops)
  then show ?case
    by (cases "(s, op)" rule: session_exec.cases)
      (auto simp: session_authenticate_def session_touch_def session_close_def split: sum.splits)
qed simp

lemma session_owner_valid: "session_owner ops = Some i \<Longrightarrow> identity_validate i = Inr ()"
proof -
  assume "session_owner ops = Some i"
  then have "i \<in> set (List.map_filter valid_login (takeWhile (\<lambda>op. op \<noteq> Close) ops))"
    by (auto simp: session_owner_def split: list.splits)
  then obtain op where "valid_login op = Some i" by (auto simp: List.map_filter_def)
  then show ?thesis by (cases op) (auto split: if_splits)
qed

subsection \<open>Properties\<close>

text \<open>A session authenticates at most once and keeps its identity: after any calls, in any
  order, its identity is the first valid one presented before the first close (closing does
  not clear it and later attempts do not replace it), and it is closed from the first close
  on.\<close>

theorem session_lifecycle:
  "case session_get_snapshot (session_run (session_new fresh start ip) ops) of
     Inl _ \<Rightarrow> False
   | Inr snapshot \<Rightarrow>
       sn_id snapshot = fresh \<and>
       sn_identity snapshot = session_owner (map fst ops) \<and>
       pred_option (\<lambda>i. identity_validate i = Inr ()) (sn_identity snapshot) \<and>
       sn_state snapshot =
         (if Close \<in> fst ` set ops then Closed
          else if session_owner (map fst ops) = None then Anonymous else Authenticated)"
proof -
  let ?s = "session_new fresh start ip"
  have start: "sin_state (se_inner ?s) = Anonymous" "sin_identity (se_inner ?s) = None"
    "\<not> se_poisoned ?s" "se_id ?s = fresh"
    by (simp_all add: session_new_def)
  with session_run_anonymous [OF start(1-3), of ops] session_run_frame [of ?s ops] show ?thesis
    by (auto simp: session_get_snapshot_def option.pred_set dest: session_owner_valid)
qed

text \<open>A control message built for an action reaches the client as that action: it encodes
  without error and the payload decodes to the same message. The unspecified action and
  reasons over 256 bytes cannot be built, and a payload that carries them is rejected.\<close>

theorem session_control_roundtrip:
  assumes "\<And>c. proto_decode P (proto_encode P c) = Some c"
  shows "session_control_new action reason =
      (if action = Unspecified then Inl (InvalidConfig ''Session control action is unspecified'')
       else if 256 < length reason
         then Inl (InvalidConfig ''Session control reason exceeds 256 bytes'')
       else Inr \<lparr>sc_action = session_control_action_code action, sc_reason = reason\<rparr>) \<and>
    (case session_control_new action reason of
       Inl _ \<Rightarrow>
         session_control_decode_frame_payload P (proto_encode P
           \<lparr>sc_action = session_control_action_code action, sc_reason = reason\<rparr>) =
         Inl (InvalidFrame ''invalid Session control Protobuf payload'')
     | Inr control \<Rightarrow>
         session_control_encode_frame_payload P control = Inr (proto_encode P control) \<and>
         session_control_decode_frame_payload P (proto_encode P control) = Inr control \<and>
         session_control_action_kind control = Inr action)"
proof -
  have "session_control_action_try_from (session_control_action_code action) = Some action"
    by (cases action) (simp_all add: session_control_action_try_from_def)
  then show ?thesis
    using assms by (cases action) (simp_all add: session_control_new_def session_control_validate_def Let_def
        session_control_action_kind_def session_control_encode_frame_payload_def
        session_control_decode_frame_payload_def session_control_action_try_from_def)
qed

definition session_demo_proto :: "session_control proto_codec" where
  "session_demo_proto =
     \<lparr>proto_encode = (\<lambda>c. (if 0 \<le> sc_action c then 1 else 0) #
        replicate (nat (abs (sc_action c))) 1 @ 0 # string_bytes (sc_reason c)),
      proto_decode = (\<lambda>v. Some \<lparr>sc_action = (if hd v = 1 then 1 else - 1) *
          int (length (takeWhile (\<lambda>b. b = 1) (tl v))),
        sc_reason = map (\<lambda>b. char_of (unat b)) (tl (dropWhile (\<lambda>b. b = 1) (tl v)))\<rparr>)\<rparr>"

lemma session_demo_proto_law: "proto_decode session_demo_proto (proto_encode session_demo_proto c) = Some c"
proof -
  have "takeWhile (\<lambda>b. b = 1) (replicate n (1 :: u8) @ 0 # xs) = replicate n 1 \<and>
    dropWhile (\<lambda>b. b = 1) (replicate n (1 :: u8) @ 0 # xs) = 0 # xs" for n xs
    by (induction n) simp_all
  then show ?thesis
    by (simp add: session_demo_proto_def string_bytes_def comp_def)
qed

theorem session_control_roundtrip_witness:
  "session_control_decode_frame_payload session_demo_proto (proto_encode session_demo_proto
     \<lparr>sc_action = 2, sc_reason = ''credentials rotated''\<rparr>) =
   Inr \<lparr>sc_action = 2, sc_reason = ''credentials rotated''\<rparr>"
  using session_control_roundtrip [OF session_demo_proto_law, of AccountVersionChanged
      "''credentials rotated''"]
  by (simp split: sum.splits)

end
