(* ===== verification/Replay_Protection.thy ===== *)
theory Replay_Protection
  imports Core_Error Collections
begin

section \<open>Single-use reservations\<close>

text \<open>
  Model of \<open>crates/elura-core/src/replay_protection.rs\<close>. The locale \<open>replay_store\<close> is the
  contract of the trait \<open>ReplayProtectionStore\<close>, in terms of the keys a store holds at a
  given time; the in-memory store is an interpretation. Its client lemma, that no key is
  granted twice before it expires, is what single-use tickets rest on.

  The clock reading is an argument, \<open>None\<close> when the system clock lies before the epoch. A
  poisoned lock is a flag of the state.
\<close>

record memory_replay_store =
  mrs_used :: "(string \<times> u64) list"
  mrs_poisoned :: bool

definition memory_replay_store_default :: memory_replay_store where
  "memory_replay_store_default = \<lparr>mrs_used = [], mrs_poisoned = False\<rparr>"

definition memory_replay_store_reserve ::
    "memory_replay_store \<Rightarrow> u64 option \<Rightarrow> string \<Rightarrow> u64 \<Rightarrow> (core_error + bool) \<times> memory_replay_store" where
  "memory_replay_store_reserve s clock key expires_at =
     (case clock of
        None \<Rightarrow> (Inl Unavailable, s)
      | Some now \<Rightarrow>
          if expires_at \<le> now then (Inr False, s)
          else if mrs_poisoned s then (Inl (Internal ''replay protection lock poisoned''), s)
          else
            let used = map_retain (\<lambda>_ e. now < e) (mrs_used s)
            in if contains_key used key then (Inr False, s\<lparr>mrs_used := used\<rparr>)
               else (Inr True, s\<lparr>mrs_used := hm_insert key expires_at used\<rparr>))"

definition memory_replay_holds :: "memory_replay_store \<Rightarrow> u64 \<Rightarrow> string \<Rightarrow> bool" where
  "memory_replay_holds s now key \<longleftrightarrow>
     (case map_of (mrs_used s) key of None \<Rightarrow> False | Some e \<Rightarrow> now < e)"

definition memory_replay_inv :: "memory_replay_store \<Rightarrow> bool" where
  "memory_replay_inv s \<longleftrightarrow> hm_wf (mrs_used s)"

subsection \<open>The contract\<close>

text \<open>
  \<open>holds s now key\<close> says that the key is reserved and not expired at time \<open>now\<close>. A successful
  reservation was not held before and is held until it expires, and no call releases a
  reservation that is still alive.
\<close>

locale replay_store =
  fixes reserve :: "'s \<Rightarrow> u64 option \<Rightarrow> string \<Rightarrow> u64 \<Rightarrow> (core_error + bool) \<times> 's"
    and holds :: "'s \<Rightarrow> u64 \<Rightarrow> string \<Rightarrow> bool"
    and ok :: "'s \<Rightarrow> bool"
  assumes reserve_ok: "ok s \<Longrightarrow> ok (snd (reserve s clock key e))"
    and reserve_granted: "\<lbrakk>ok s; reserve s clock key e = (Inr True, s')\<rbrakk> \<Longrightarrow>
      \<exists>now. clock = Some now \<and> now < e \<and> \<not> holds s now key \<and> (\<forall>t. now \<le> t \<longrightarrow> t < e \<longrightarrow> holds s' t key)"
    and reserve_keeps: "\<lbrakk>ok s; holds s t k; \<And>now. clock = Some now \<Longrightarrow> now \<le> t\<rbrakk> \<Longrightarrow>
      holds (snd (reserve s clock key e)) t k"
begin

text \<open>A history of calls: the clock reading, the key and the expiry of each.\<close>

fun run :: "'s \<Rightarrow> (u64 option \<times> string \<times> u64) list \<Rightarrow> (core_error + bool) list \<times> 's" where
  "run s [] = ([], s)"
| "run s ((clock, key, e) # calls) =
     (let (r, s') = reserve s clock key e; (rs, s'') = run s' calls in (r # rs, s''))"

lemma run_ok: "ok s \<Longrightarrow> ok (snd (run s calls))"
proof (induction s calls rule: run.induct)
  case (2 s clock key e calls)
  then show ?case
    using reserve_ok [OF "2.prems", of clock key e] by (auto simp: Let_def split: prod.splits)
qed simp

lemma run_length [simp]: "length (fst (run s calls)) = length calls"
  by (induction s calls rule: run.induct) (auto simp: Let_def split: prod.splits)

lemma run_keeps:
  assumes "ok s" "holds s t k" "\<forall>call \<in> set calls. pred_option (\<lambda>now. now \<le> t) (fst call)"
  shows "holds (snd (run s calls)) t k"
  using assms
proof (induction s calls rule: run.induct)
  case (2 s clock key e calls)
  have "holds (snd (reserve s clock key e)) t k"
    using "2.prems" by (intro reserve_keeps) auto
  with 2 reserve_ok [OF "2.prems"(1), of clock key e] show ?case
    by (auto simp: Let_def split: prod.splits)
qed simp

text \<open>With a clock that never runs backwards, a key is not granted again before it expires.\<close>

lemma granted_once:
  assumes "ok s" and first: "reserve s (Some before) key e = (Inr True, s1)"
    and between: "snd (run s1 calls) = s2" "\<forall>call \<in> set calls. pred_option (\<lambda>x. x \<le> now) (fst call)"
    and again: "reserve s2 (Some now) key e' = (Inr True, s3)" and "before \<le> now"
  shows "e \<le> now"
proof (rule ccontr)
  assume "\<not> e \<le> now"
  with reserve_granted [OF assms(1) first] \<open>before \<le> now\<close> have "holds s1 now key" by auto
  moreover have ok1: "ok s1" using reserve_ok [OF assms(1), of "Some before" key e] first by simp
  ultimately have "holds s2 now key" using run_keeps [OF ok1] between by blast
  moreover have "ok s2" using run_ok [OF ok1, of calls] between(1) by simp
  ultimately show False using reserve_granted [OF _ again] by auto
qed

end

subsection \<open>The in-memory store\<close>

interpretation memory_replay: replay_store memory_replay_store_reserve memory_replay_holds
  memory_replay_inv
proof
  fix s clock key e
  assume "memory_replay_inv s"
  then show "memory_replay_inv (snd (memory_replay_store_reserve s clock key e))"
    by (auto simp: memory_replay_store_reserve_def memory_replay_inv_def Let_def map_retain_def
        distinct_keys_filter hm_wf_def hm_insert_def map_remove_def split: option.split)
next
  fix s clock key e s'
  assume inv: "memory_replay_inv s"
    and res: "memory_replay_store_reserve s clock key e = (Inr True, s')"
  then obtain now where "clock = Some now" "now < e"
    "\<not> contains_key (map_retain (\<lambda>_ e. now < e) (mrs_used s)) key"
    "s' = s\<lparr>mrs_used := hm_insert key e (map_retain (\<lambda>_ e. now < e) (mrs_used s))\<rparr>"
    by (auto simp: memory_replay_store_reserve_def Let_def split: option.splits if_splits)
  with inv show "\<exists>now. clock = Some now \<and> now < e \<and> \<not> memory_replay_holds s now key \<and>
      (\<forall>t. now \<le> t \<longrightarrow> t < e \<longrightarrow> memory_replay_holds s' t key)"
    by (auto simp: memory_replay_holds_def contains_key_def memory_replay_inv_def map_of_retain
        hm_insert_def hm_wf_def simp del: map_of_eq_Some_iff split: option.splits if_splits)
next
  fix s t k clock key e
  assume "memory_replay_inv s" "memory_replay_holds s t k" "\<And>now. clock = Some now \<Longrightarrow> now \<le> t"
  then show "memory_replay_holds (snd (memory_replay_store_reserve s clock key e)) t k"
    by (auto simp: memory_replay_store_reserve_def memory_replay_holds_def memory_replay_inv_def
        Let_def map_of_retain hm_insert_def hm_wf_def map_of_remove contains_key_def
        simp del: map_of_eq_Some_iff split: option.splits if_splits)
qed

end
