(* ===== verification/Ticket.thy ===== *)
theory Ticket
  imports Session Replay_Protection
begin

section \<open>Signed tickets\<close>

text \<open>
  Model of \<open>crates/elura-core/src/ticket.rs\<close>: tickets issued for an identity, validated
  against a list of signing keys and consumed once.

  HMAC, Base64 and JSON are parameters, the fields of \<open>ticket_crypto\<close>. What the round trip
  needs of them is \<open>ticket_crypto_ok\<close>. The clock readings (\<open>None\<close> before the epoch) and the
  nonce are arguments; the additions to the clock wrap as they do in a release build.
\<close>

subsection \<open>Data\<close>

datatype ticket_purpose = LoginTicket | ReconnectTicket

record ticket_claims =
  tc_issuer :: string
  tc_audience :: string
  tc_ticket_id :: string
  tc_issued_at :: u64
  tc_expires_at :: u64
  tc_purpose :: ticket_purpose
  tc_identity :: identity

record ticket_service =
  ts_keys :: "bytes list"
  ts_issuer :: string
  ts_audience :: string
  ts_login_ttl :: duration
  ts_reconnect_ttl :: duration

record verified_ticket =
  vt_claims :: ticket_claims

record ticket_crypto =
  tk_hmac :: "bytes \<Rightarrow> bytes \<Rightarrow> bytes option"
  tk_b64_encode :: "bytes \<Rightarrow> string"
  tk_b64_decode :: "string \<Rightarrow> bytes option"
  tk_json :: "ticket_claims json_codec"

subsection \<open>Operations\<close>

definition as_secs :: "duration \<Rightarrow> u64" where
  "as_secs d = of_nat (d div 1000000000)"

definition unix_time :: "u64 option \<Rightarrow> core_error + u64" where
  "unix_time clock =
     (case clock of None \<Rightarrow> Inl (Internal ''system clock is before epoch'') | Some now \<Rightarrow> Inr now)"

definition ticket_sign :: "ticket_crypto \<Rightarrow> bytes \<Rightarrow> bytes \<Rightarrow> core_error + bytes" where
  "ticket_sign T key payload =
     (case tk_hmac T key payload of
        None \<Rightarrow> Inl (InvalidConfig ''invalid ticket key'') | Some mac \<Rightarrow> Inr mac)"

definition ticket_service_new_rotating ::
    "bytes \<Rightarrow> bytes list \<Rightarrow> string \<Rightarrow> string \<Rightarrow> duration \<Rightarrow> duration \<Rightarrow> core_error + ticket_service" where
  "ticket_service_new_rotating primary_key previous_keys issuer audience login_ttl reconnect_ttl =
     (let keys = primary_key # previous_keys
      in if list_ex (\<lambda>key. length key < 32) keys \<or> 16 < length keys
            \<or> login_ttl = 0 \<or> secs 3600 < login_ttl
            \<or> reconnect_ttl = 0 \<or> secs 3600 < reconnect_ttl
         then Inl (InvalidConfig ''ticket keys must be >=32 bytes, contain at most 16 keys and ticket ttls must be positive and <=1h'')
         else Inr \<lparr>ts_keys = keys, ts_issuer = issuer, ts_audience = audience,
                   ts_login_ttl = login_ttl, ts_reconnect_ttl = reconnect_ttl\<rparr>)"

definition ticket_service_new ::
    "bytes \<Rightarrow> string \<Rightarrow> string \<Rightarrow> duration \<Rightarrow> duration \<Rightarrow> core_error + ticket_service" where
  "ticket_service_new key issuer audience login_ttl reconnect_ttl =
     ticket_service_new_rotating key [] issuer audience login_ttl reconnect_ttl"

definition ticket_issue_for ::
    "ticket_crypto \<Rightarrow> ticket_service \<Rightarrow> u64 option \<Rightarrow> bytes \<Rightarrow> identity \<Rightarrow> ticket_purpose \<Rightarrow> duration \<Rightarrow>
     core_error + string" where
  "ticket_issue_for T ts clock nonce identity purpose ttl =
     (case identity_validate identity of
        Inl e \<Rightarrow> Inl e
      | Inr _ \<Rightarrow>
          (case unix_time clock of
             Inl e \<Rightarrow> Inl e
           | Inr now \<Rightarrow>
               let claims = \<lparr>tc_issuer = ts_issuer ts, tc_audience = ts_audience ts,
                     tc_ticket_id = tk_b64_encode T nonce, tc_issued_at = now,
                     tc_expires_at = now + as_secs ttl, tc_purpose = purpose,
                     tc_identity = identity\<rparr>
               in case json_to_vec (tk_json T) claims of
                    None \<Rightarrow> Inl (Serialization ''ticket claims'')
                  | Some v \<Rightarrow>
                      let payload = tk_b64_encode T v
                      in case ticket_sign T (hd (ts_keys ts)) (string_bytes payload) of
                           Inl e \<Rightarrow> Inl e
                         | Inr signature \<Rightarrow> Inr (payload @ ''.'' @ tk_b64_encode T signature)))"

definition ticket_issue_login ::
    "ticket_crypto \<Rightarrow> ticket_service \<Rightarrow> u64 option \<Rightarrow> bytes \<Rightarrow> identity \<Rightarrow> core_error + string" where
  "ticket_issue_login T ts clock nonce identity =
     ticket_issue_for T ts clock nonce identity LoginTicket (ts_login_ttl ts)"

definition ticket_issue_reconnect ::
    "ticket_crypto \<Rightarrow> ticket_service \<Rightarrow> u64 option \<Rightarrow> bytes \<Rightarrow> identity \<Rightarrow> core_error + string" where
  "ticket_issue_reconnect T ts clock nonce identity =
     ticket_issue_for T ts clock nonce identity ReconnectTicket (ts_reconnect_ttl ts)"

definition split_once :: "char \<Rightarrow> string \<Rightarrow> (string \<times> string) option" where
  "split_once c s =
     (let a = takeWhile (\<lambda>x. x \<noteq> c) s
      in if length a = length s then None else Some (a, drop (Suc (length a)) s))"

text \<open>Every key is tried, so that the time taken does not tell which one matched.\<close>

fun ticket_matches :: "ticket_crypto \<Rightarrow> bytes list \<Rightarrow> bytes \<Rightarrow> bytes \<Rightarrow> core_error + bool" where
  "ticket_matches T [] payload signature = Inr False"
| "ticket_matches T (key # keys) payload signature =
     (case ticket_sign T key payload of
        Inl e \<Rightarrow> Inl e
      | Inr expected \<Rightarrow>
          (case ticket_matches T keys payload signature of
             Inl e \<Rightarrow> Inl e
           | Inr valid \<Rightarrow> Inr (signature = expected \<or> valid)))"

definition ticket_validate ::
    "ticket_crypto \<Rightarrow> ticket_service \<Rightarrow> u64 option \<Rightarrow> string \<Rightarrow> core_error + verified_ticket" where
  "ticket_validate T ts clock token =
     (case split_once (CHR ''.'') token of
        None \<Rightarrow> Inl Authentication
      | Some (payload, signature) \<Rightarrow>
          if 4096 < length payload \<or> 128 < length signature then Inl Authentication
          else case tk_b64_decode T signature of
            None \<Rightarrow> Inl Authentication
          | Some mac \<Rightarrow>
              (case ticket_matches T (ts_keys ts) (string_bytes payload) mac of
                 Inl e \<Rightarrow> Inl e
               | Inr valid \<Rightarrow>
                   if \<not> valid then Inl Authentication
                   else case tk_b64_decode T payload of
                     None \<Rightarrow> Inl Authentication
                   | Some decoded \<Rightarrow>
                       (case json_from_slice (tk_json T) decoded of
                          None \<Rightarrow> Inl Authentication
                        | Some claims \<Rightarrow>
                            (case unix_time clock of
                               Inl e \<Rightarrow> Inl e
                             | Inr now \<Rightarrow>
                                 let maximum_lifetime = as_secs (case tc_purpose claims of
                                       LoginTicket \<Rightarrow> ts_login_ttl ts
                                     | ReconnectTicket \<Rightarrow> ts_reconnect_ttl ts)
                                 in if tc_issuer claims \<noteq> ts_issuer ts
                                       \<or> tc_audience claims \<noteq> ts_audience ts
                                       \<or> now + 30 < tc_issued_at claims
                                       \<or> tc_expires_at claims \<le> tc_issued_at claims
                                       \<or> maximum_lifetime < tc_expires_at claims - tc_issued_at claims
                                       \<or> tc_expires_at claims \<le> now
                                    then Inl TicketExpired
                                    else case identity_validate (tc_identity claims) of
                                           Inl e \<Rightarrow> Inl e
                                         | Inr _ \<Rightarrow> Inr \<lparr>vt_claims = claims\<rparr>))))"

text \<open>\<open>consume\<close> and \<open>verify\<close> use any replay store; its \<open>reserve\<close> reads the clock again.\<close>

definition verified_ticket_consume ::
    "('s \<Rightarrow> u64 option \<Rightarrow> string \<Rightarrow> u64 \<Rightarrow> (core_error + bool) \<times> 's) \<Rightarrow> u64 option \<Rightarrow> verified_ticket \<Rightarrow> 's \<Rightarrow>
     (core_error + ticket_claims) \<times> 's" where
  "verified_ticket_consume reserve clock v store =
     (case reserve store clock (tc_ticket_id (vt_claims v)) (tc_expires_at (vt_claims v)) of
        (Inl e, store') \<Rightarrow> (Inl e, store')
      | (Inr granted, store') \<Rightarrow>
          if \<not> granted then (Inl TicketReplayed, store') else (Inr (vt_claims v), store'))"

definition ticket_verify ::
    "ticket_crypto \<Rightarrow> ticket_service \<Rightarrow>
     ('s \<Rightarrow> u64 option \<Rightarrow> string \<Rightarrow> u64 \<Rightarrow> (core_error + bool) \<times> 's) \<Rightarrow> u64 option \<Rightarrow> u64 option \<Rightarrow>
     string \<Rightarrow> 's \<Rightarrow> (core_error + ticket_claims) \<times> 's" where
  "ticket_verify T ts reserve clock clock' token store =
     (case ticket_validate T ts clock token of
        Inl e \<Rightarrow> (Inl e, store)
      | Inr v \<Rightarrow> verified_ticket_consume reserve clock' v store)"

subsection \<open>Histories of verifications\<close>

record ticket_call =
  tca_service :: ticket_service
  tca_validate_clock :: "u64 option"
  tca_reserve_clock :: "u64 option"
  tca_token :: string

fun ticket_run ::
    "ticket_crypto \<Rightarrow> ('s \<Rightarrow> u64 option \<Rightarrow> string \<Rightarrow> u64 \<Rightarrow> (core_error + bool) \<times> 's) \<Rightarrow>
     ticket_call list \<Rightarrow> 's \<Rightarrow> (core_error + ticket_claims) list \<times> 's" where
  "ticket_run T reserve [] store = ([], store)"
| "ticket_run T reserve (c # cs) store =
     (let (r, store') = ticket_verify T (tca_service c) reserve (tca_validate_clock c)
            (tca_reserve_clock c) (tca_token c) store;
          (rs, store'') = ticket_run T reserve cs store'
      in (r # rs, store''))"

definition ticket_ttl :: "ticket_service \<Rightarrow> ticket_purpose \<Rightarrow> duration" where
  "ticket_ttl ts purpose =
     (case purpose of LoginTicket \<Rightarrow> ts_login_ttl ts | ReconnectTicket \<Rightarrow> ts_reconnect_ttl ts)"

text \<open>What the round trip needs of the libraries.\<close>

definition ticket_crypto_ok :: "ticket_crypto \<Rightarrow> ticket_claims \<Rightarrow> bool" where
  "ticket_crypto_ok T claims \<longleftrightarrow>
     (\<forall>bs. tk_b64_decode T (tk_b64_encode T bs) = Some bs \<and> CHR ''.'' \<notin> set (tk_b64_encode T bs)) \<and>
     (\<forall>k p. tk_hmac T k p \<noteq> None) \<and> json_roundtrips (tk_json T) claims"

subsection \<open>Validation\<close>

lemma split_once_append: "c \<notin> set a \<Longrightarrow> split_once c (a @ c # b) = Some (a, b)"
proof -
  assume "c \<notin> set a"
  then have "takeWhile (\<lambda>x. x \<noteq> c) (a @ c # b) = a" by (auto simp: takeWhile_tail)
  then show ?thesis by (simp add: split_once_def)
qed

lemma ticket_matches_iff:
  "ticket_matches T keys payload mac = Inr b \<Longrightarrow>
   b \<longleftrightarrow> (\<exists>key \<in> set keys. tk_hmac T key payload = Some mac)"
  by (induction keys arbitrary: b)
    (auto simp: ticket_sign_def split: sum.splits option.splits)

lemma ticket_matches_total:
  "(\<forall>k p. tk_hmac T k p \<noteq> None) \<Longrightarrow> \<exists>b. ticket_matches T keys payload mac = Inr b"
  by (induction keys) (auto simp: ticket_sign_def split: sum.splits option.splits)

text \<open>The claims a token carries do not depend on who validates it or when.\<close>

definition ticket_token_claims :: "ticket_crypto \<Rightarrow> string \<Rightarrow> ticket_claims option" where
  "ticket_token_claims T token =
     (case split_once (CHR ''.'') token of
        None \<Rightarrow> None
      | Some (payload, _) \<Rightarrow> Option.bind (tk_b64_decode T payload) (json_from_slice (tk_json T)))"

lemma ticket_validate_claims:
  "ticket_validate T ts clock token = Inr v \<Longrightarrow> ticket_token_claims T token = Some (vt_claims v)"
  by (auto simp: ticket_validate_def ticket_token_claims_def Let_def
      split: option.splits prod.splits if_splits sum.splits)

lemma ticket_validate_signed:
  assumes "ticket_validate T ts clock token = Inr v"
  shows "\<exists>payload signature mac key. split_once (CHR ''.'') token = Some (payload, signature) \<and>
    tk_b64_decode T signature = Some mac \<and> key \<in> set (ts_keys ts) \<and>
    tk_hmac T key (string_bytes payload) = Some mac"
  using assms ticket_matches_iff
  by (fastforce simp: ticket_validate_def Let_def
      split: option.splits prod.splits if_splits sum.splits)

lemma ticket_validate_window:
  assumes "ticket_validate T ts (Some now) token = Inr v"
  shows "tc_issuer (vt_claims v) = ts_issuer ts \<and> tc_audience (vt_claims v) = ts_audience ts \<and>
    now < tc_expires_at (vt_claims v) \<and> tc_issued_at (vt_claims v) \<le> now + 30 \<and>
    tc_issued_at (vt_claims v) < tc_expires_at (vt_claims v) \<and>
    tc_expires_at (vt_claims v) - tc_issued_at (vt_claims v)
      \<le> as_secs (ticket_ttl ts (tc_purpose (vt_claims v))) \<and>
    identity_validate (tc_identity (vt_claims v)) = Inr ()"
  using assms by (auto simp: ticket_validate_def Let_def unix_time_def ticket_ttl_def not_less not_le
      split: option.splits prod.splits if_splits sum.splits)

lemma ticket_verify_success:
  assumes "ticket_verify T ts reserve clock clock' token store = (Inr claims, store')"
  shows "ticket_token_claims T token = Some claims \<and>
    reserve store clock' (tc_ticket_id claims) (tc_expires_at claims) = (Inr True, store')"
  using assms
  by (auto simp: ticket_verify_def verified_ticket_consume_def dest!: ticket_validate_claims
      split: sum.splits prod.splits if_splits)

context replay_store
begin

lemma ticket_verify_calls:
  "\<exists>calls. snd (ticket_verify T ts reserve clock clock' token store) = snd (run store calls) \<and>
     fst ` set calls \<subseteq> {clock'}"
proof (cases "ticket_validate T ts clock token")
  case (Inl e)
  then show ?thesis by (intro exI [of _ "[]"]) (simp add: ticket_verify_def)
next
  case (Inr v)
  then show ?thesis
    by (intro exI [of _ "[(clock', tc_ticket_id (vt_claims v), tc_expires_at (vt_claims v))]"])
      (auto simp: ticket_verify_def verified_ticket_consume_def Let_def split: prod.splits sum.splits)
qed

lemma run_append: "snd (run s (xs @ ys)) = snd (run (snd (run s xs)) ys)"
  by (induction s xs rule: run.induct) (auto simp: Let_def split: prod.splits)

lemma ticket_run_calls:
  "\<exists>calls. snd (ticket_run T reserve cs store) = snd (run store calls) \<and>
     fst ` set calls \<subseteq> tca_reserve_clock ` set cs"
proof (induction cs arbitrary: store)
  case Nil
  then show ?case by (intro exI [of _ "[]"]) simp
next
  case (Cons c cs)
  let ?verify = "ticket_verify T (tca_service c) reserve (tca_validate_clock c) (tca_reserve_clock c)
      (tca_token c) store"
  obtain xs where xs: "snd ?verify = snd (run store xs)" "fst ` set xs \<subseteq> {tca_reserve_clock c}"
    using ticket_verify_calls by metis
  obtain ys where ys: "snd (ticket_run T reserve cs (snd ?verify)) = snd (run (snd ?verify) ys)"
    "fst ` set ys \<subseteq> tca_reserve_clock ` set cs"
    using Cons.IH by metis
  have "snd (ticket_run T reserve (c # cs) store) = snd (run store (xs @ ys))"
    using xs(1) ys(1) by (simp add: Let_def split_beta run_append)
  moreover have "fst ` set (xs @ ys) \<subseteq> tca_reserve_clock ` set (c # cs)"
    using xs(2) ys(2) by auto
  ultimately show ?case by blast
qed

lemma verify_once:
  assumes "ok store"
    and first: "ticket_verify T ts reserve clock (Some before) token store = (Inr claims, store1)"
    and between: "ticket_run T reserve cs store1 = (outs, store2)"
      "\<forall>c \<in> set cs. pred_option (\<lambda>t. t \<le> now) (tca_reserve_clock c)" "before \<le> now"
  shows "\<not> (\<exists>claims'. fst (ticket_verify T ts' reserve clock' (Some now) token store2) = Inr claims')"
proof
  assume "\<exists>claims'. fst (ticket_verify T ts' reserve clock' (Some now) token store2) = Inr claims'"
  then obtain claims' store3 where
    again: "ticket_verify T ts' reserve clock' (Some now) token store2 = (Inr claims', store3)"
    by (metis prod.collapse)
  note one = ticket_verify_success [OF first] and two = ticket_verify_success [OF again]
  have same: "claims' = claims" using one two by simp
  obtain calls where calls: "store2 = snd (run store1 calls)"
    "fst ` set calls \<subseteq> tca_reserve_clock ` set cs"
    using ticket_run_calls [of T cs store1] between(1) by auto
  have "pred_option (\<lambda>t. t \<le> now) (fst call)" if "call \<in> set calls" for call
  proof -
    have "fst call \<in> tca_reserve_clock ` set cs" using calls(2) that by auto
    then show ?thesis using between(2) by auto
  qed
  then have "tc_expires_at claims \<le> now"
    using granted_once [OF assms(1) _ calls(1) [symmetric], of before "tc_ticket_id claims"
        "tc_expires_at claims" now "tc_expires_at claims" store3] one two same between(3) by simp
  moreover have "ok store1"
    using reserve_ok [OF assms(1), of "Some before" "tc_ticket_id claims" "tc_expires_at claims"] one
    by simp
  then have "ok store2" using run_ok [of store1 calls] calls(1) by simp
  from reserve_granted [OF this, of "Some now" "tc_ticket_id claims" "tc_expires_at claims" store3]
  have "now < tc_expires_at claims" using two same by simp
  ultimately show False by simp
qed

end

subsection \<open>Issuing\<close>

definition ticket_claims_for ::
    "ticket_crypto \<Rightarrow> ticket_service \<Rightarrow> u64 \<Rightarrow> bytes \<Rightarrow> identity \<Rightarrow> ticket_purpose \<Rightarrow> ticket_claims" where
  "ticket_claims_for T ts now nonce identity purpose =
     \<lparr>tc_issuer = ts_issuer ts, tc_audience = ts_audience ts, tc_ticket_id = tk_b64_encode T nonce,
      tc_issued_at = now, tc_expires_at = now + as_secs (ticket_ttl ts purpose),
      tc_purpose = purpose, tc_identity = identity\<rparr>"

lemma ticket_issue_token:
  assumes ok: "ticket_crypto_ok T (ticket_claims_for T ts now nonce identity purpose)"
    and issue: "ticket_issue_for T ts (Some now) nonce identity purpose (ticket_ttl ts purpose) = Inr token"
  shows "\<exists>v mac. json_from_slice (tk_json T) v = Some (ticket_claims_for T ts now nonce identity purpose) \<and>
    tk_hmac T (hd (ts_keys ts)) (string_bytes (tk_b64_encode T v)) = Some mac \<and>
    split_once (CHR ''.'') token = Some (tk_b64_encode T v, tk_b64_encode T mac) \<and>
    identity_validate identity = Inr ()"
proof -
  obtain v where v: "json_to_vec (tk_json T) (ticket_claims_for T ts now nonce identity purpose) = Some v"
    "json_from_slice (tk_json T) v = Some (ticket_claims_for T ts now nonce identity purpose)"
    using ok by (auto simp: ticket_crypto_ok_def json_roundtrips_def split: option.splits)
  obtain mac where mac: "tk_hmac T (hd (ts_keys ts)) (string_bytes (tk_b64_encode T v)) = Some mac"
    using ok unfolding ticket_crypto_ok_def by blast
  have "token = tk_b64_encode T v @ CHR ''.'' # tk_b64_encode T mac \<and> identity_validate identity = Inr ()"
    using issue v(1) mac
    by (simp add: ticket_issue_for_def unix_time_def Let_def ticket_sign_def ticket_claims_for_def
        split: sum.splits)
  with v mac ok show ?thesis
    by (auto simp: ticket_crypto_ok_def intro!: split_once_append)
qed

lemma unat_as_secs: "d \<le> secs 3600 \<Longrightarrow> unat (as_secs d) = d div 1000000000"
proof -
  assume "d \<le> secs 3600"
  then have "d div 1000000000 \<le> 3600" by (simp add: secs_def div_le_mono [of d])
  then show ?thesis by (simp add: as_secs_def unat_of_nat)
qed

lemma ticket_window:
  fixes t0 now :: u64
  assumes ttl: "d \<le> d'" "d' \<le> secs 3600" "secs 1 \<le> d"
    and small: "unat t0 + 3600 < 2 ^ 64" "unat now + 30 < 2 ^ 64"
    and alive: "unat t0 \<le> unat now + 30" "unat now < unat t0 + d div 1000000000"
  shows "\<not> (now + 30 < t0 \<or> t0 + as_secs d \<le> t0 \<or> as_secs d' < t0 + as_secs d - t0 \<or>
    t0 + as_secs d \<le> now)"
proof -
  have d: "unat (as_secs d) = d div 1000000000" "unat (as_secs d') = d' div 1000000000"
    using ttl by (simp_all add: unat_as_secs)
  have "1 \<le> d div 1000000000" "d div 1000000000 \<le> 3600"
    using div_le_mono [OF ttl(3), of 1000000000] div_le_mono [of d "secs 3600" 1000000000] ttl
    by (simp_all add: secs_def)
  moreover from this have "unat (t0 + as_secs d) = unat t0 + d div 1000000000"
    using small(1) d by (simp add: unat_add_lem [THEN iffD1])
  moreover have "unat (now + 30) = unat now + 30"
    using small(2) by (simp add: unat_add_lem [THEN iffD1])
  moreover have "d div 1000000000 \<le> d' div 1000000000" by (rule div_le_mono [OF ttl(1)])
  ultimately show ?thesis
    using alive d by (simp add: word_less_nat_alt word_le_nat_alt)
qed

text \<open>With a lifetime below one second the expiry equals the time of issue.\<close>

lemma ticket_subsecond_rejected:
  assumes "ticket_crypto_ok T (ticket_claims_for T ts t0 nonce identity purpose)"
    and "ticket_issue_for T ts (Some t0) nonce identity purpose (ticket_ttl ts purpose) = Inr token"
    and "ticket_ttl ts purpose < secs 1"
  shows "ticket_validate T ts' clock token \<noteq> Inr v"
proof
  assume ok: "ticket_validate T ts' clock token = Inr v"
  then obtain now where now: "clock = Some now"
    by (auto simp: ticket_validate_def unix_time_def split: option.splits prod.splits if_splits sum.splits)
  have "ticket_token_claims T token = Some (ticket_claims_for T ts t0 nonce identity purpose)"
    using ticket_issue_token [OF assms(1,2)] assms(1)
    by (auto simp: ticket_token_claims_def ticket_crypto_ok_def)
  then have "vt_claims v = ticket_claims_for T ts t0 nonce identity purpose"
    using ticket_validate_claims [OF ok] by simp
  moreover have "as_secs (ticket_ttl ts purpose) = 0"
    using assms(3) by (simp add: as_secs_def secs_def)
  ultimately show False
    using ticket_validate_window [of T ts' now token v] ok now by (simp add: ticket_claims_for_def)
qed

subsection \<open>Properties\<close>

text \<open>C21. A ticket is accepted at most once: when a token has been verified successfully, then after
  any further verifications, by gateways that share the replay store and for any tokens, no
  later verification of the same token succeeds, whichever keys and lifetimes the verifying
  service has. The clock the store reads must not run backwards.\<close>

theorem ticket_single_use:
  assumes "memory_replay_inv store"
    and "ticket_verify T ts memory_replay_store_reserve clock (Some before) token store = (Inr claims, store1)"
    and "ticket_run T memory_replay_store_reserve cs store1 = (outs, store2)"
    and "\<forall>c \<in> set cs. pred_option (\<lambda>t. t \<le> now) (tca_reserve_clock c)" and "before \<le> now"
  shows "\<not> (\<exists>claims'. fst (ticket_verify T ts' memory_replay_store_reserve clock' (Some now) token store2)
    = Inr claims')"
  using assms by (rule memory_replay.verify_once)

text \<open>C24. An issued ticket is accepted while it lives, also after a key rotation: a service that
  still knows the issuing key, has the same issuer and audience and at least the same
  lifetime validates the token to exactly the claims it was issued with, from half a minute
  before the time of issue until it expires. This holds for tokens within the sizes that
  \<open>validate\<close> accepts (at most 4096 bytes of encoded payload and 128 of encoded signature, which
  \<open>issue\<close> does not check), for a lifetime of at least one second (a shorter one is cut to zero
  seconds and never accepted) and at most the hour that the configuration allows, and for clocks
  at which adding the lifetime or the half minute does not overflow 64 bits. Of the cryptography it
  uses that the JSON and base64 of the claims decode to what was encoded and that the MAC of a
  service's key can be computed (\<open>ticket_crypto_ok\<close>).\<close>

theorem ticket_issue_validate:
  assumes ok: "ticket_crypto_ok T (ticket_claims_for T ts t0 nonce identity purpose)"
    and issue: "ticket_issue_for T ts (Some t0) nonce identity purpose (ticket_ttl ts purpose) = Inr token"
    and size: "split_once (CHR ''.'') token = Some (payload, signature)" "length payload \<le> 4096"
      "length signature \<le> 128"
    and service: "hd (ts_keys ts) \<in> set (ts_keys ts')" "ts_issuer ts' = ts_issuer ts"
      "ts_audience ts' = ts_audience ts"
    and ttl: "ticket_ttl ts purpose \<le> ticket_ttl ts' purpose" "ticket_ttl ts' purpose \<le> secs 3600"
      "secs 1 \<le> ticket_ttl ts purpose"
    and small: "unat t0 + 3600 < 2 ^ 64" "unat now + 30 < 2 ^ 64"
    and alive: "unat t0 \<le> unat now + 30"
      "unat now < unat t0 + ticket_ttl ts purpose div 1000000000"
  shows "ticket_validate T ts' (Some now) token =
    Inr \<lparr>vt_claims = ticket_claims_for T ts t0 nonce identity purpose\<rparr>"
proof -
  let ?claims = "ticket_claims_for T ts t0 nonce identity purpose"
  obtain v mac where v: "json_from_slice (tk_json T) v = Some ?claims"
    and mac: "tk_hmac T (hd (ts_keys ts)) (string_bytes (tk_b64_encode T v)) = Some mac"
    and token: "split_once (CHR ''.'') token = Some (tk_b64_encode T v, tk_b64_encode T mac)"
    and valid: "identity_validate identity = Inr ()"
    using ticket_issue_token [OF ok issue] by auto
  obtain b where b: "ticket_matches T (ts_keys ts') (string_bytes (tk_b64_encode T v)) mac = Inr b"
    using ticket_matches_total [of T "ts_keys ts'"] ok unfolding ticket_crypto_ok_def by blast
  then have b: "ticket_matches T (ts_keys ts') (string_bytes (tk_b64_encode T v)) mac = Inr True"
    using ticket_matches_iff [OF b] mac service(1) by auto
  have decode: "tk_b64_decode T (tk_b64_encode T bs) = Some bs" for bs
    using ok by (simp add: ticket_crypto_ok_def)
  have "\<not> (now + 30 < t0 \<or> t0 + as_secs (ticket_ttl ts purpose) \<le> t0 \<or>
      as_secs (ticket_ttl ts' purpose) < t0 + as_secs (ticket_ttl ts purpose) - t0 \<or>
      t0 + as_secs (ticket_ttl ts purpose) \<le> now)"
    by (rule ticket_window [OF ttl small alive])
  moreover have "length (tk_b64_encode T v) \<le> 4096" "length (tk_b64_encode T mac) \<le> 128"
    using size token by auto
  ultimately show ?thesis
    using service(2,3) valid
    by (simp add: ticket_validate_def token decode b v unix_time_def Let_def ticket_claims_for_def
        ticket_ttl_def [of ts', symmetric])
qed

text \<open>C25. Only signed, live tickets are accepted: whatever the token, a successful validation means
  that its payload carries the MAC of one of the service's keys, that the claims are decoded
  from this payload, name this issuer and audience, belong to a valid identity, have not
  expired and do not live longer than the service allows.\<close>

theorem ticket_validate_sound:
  assumes "ticket_validate T ts (Some now) token = Inr v"
  shows "\<exists>payload signature mac decoded key.
    split_once (CHR ''.'') token = Some (payload, signature) \<and>
    tk_b64_decode T signature = Some mac \<and>
    key \<in> set (ts_keys ts) \<and> tk_hmac T key (string_bytes payload) = Some mac \<and>
    tk_b64_decode T payload = Some decoded \<and>
    json_from_slice (tk_json T) decoded = Some (vt_claims v) \<and>
    tc_issuer (vt_claims v) = ts_issuer ts \<and> tc_audience (vt_claims v) = ts_audience ts \<and>
    identity_validate (tc_identity (vt_claims v)) = Inr () \<and>
    now < tc_expires_at (vt_claims v) \<and>
    tc_expires_at (vt_claims v) - tc_issued_at (vt_claims v)
      \<le> as_secs (ticket_ttl ts (tc_purpose (vt_claims v)))"
  using ticket_validate_signed [OF assms] ticket_validate_window [OF assms]
    ticket_validate_claims [OF assms]
  by (auto simp: ticket_token_claims_def bind_eq_Some_conv) blast

subsection \<open>A concrete ticket\<close>

text \<open>
  A hexadecimal text encoding, a keyed checksum and a codec that spells out the ticket
  identifier, issued with a key that the verifying service has already rotated away from.
\<close>

definition demo_encode :: "bytes \<Rightarrow> string" where
  "demo_encode bs =
     concat (map (\<lambda>b. [char_of (97 + unat b div 16), char_of (97 + unat b mod 16)]) bs)"

fun demo_decode :: "string \<Rightarrow> bytes option" where
  "demo_decode [] = Some []"
| "demo_decode [c] = None"
| "demo_decode (c # d # cs) =
     map_option ((#) (of_nat ((of_char c - 97) * 16 + (of_char d - 97)))) (demo_decode cs)"

definition demo_identity :: identity where
  "demo_identity = \<lparr>id_account_id = 1, id_user_id = 2, id_region_id = 1, id_realm_id = 1,
     id_generation = 1\<rparr>"

definition demo_claims :: ticket_claims where
  "demo_claims = \<lparr>tc_issuer = ''auth'', tc_audience = ''gateway'', tc_ticket_id = [],
     tc_issued_at = 1000, tc_expires_at = 1060, tc_purpose = LoginTicket,
     tc_identity = demo_identity\<rparr>"

definition demo_crypto :: ticket_crypto where
  "demo_crypto = \<lparr>tk_hmac = (\<lambda>key p. Some [sum_list key, sum_list p]), tk_b64_encode = demo_encode,
     tk_b64_decode = demo_decode,
     tk_json = \<lparr>json_to_vec = (\<lambda>c. Some (string_bytes (tc_ticket_id c))),
       json_from_slice =
         (\<lambda>v. Some (demo_claims\<lparr>tc_ticket_id := map (\<lambda>b. char_of (unat b)) v\<rparr>))\<rparr>\<rparr>"

definition demo_service :: "bytes list \<Rightarrow> ticket_service" where
  "demo_service keys = \<lparr>ts_keys = keys, ts_issuer = ''auth'', ts_audience = ''gateway'',
     ts_login_ttl = secs 60, ts_reconnect_ttl = secs 1800\<rparr>"

lemma demo_decode_encode: "demo_decode (demo_encode bs) = Some bs"
proof (induction bs)
  case (Cons b bs)
  have "unat b div 16 < 16" using unat_lt2p [of b] by (simp add: less_mult_imp_div_less)
  with Cons show ?case by (simp add: demo_encode_def)
qed (simp add: demo_encode_def)

lemma demo_encode_no_dot: "CHR ''.'' \<notin> set (demo_encode bs)"
proof -
  have "char_of (97 + n) \<noteq> CHR ''.''" if "n < 16" for n :: nat
  proof
    assume "char_of (97 + n) = CHR ''.''"
    then have "of_char (char_of (97 + n) :: char) = (of_char CHR ''.'' :: nat)" by simp
    then show False using that by simp
  qed
  moreover have "unat (b :: u8) div 16 < 16" "unat b mod 16 < 16" for b
    using unat_lt2p [of b] by (simp_all add: less_mult_imp_div_less)
  ultimately have "CHR ''.'' \<noteq> char_of (97 + unat b div 16)"
    "CHR ''.'' \<noteq> char_of (97 + unat b mod 16)" for b :: u8
    by metis+
  then show ?thesis by (auto simp: demo_encode_def)
qed

lemma demo_crypto_ok: "ticket_crypto_ok demo_crypto
    (ticket_claims_for demo_crypto (demo_service keys) 1000 nonce demo_identity LoginTicket)"
proof -
  have "as_secs (secs 60) = 60" by (simp add: as_secs_def secs_def)
  then show ?thesis
    by (auto simp: ticket_crypto_ok_def demo_crypto_def demo_decode_encode demo_encode_no_dot
        json_roundtrips_def ticket_claims_for_def demo_service_def demo_claims_def string_bytes_def
        ticket_ttl_def comp_def)
qed

definition demo_payload :: string where
  "demo_payload = demo_encode (string_bytes (demo_encode [3]))"

definition demo_signature :: string where
  "demo_signature = demo_encode [7, sum_list (string_bytes demo_payload)]"

definition demo_token :: string where
  "demo_token = demo_payload @ ''.'' @ demo_signature"

lemma demo_issue:
  "ticket_issue_for demo_crypto (demo_service [[7]]) (Some 1000) [3] demo_identity LoginTicket
     (ticket_ttl (demo_service [[7]]) LoginTicket) = Inr demo_token"
  by (simp add: ticket_issue_for_def identity_validate_def demo_identity_def unix_time_def
      demo_crypto_def demo_service_def ticket_sign_def Let_def demo_token_def
      demo_payload_def demo_signature_def)

lemma length_demo_encode: "length (demo_encode bs) = 2 * length bs"
  by (induction bs) (simp_all add: demo_encode_def)

lemma demo_split: "split_once (CHR ''.'') demo_token = Some (demo_payload, demo_signature)"
  by (simp add: demo_token_def split_once_append demo_payload_def demo_encode_no_dot)

lemma demo_short: "length demo_payload \<le> 4096" "length demo_signature \<le> 128"
  by (simp_all add: demo_payload_def demo_signature_def length_demo_encode string_bytes_def)

lemma demo_service_simps [simp]:
  "ts_keys (demo_service keys) = keys" "ts_issuer (demo_service keys) = ''auth''"
  "ts_audience (demo_service keys) = ''gateway''"
  "ticket_ttl (demo_service keys) LoginTicket = 60000000000"
  by (simp_all add: demo_service_def ticket_ttl_def secs_def)

theorem ticket_issue_validate_witness:
  "ticket_validate demo_crypto (demo_service [[9], [7]]) (Some 1030) demo_token =
   Inr \<lparr>vt_claims = ticket_claims_for demo_crypto (demo_service [[7]]) 1000 [3] demo_identity LoginTicket\<rparr>"
  by (rule ticket_issue_validate [OF demo_crypto_ok demo_issue demo_split demo_short])
    (simp_all add: secs_def)

lemma demo_validate:
  "\<exists>v. ticket_validate demo_crypto (demo_service [[7]]) (Some 1030) demo_token = Inr v \<and>
     tc_ticket_id (vt_claims v) = demo_encode [3] \<and> tc_expires_at (vt_claims v) = 1060"
proof -
  have claims: "Option.bind (demo_decode demo_payload) (json_from_slice (tk_json demo_crypto)) =
      Some (demo_claims\<lparr>tc_ticket_id := demo_encode [3]\<rparr>)"
    by (simp add: demo_payload_def demo_decode_encode demo_crypto_def string_bytes_def comp_def)
  show ?thesis
    using claims
    by (simp add: ticket_validate_def demo_split demo_short not_less)
      (simp add: demo_crypto_def demo_signature_def demo_decode_encode demo_payload_def ticket_sign_def
        unix_time_def Let_def demo_claims_def identity_validate_def demo_identity_def as_secs_def
        string_bytes_def comp_def demo_service_def secs_def)
qed

theorem ticket_validate_sound_witness:
  "\<exists>v. ticket_validate demo_crypto (demo_service [[7]]) (Some 1030) demo_token = Inr v \<and>
     tc_issuer (vt_claims v) = ''auth''"
  using demo_validate ticket_validate_sound by fastforce

theorem ticket_single_use_witness:
  "\<exists>claims store. ticket_verify demo_crypto (demo_service [[7]]) memory_replay_store_reserve
       (Some 1030) (Some 1031) demo_token memory_replay_store_default = (Inr claims, store) \<and>
     \<not> (\<exists>claims'. fst (ticket_verify demo_crypto (demo_service [[7]]) memory_replay_store_reserve
       (Some 1040) (Some 1041) demo_token store) = Inr claims')"
proof -
  have inv: "memory_replay_inv memory_replay_store_default"
    by (simp add: memory_replay_inv_def memory_replay_store_default_def hm.map_laws)
  obtain v where v: "ticket_validate demo_crypto (demo_service [[7]]) (Some 1030) demo_token = Inr v"
    "tc_expires_at (vt_claims v) = 1060"
    using demo_validate by blast
  then obtain store where "ticket_verify demo_crypto (demo_service [[7]]) memory_replay_store_reserve
      (Some 1030) (Some 1031) demo_token memory_replay_store_default = (Inr (vt_claims v), store)"
    by (simp add: ticket_verify_def verified_ticket_consume_def memory_replay_store_reserve_def
        memory_replay_store_default_def map_retain_def contains_key_def)
  with ticket_single_use [OF inv this, of "[]"] show ?thesis by fastforce
qed

end
