(* ===== verification/Outbox.thy ===== *)
theory Outbox
  imports Core_Error Collections "HOL-Library.Product_Lexorder"
begin

section \<open>The transactional outbox\<close>

text \<open>
  Model of \<open>crates/elura-core/src/outbox.rs\<close> and \<open>crates/elura-core/src/outbox/memory.rs\<close>:
  events that wait to be delivered, leases that give one worker the right to settle an event,
  and the three places an event can be in (active, dead-lettered, completed).

  Clock readings and fresh tokens are arguments. Where a method reads the clock twice it takes
  two readings. Each method holds the store's lock throughout and is one atomic step.
\<close>

subsection \<open>Data\<close>

record outbox_event =
  ev_id :: uuid
  ev_topic :: string
  ev_key :: string
  ev_trace_id :: string
  ev_payload :: bytes
  ev_headers :: "(string \<times> string) list"
  ev_created_at :: instant
  ev_available_at :: instant

record outbox_delivery =
  od_event :: outbox_event
  od_attempt :: u32
  od_worker :: string
  od_token :: uuid
  od_lease_until :: instant

record dead_letter =
  dl_event :: outbox_event
  dl_attempt :: u32
  dl_reason :: string
  dl_failed_at :: instant

record outbox_entry =
  oe_event :: outbox_event
  oe_attempt :: u32
  oe_worker :: "string option"
  oe_token :: "uuid option"
  oe_lease_until :: "instant option"
  oe_last_error :: string

record memory_outbox =
  mo_active :: "(uuid \<times> outbox_entry) list"
  mo_dead :: "(uuid \<times> dead_letter) list"
  mo_completed :: "(uuid \<times> outbox_event) list"
  mo_poisoned :: bool

subsection \<open>Events\<close>

definition outbox_event_validate :: "outbox_event \<Rightarrow> core_error + unit" where
  "outbox_event_validate e =
     (if ev_id e = 0 \<or> trim_is_empty (ev_topic e) \<or> ev_available_at e < ev_created_at e
         \<or> 255 < length (ev_topic e) \<or> 512 < length (ev_key e) \<or> 128 < length (ev_trace_id e)
         \<or> 1024 * 1024 < length (ev_payload e) \<or> 64 < length (ev_headers e)
         \<or> list_ex (\<lambda>(key, v). key = [] \<or> 128 < length key \<or> 1024 < length v) (ev_headers e)
      then Inl (InvalidConfig ''invalid outbox event'') else Inr ())"

definition outbox_event_with_id ::
    "instant \<Rightarrow> uuid \<Rightarrow> string \<Rightarrow> bytes \<Rightarrow> core_error + outbox_event" where
  "outbox_event_with_id now i topic payload =
     (let event = \<lparr>ev_id = i, ev_topic = topic, ev_key = [], ev_trace_id = [],
            ev_payload = payload, ev_headers = [], ev_created_at = now, ev_available_at = now\<rparr>
      in case outbox_event_validate event of Inl e \<Rightarrow> Inl e | Inr _ \<Rightarrow> Inr event)"

definition outbox_event_same_identity :: "outbox_event \<Rightarrow> outbox_event \<Rightarrow> bool" where
  "outbox_event_same_identity a b \<longleftrightarrow>
     ev_id a = ev_id b \<and> ev_topic a = ev_topic b \<and> ev_key a = ev_key b \<and>
     ev_trace_id a = ev_trace_id b \<and> ev_payload a = ev_payload b \<and> ev_headers a = ev_headers b"

definition validate_failure_reason :: "string \<Rightarrow> core_error + unit" where
  "validate_failure_reason reason =
     (if 4096 < length reason then Inl (InvalidConfig ''outbox failure reason exceeds limit'')
      else Inr ())"

subsection \<open>The in-memory store\<close>

definition memory_outbox_new :: memory_outbox where
  "memory_outbox_new = \<lparr>mo_active = [], mo_dead = [], mo_completed = [], mo_poisoned = False\<rparr>"

definition poisoned_outbox :: core_error where
  "poisoned_outbox = Internal ''outbox lock poisoned''"

definition outbox_leased :: "memory_outbox \<Rightarrow> instant \<Rightarrow> outbox_delivery \<Rightarrow> core_error + outbox_entry" where
  "outbox_leased s now d =
     (case map_of (mo_active s) (ev_id (od_event d)) of
        None \<Rightarrow> Inl OutboxNotFound
      | Some entry \<Rightarrow>
          if oe_worker entry \<noteq> Some (od_worker d) \<or> oe_token entry \<noteq> Some (od_token d)
             \<or> (case oe_lease_until entry of None \<Rightarrow> True | Some until \<Rightarrow> until \<le> now)
          then Inl OutboxLeaseLost else Inr entry)"

definition outbox_fresh_entry :: "outbox_event \<Rightarrow> outbox_entry" where
  "outbox_fresh_entry event =
     \<lparr>oe_event = event, oe_attempt = 0, oe_worker = None, oe_token = None, oe_lease_until = None,
      oe_last_error = []\<rparr>"

definition outbox_existing :: "memory_outbox \<Rightarrow> uuid \<Rightarrow> outbox_event option" where
  "outbox_existing s i =
     (case map_of (mo_active s) i of
        Some entry \<Rightarrow> Some (oe_event entry)
      | None \<Rightarrow>
          (case map_of (mo_dead s) i of
             Some letter \<Rightarrow> Some (dl_event letter)
           | None \<Rightarrow> map_of (mo_completed s) i))"

definition memory_outbox_append ::
    "memory_outbox \<Rightarrow> outbox_event \<Rightarrow> (core_error + unit) \<times> memory_outbox" where
  "memory_outbox_append s event =
     (case outbox_event_validate event of
        Inl e \<Rightarrow> (Inl e, s)
      | Inr _ \<Rightarrow>
          if mo_poisoned s then (Inl poisoned_outbox, s)
          else case outbox_existing s (ev_id event) of
            Some existing \<Rightarrow>
              (if outbox_event_same_identity existing event then Inr () else Inl DuplicateEvent, s)
          | None \<Rightarrow>
              (Inr (), s\<lparr>mo_active := hm_insert (ev_id event) (outbox_fresh_entry event) (mo_active s)\<rparr>))"

definition outbox_due :: "instant \<Rightarrow> outbox_entry \<Rightarrow> bool" where
  "outbox_due now entry \<longleftrightarrow> ev_available_at (oe_event entry) \<le> now \<and>
     (case oe_lease_until entry of None \<Rightarrow> True | Some until \<Rightarrow> until \<le> now)"

definition outbox_due_ids :: "memory_outbox \<Rightarrow> instant \<Rightarrow> usize \<Rightarrow> uuid list" where
  "outbox_due_ids s now limit =
     (let ids = map fst (filter (\<lambda>p. outbox_due now (snd p)) (mo_active s))
      in take limit (sort_key (\<lambda>i. (case map_of (mo_active s) i of
                                      Some entry \<Rightarrow> ev_created_at (oe_event entry) | None \<Rightarrow> 0, i)) ids))"

text \<open>The loop of \<open>acquire\<close>: each due event is leased under a fresh token.\<close>

fun outbox_lease_all ::
    "string \<Rightarrow> instant \<Rightarrow> uuid list \<Rightarrow> uuid list \<Rightarrow> (uuid \<times> outbox_entry) list \<Rightarrow>
     outbox_delivery list \<times> (uuid \<times> outbox_entry) list" where
  "outbox_lease_all worker until [] tokens active = ([], active)"
| "outbox_lease_all worker until (i # ids) tokens active =
     (case map_of active i of
        None \<Rightarrow> outbox_lease_all worker until ids tokens active
      | Some entry \<Rightarrow>
          let attempt = sat_add (oe_attempt entry) 1;
              token = hd tokens;
              (ds, active') = outbox_lease_all worker until ids (tl tokens)
                (map_adjust i (\<lambda>v. v\<lparr>oe_attempt := attempt, oe_worker := Some worker,
                   oe_token := Some token, oe_lease_until := Some until\<rparr>) active)
          in (\<lparr>od_event = oe_event entry, od_attempt = attempt, od_worker = worker,
               od_token = token, od_lease_until = until\<rparr> # ds, active'))"

definition memory_outbox_acquire ::
    "memory_outbox \<Rightarrow> instant \<Rightarrow> uuid list \<Rightarrow> string \<Rightarrow> usize \<Rightarrow> duration \<Rightarrow>
     (core_error + outbox_delivery list) \<times> memory_outbox" where
  "memory_outbox_acquire s now tokens worker limit lease =
     (if trim_is_empty worker \<or> 128 < length worker \<or> limit = 0 \<or> 4096 < limit \<or> lease = 0
      then (Inl (InvalidConfig ''invalid outbox lease''), s)
      else if mo_poisoned s then (Inl poisoned_outbox, s)
      else
        let (deliveries, active) =
              outbox_lease_all worker (now + lease) (outbox_due_ids s now limit) tokens (mo_active s)
        in (Inr deliveries, s\<lparr>mo_active := active\<rparr>))"

definition memory_outbox_ack ::
    "memory_outbox \<Rightarrow> instant \<Rightarrow> outbox_delivery \<Rightarrow> (core_error + unit) \<times> memory_outbox" where
  "memory_outbox_ack s now d =
     (if mo_poisoned s then (Inl poisoned_outbox, s)
      else case outbox_leased s now d of
        Inl e \<Rightarrow> (Inl e, s)
      | Inr entry \<Rightarrow>
          (Inr (), s\<lparr>mo_active := map_remove (ev_id (od_event d)) (mo_active s),
             mo_completed := hm_insert (ev_id (oe_event entry)) (oe_event entry) (mo_completed s)\<rparr>))"

definition memory_outbox_renew ::
    "memory_outbox \<Rightarrow> instant \<Rightarrow> instant \<Rightarrow> outbox_delivery \<Rightarrow> duration \<Rightarrow> (core_error + unit) \<times> memory_outbox" where
  "memory_outbox_renew s now now' d lease =
     (if lease = 0 then (Inl (InvalidConfig ''invalid outbox lease''), s)
      else if mo_poisoned s then (Inl poisoned_outbox, s)
      else case outbox_leased s now d of
        Inl e \<Rightarrow> (Inl e, s)
      | Inr _ \<Rightarrow>
          (Inr (), s\<lparr>mo_active := map_adjust (ev_id (od_event d))
             (\<lambda>v. v\<lparr>oe_lease_until := Some (now' + lease)\<rparr>) (mo_active s)\<rparr>))"

definition memory_outbox_retry ::
    "memory_outbox \<Rightarrow> instant \<Rightarrow> instant \<Rightarrow> outbox_delivery \<Rightarrow> instant \<Rightarrow> string \<Rightarrow>
     (core_error + unit) \<times> memory_outbox" where
  "memory_outbox_retry s now now' d available_at reason =
     (case validate_failure_reason reason of
        Inl e \<Rightarrow> (Inl e, s)
      | Inr _ \<Rightarrow>
          if mo_poisoned s then (Inl poisoned_outbox, s)
          else case outbox_leased s now d of
            Inl e \<Rightarrow> (Inl e, s)
          | Inr _ \<Rightarrow>
              (Inr (), s\<lparr>mo_active := map_adjust (ev_id (od_event d))
                 (\<lambda>v. v\<lparr>oe_event := (oe_event v)\<lparr>ev_available_at := max available_at now'\<rparr>,
                    oe_last_error := reason, oe_worker := None, oe_token := None,
                    oe_lease_until := None\<rparr>) (mo_active s)\<rparr>))"

definition memory_outbox_dead_letter ::
    "memory_outbox \<Rightarrow> instant \<Rightarrow> instant \<Rightarrow> outbox_delivery \<Rightarrow> string \<Rightarrow> (core_error + unit) \<times> memory_outbox" where
  "memory_outbox_dead_letter s now now' d reason =
     (case validate_failure_reason reason of
        Inl e \<Rightarrow> (Inl e, s)
      | Inr _ \<Rightarrow>
          if mo_poisoned s then (Inl poisoned_outbox, s)
          else case outbox_leased s now d of
            Inl e \<Rightarrow> (Inl e, s)
          | Inr entry \<Rightarrow>
              (Inr (), s\<lparr>mo_active := map_remove (ev_id (od_event d)) (mo_active s),
                 mo_dead := hm_insert (ev_id (oe_event entry))
                   \<lparr>dl_event = oe_event entry, dl_attempt = oe_attempt entry, dl_reason = reason,
                    dl_failed_at = now'\<rparr> (mo_dead s)\<rparr>))"

definition memory_outbox_list_dead_letters ::
    "memory_outbox \<Rightarrow> usize \<Rightarrow> core_error + dead_letter list" where
  "memory_outbox_list_dead_letters s limit =
     (if limit = 0 then Inl (InvalidConfig ''dead-letter limit is zero'')
      else if mo_poisoned s then Inl poisoned_outbox
      else Inr (take limit (rev (sort_key dl_failed_at (rev (map snd (mo_dead s)))))))"

definition memory_outbox_replay_dead_letter ::
    "memory_outbox \<Rightarrow> instant \<Rightarrow> uuid \<Rightarrow> instant \<Rightarrow> (core_error + unit) \<times> memory_outbox" where
  "memory_outbox_replay_dead_letter s now i available_at =
     (if mo_poisoned s then (Inl poisoned_outbox, s)
      else case map_of (mo_dead s) i of
        None \<Rightarrow> (Inl OutboxNotFound, s)
      | Some letter \<Rightarrow>
          (Inr (), s\<lparr>mo_dead := map_remove i (mo_dead s),
             mo_active := hm_insert i
               (outbox_fresh_entry ((dl_event letter)\<lparr>ev_available_at := max available_at now\<rparr>))
               (mo_active s)\<rparr>))"

end
