(* ===== verification/Outbox_Leases.thy ===== *)
theory Outbox_Leases
  imports Outbox
begin

section \<open>Leases and durability of the outbox\<close>

text \<open>
  Any number of workers and producers share the store: a run is any sequence of its methods,
  each with arguments of the caller's choosing. Two ghost lists record what the store has told
  its callers: the deliveries it has handed out and the events it has accepted. Tokens are
  fresh in every run, as version 4 identifiers are meant to be.

  The invariant ties the stored leases to the last delivery of each event and every accepted
  event to exactly one of the three maps.
\<close>

subsection \<open>Runs\<close>

record outbox_world =
  ow_store :: memory_outbox
  ow_issued :: "outbox_delivery list"
  ow_appended :: "outbox_event list"

abbreviation delivery_id :: "outbox_delivery \<Rightarrow> uuid" where
  "delivery_id d \<equiv> ev_id (od_event d)"

inductive outbox_step :: "outbox_world \<Rightarrow> outbox_world \<Rightarrow> bool" where
  outbox_append: "memory_outbox_append (ow_store w) e = (r, s) \<Longrightarrow>
     outbox_step w (w\<lparr>ow_store := s,
       ow_appended := (if r = Inr () then ow_appended w @ [e] else ow_appended w)\<rparr>)"
| outbox_acquire: "\<lbrakk>distinct tokens; set tokens \<inter> od_token ` set (ow_issued w) = {};
     length (mo_active (ow_store w)) \<le> length tokens;
     memory_outbox_acquire (ow_store w) now tokens worker limit lease = (r, s)\<rbrakk> \<Longrightarrow>
     outbox_step w (w\<lparr>ow_store := s,
       ow_issued := ow_issued w @ (case r of Inl _ \<Rightarrow> [] | Inr ds \<Rightarrow> ds)\<rparr>)"
| outbox_ack: "memory_outbox_ack (ow_store w) now d = (r, s) \<Longrightarrow>
     outbox_step w (w\<lparr>ow_store := s\<rparr>)"
| outbox_renew: "memory_outbox_renew (ow_store w) now now' d lease = (r, s) \<Longrightarrow>
     outbox_step w (w\<lparr>ow_store := s\<rparr>)"
| outbox_retry: "memory_outbox_retry (ow_store w) now now' d available_at reason = (r, s) \<Longrightarrow>
     outbox_step w (w\<lparr>ow_store := s\<rparr>)"
| outbox_dead_letter: "memory_outbox_dead_letter (ow_store w) now now' d reason = (r, s) \<Longrightarrow>
     outbox_step w (w\<lparr>ow_store := s\<rparr>)"
| outbox_replay: "memory_outbox_replay_dead_letter (ow_store w) now i available_at = (r, s) \<Longrightarrow>
     outbox_step w (w\<lparr>ow_store := s\<rparr>)"

definition outbox_start :: outbox_world where
  "outbox_start = \<lparr>ow_store = memory_outbox_new, ow_issued = [], ow_appended = []\<rparr>"

abbreviation outbox_reachable :: "outbox_world \<Rightarrow> bool" where
  "outbox_reachable w \<equiv> outbox_step\<^sup>*\<^sup>* outbox_start w"

subsection \<open>The invariant\<close>

definition outbox_wf :: "memory_outbox \<Rightarrow> bool" where
  "outbox_wf s \<longleftrightarrow>
     hm_wf (mo_active s) \<and> hm_wf (mo_dead s) \<and> hm_wf (mo_completed s) \<and>
     (\<forall>i entry. map_of (mo_active s) i = Some entry \<longrightarrow> ev_id (oe_event entry) = i \<and>
        map_of (mo_dead s) i = None \<and> map_of (mo_completed s) i = None) \<and>
     (\<forall>i letter. map_of (mo_dead s) i = Some letter \<longrightarrow> ev_id (dl_event letter) = i \<and>
        map_of (mo_completed s) i = None) \<and>
     (\<forall>i event. map_of (mo_completed s) i = Some event \<longrightarrow> ev_id event = i)"

definition issued_for :: "outbox_delivery list \<Rightarrow> uuid \<Rightarrow> outbox_delivery list" where
  "issued_for ds i = filter (\<lambda>d. delivery_id d = i) ds"

definition lease_matches :: "outbox_delivery list \<Rightarrow> uuid \<Rightarrow> outbox_entry \<Rightarrow> bool" where
  "lease_matches ds i entry \<longleftrightarrow>
     (case oe_token entry of
        None \<Rightarrow> True
      | Some t \<Rightarrow> issued_for ds i \<noteq> [] \<and> od_token (last (issued_for ds i)) = t)"

definition outbox_inv :: "outbox_world \<Rightarrow> bool" where
  "outbox_inv w \<longleftrightarrow>
     outbox_wf (ow_store w) \<and>
     distinct (map od_token (ow_issued w)) \<and>
     (\<forall>i entry. map_of (mo_active (ow_store w)) i = Some entry \<longrightarrow> lease_matches (ow_issued w) i entry) \<and>
     (\<forall>e \<in> set (ow_appended w). \<exists>x. outbox_existing (ow_store w) (ev_id e) = Some x \<and>
        outbox_event_same_identity x e)"

subsection \<open>Changes to the maps\<close>

lemma same_identity_refl [simp]: "outbox_event_same_identity e e"
  by (simp add: outbox_event_same_identity_def)

lemma same_identity_trans:
  "outbox_event_same_identity a b \<Longrightarrow> outbox_event_same_identity b c \<Longrightarrow> outbox_event_same_identity a c"
  by (simp add: outbox_event_same_identity_def)

lemma same_identity_available [simp]:
  "outbox_event_same_identity (a\<lparr>ev_available_at := t\<rparr>) b \<longleftrightarrow> outbox_event_same_identity a b"
  by (simp add: outbox_event_same_identity_def)

text \<open>A change keeps what callers rely on when no event is lost and no lease is made up.\<close>

definition outbox_keeps :: "memory_outbox \<Rightarrow> memory_outbox \<Rightarrow> bool" where
  "outbox_keeps s s' \<longleftrightarrow>
     (\<forall>i x. outbox_existing s i = Some x \<longrightarrow>
        (\<exists>y. outbox_existing s' i = Some y \<and> outbox_event_same_identity y x)) \<and>
     (\<forall>i entry. map_of (mo_active s') i = Some entry \<longrightarrow> oe_token entry \<noteq> None \<longrightarrow>
        (\<exists>entry'. map_of (mo_active s) i = Some entry' \<and> oe_token entry' = oe_token entry))"

lemma outbox_keeps_refl [simp]: "outbox_keeps s s"
  by (auto simp: outbox_keeps_def)

lemma outbox_inv_keeps:
  assumes "outbox_inv w" "outbox_wf s" "outbox_keeps (ow_store w) s"
  shows "outbox_inv (w\<lparr>ow_store := s\<rparr>)"
proof -
  have "lease_matches (ow_issued w) i entry" if "map_of (mo_active s) i = Some entry" for i entry
  proof (cases "oe_token entry")
    case (Some t)
    with that assms(3) obtain entry' where "map_of (mo_active (ow_store w)) i = Some entry'"
      "oe_token entry' = Some t" by (force simp: outbox_keeps_def)
    with assms(1) have "lease_matches (ow_issued w) i entry'" by (auto simp: outbox_inv_def)
    with Some \<open>oe_token entry' = Some t\<close> show ?thesis by (simp add: lease_matches_def)
  qed (simp add: lease_matches_def)
  moreover have "\<exists>x. outbox_existing s (ev_id e) = Some x \<and> outbox_event_same_identity x e"
    if e: "e \<in> set (ow_appended w)" for e
  proof -
    obtain x where x: "outbox_existing (ow_store w) (ev_id e) = Some x" "outbox_event_same_identity x e"
      using e assms(1) by (auto simp: outbox_inv_def)
    then obtain y where "outbox_existing s (ev_id e) = Some y" "outbox_event_same_identity y x"
      using assms(3) unfolding outbox_keeps_def by blast
    with x(2) show ?thesis by (blast intro: same_identity_trans)
  qed
  ultimately show ?thesis
    using assms(1,2) by (simp add: outbox_inv_def)
qed

lemma outbox_leased_entry:
  "outbox_leased s now d = Inr entry \<longleftrightarrow>
     map_of (mo_active s) (delivery_id d) = Some entry \<and> oe_worker entry = Some (od_worker d) \<and>
     oe_token entry = Some (od_token d) \<and> (\<exists>until. oe_lease_until entry = Some until \<and> now < until)"
  by (auto simp: outbox_leased_def split: option.splits if_splits)

lemma outbox_adjust_keeps:
  fixes i :: uuid
  assumes wf: "outbox_wf s" and f: "\<And>v. outbox_event_same_identity (oe_event (f v)) (oe_event v)"
    "\<And>v t. oe_token (f v) = Some t \<Longrightarrow> oe_token v = Some t"
  defines "s' \<equiv> s\<lparr>mo_active := map_adjust i f (mo_active s)\<rparr>"
  shows "outbox_wf s' \<and> outbox_keeps s s'"
proof
  have ids: "ev_id (oe_event (f v)) = ev_id (oe_event v)" for v
    using f(1) by (simp add: outbox_event_same_identity_def)
  show "outbox_wf s'"
    using wf ids by (auto simp: s'_def outbox_wf_def hm_wf_def map_of_adjust)
  show "outbox_keeps s s'"
    unfolding outbox_keeps_def
  proof (intro conjI allI impI)
    fix j x
    assume x: "outbox_existing s j = Some x"
    show "\<exists>y. outbox_existing s' j = Some y \<and> outbox_event_same_identity y x"
    proof (cases "map_of (mo_active s) j")
      case None
      then have "outbox_existing s' j = outbox_existing s j"
        by (auto simp: s'_def outbox_existing_def map_of_adjust cong: option.case_cong)
      with x show ?thesis by simp
    next
      case (Some v)
      then show ?thesis
        using x f(1) [of v]
        by (cases "j = i") (simp_all add: s'_def outbox_existing_def map_of_adjust)
    qed
  next
    fix j entry
    assume entry: "map_of (mo_active s') j = Some entry" "oe_token entry \<noteq> None"
    show "\<exists>entry'. map_of (mo_active s) j = Some entry' \<and> oe_token entry' = oe_token entry"
    proof (cases "j = i")
      case True
      then obtain v t where "map_of (mo_active s) i = Some v" "entry = f v" "oe_token (f v) = Some t"
        using entry by (auto simp: s'_def map_of_adjust)
      with True f(2) [of v t] show ?thesis by simp
    next
      case False
      with entry show ?thesis by (simp add: s'_def map_of_adjust)
    qed
  qed
qed

text \<open>Settling an event moves it from the active map to one of the other two.\<close>

lemma outbox_keepsI:
  assumes "\<And>i. outbox_existing s' i = outbox_existing s i"
    and "\<And>i entry. map_of (mo_active s') i = Some entry \<Longrightarrow> map_of (mo_active s) i = Some entry"
  shows "outbox_keeps s s'"
  using assms by (auto simp: outbox_keeps_def)

lemma outbox_settle_keeps:
  assumes wf: "outbox_wf s" and entry: "map_of (mo_active s) i = Some entry"
    and settled: "s' = s\<lparr>mo_active := map_remove i (mo_active s),
        mo_completed := hm_insert (ev_id (oe_event entry)) (oe_event entry) (mo_completed s)\<rparr> \<or>
      dl_event letter = oe_event entry \<and> s' = s\<lparr>mo_active := map_remove i (mo_active s),
        mo_dead := hm_insert (ev_id (oe_event entry)) letter (mo_dead s)\<rparr>"
  shows "outbox_wf s' \<and> outbox_keeps s s'"
proof
  have ids: "ev_id (oe_event entry) = i" "map_of (mo_dead s) i = None" "map_of (mo_completed s) i = None"
    using wf entry by (auto simp: outbox_wf_def)
  have maps: "hm_wf (mo_active s)" "hm_wf (mo_dead s)" "hm_wf (mo_completed s)"
    using wf by (auto simp: outbox_wf_def)
  show "outbox_wf s'"
    using settled ids maps wf
    by (elim disjE conjE) (simp_all add: outbox_wf_def hm.map_laws, auto)
  show "outbox_keeps s s'"
  proof (rule outbox_keepsI)
    show "outbox_existing s' j = outbox_existing s j" for j
      using settled ids maps entry
      by (cases "j = i") (auto simp: outbox_existing_def hm.map_laws cong: option.case_cong)
    show "map_of (mo_active s) j = Some e" if "map_of (mo_active s') j = Some e" for j e
      using that settled maps by (cases "j = i") (auto simp: hm.map_laws)
  qed
qed

lemma outbox_insert_keeps:
  assumes wf: "outbox_wf s" and new: "map_of (mo_active s) (ev_id e) = None"
    "map_of (mo_completed s) (ev_id e) = None"
    and dead: "dead = map_remove (ev_id e) (mo_dead s)"
    and same: "\<And>x. outbox_existing s (ev_id e) = Some x \<Longrightarrow> outbox_event_same_identity e x"
  defines "s' \<equiv> s\<lparr>mo_dead := dead, mo_active := hm_insert (ev_id e) (outbox_fresh_entry e) (mo_active s)\<rparr>"
  shows "outbox_wf s' \<and> outbox_keeps s s'"
proof
  have maps: "hm_wf (mo_active s)" "hm_wf (mo_dead s)" "hm_wf (mo_completed s)"
    using wf by (auto simp: outbox_wf_def)
  show "outbox_wf s'"
    using wf new maps
    by (simp add: s'_def dead outbox_wf_def hm.map_laws) (auto simp: outbox_fresh_entry_def)
  have "outbox_existing s' i = (if i = ev_id e then Some e else outbox_existing s i)" for i
    using maps by (simp add: s'_def dead outbox_existing_def hm.map_laws outbox_fresh_entry_def
        cong: option.case_cong)
  moreover have "oe_token entry = None \<or> map_of (mo_active s) i = Some entry"
    if "map_of (mo_active s') i = Some entry" for i entry
    using that maps by (auto simp: s'_def hm.map_laws outbox_fresh_entry_def split: if_splits)
  ultimately show "outbox_keeps s s'"
    using same unfolding outbox_keeps_def by (metis option.discI same_identity_refl)
qed

subsection \<open>Acquiring leases\<close>

lemma lease_all_other:
  "i \<notin> set ids \<Longrightarrow> map_of (snd (outbox_lease_all worker until ids tokens active)) i = map_of active i"
proof (induction worker until ids tokens active rule: outbox_lease_all.induct)
  case (2 worker until j ids tokens active)
  then show ?case by (auto simp: Let_def split_beta map_of_adjust split: option.splits)
qed simp

lemma lease_all_deliveries:
  assumes "distinct ids" "\<forall>i \<in> set ids. map_of active i \<noteq> None" "length ids \<le> length tokens"
    and "\<forall>i \<in> set ids. \<forall>entry. map_of active i = Some entry \<longrightarrow> ev_id (oe_event entry) = i"
    and "outbox_lease_all worker until ids tokens active = (ds, active')"
  shows "map delivery_id ds = ids \<and> map od_token ds = take (length ids) tokens \<and>
    map fst active' = map fst active \<and>
    (\<forall>d \<in> set ds. \<exists>entry entry'. map_of active (delivery_id d) = Some entry \<and>
       map_of active' (delivery_id d) = Some entry' \<and> oe_event entry' = oe_event entry \<and>
       od_event d = oe_event entry \<and> oe_token entry' = Some (od_token d) \<and>
       oe_worker entry' = Some (od_worker d))"
  using assms
proof (induction ids arbitrary: tokens active ds)
  case (Cons i ids)
  obtain entry where entry: "map_of active i = Some entry" "ev_id (oe_event entry) = i"
    using Cons.prems(2,4) by fastforce
  obtain t ts where tokens: "tokens = t # ts" using Cons.prems(3) by (cases tokens) auto
  define d where "d = \<lparr>od_event = oe_event entry, od_attempt = sat_add (oe_attempt entry) 1,
      od_worker = worker, od_token = t, od_lease_until = until\<rparr>"
  define f :: "outbox_entry \<Rightarrow> outbox_entry" where
    "f = (\<lambda>v. v\<lparr>oe_attempt := sat_add (oe_attempt entry) 1, oe_worker := Some worker,
      oe_token := Some t, oe_lease_until := Some until\<rparr>)"
  define mid where "mid = map_adjust i f active"
  obtain ds' rest' where rest': "outbox_lease_all worker until ids ts mid = (ds', rest')" by fastforce
  then have rest: "outbox_lease_all worker until ids ts mid = (ds', active')" and ds: "ds = d # ds'"
    using Cons.prems(5) entry(1) by (simp_all add: Let_def tokens d_def f_def mid_def)
  have i: "i \<notin> set ids" "delivery_id d = i" using Cons.prems(1) entry(2) by (simp_all add: d_def)
  have mid: "map_of mid j = map_of active j" if "j \<in> set ids" for j
    using i(1) that by (auto simp: mid_def map_of_adjust)
  have ih: "map delivery_id ds' = ids \<and> map od_token ds' = take (length ids) ts \<and>
      map fst active' = map fst mid \<and>
      (\<forall>d \<in> set ds'. \<exists>entry entry'. map_of mid (delivery_id d) = Some entry \<and>
         map_of active' (delivery_id d) = Some entry' \<and> oe_event entry' = oe_event entry \<and>
         od_event d = oe_event entry \<and> oe_token entry' = Some (od_token d) \<and>
         oe_worker entry' = Some (od_worker d))"
    using Cons.prems mid by (intro Cons.IH [OF _ _ _ _ rest]) (auto simp: tokens)
  then have ids': "delivery_id x \<in> set ids" if "x \<in> set ds'" for x
    using that by (metis imageI list.set_map)
  have "map_of active' i = Some (f entry)"
    using lease_all_other [OF i(1), of worker until ts mid] rest entry(1)
    by (simp add: mid_def map_of_adjust)
  then show ?case
    using ih mid ids' i entry unfolding ds
    by (auto simp: tokens d_def f_def mid_def)
qed simp

lemma outbox_due_ids_props:
  assumes "outbox_wf s"
  shows "distinct (outbox_due_ids s now limit) \<and>
    (\<forall>i \<in> set (outbox_due_ids s now limit). \<exists>entry. map_of (mo_active s) i = Some entry \<and>
       outbox_due now entry) \<and>
    length (outbox_due_ids s now limit) \<le> length (mo_active s)"
proof -
  let ?ids = "map fst (filter (\<lambda>p. outbox_due now (snd p)) (mo_active s))"
  have wf: "distinct (map fst (mo_active s))" using assms by (simp add: outbox_wf_def hm_wf_def)
  then have "distinct ?ids" by (rule distinct_keys_filter)
  moreover have "\<exists>entry. map_of (mo_active s) i = Some entry \<and> outbox_due now entry"
    if "i \<in> set ?ids" for i
    using that wf by force
  moreover have "length ?ids \<le> length (mo_active s)" by simp
  ultimately show ?thesis
    unfolding outbox_due_ids_def Let_def
    by (auto intro!: distinct_take dest!: in_set_takeD simp: min_le_iff_disj length_filter_le)
qed

lemma issued_for_single:
  assumes "distinct (map delivery_id ds)" "d \<in> set ds"
  shows "issued_for ds (delivery_id d) = [d]"
proof -
  obtain xs ys where ds: "ds = xs @ d # ys" using assms(2) by (meson split_list)
  have "delivery_id x \<noteq> delivery_id d" if "x \<in> set xs \<union> set ys" for x
    using assms(1) that by (auto simp: ds dest: rev_image_eqI [where f = delivery_id])
  then have "filter (\<lambda>x. delivery_id x = delivery_id d) xs = []"
    "filter (\<lambda>x. delivery_id x = delivery_id d) ys = []"
    by (auto simp: filter_empty_conv)
  then show ?thesis by (simp add: issued_for_def ds)
qed

lemma issued_for_append: "issued_for (xs @ ys) i = issued_for xs i @ issued_for ys i"
  by (simp add: issued_for_def)

lemma issued_for_none: "i \<notin> delivery_id ` set ds \<Longrightarrow> issued_for ds i = []"
  by (auto simp: issued_for_def filter_empty_conv)

lemma outbox_acquire_inv:
  assumes inv: "outbox_inv w" and fresh: "distinct tokens" "set tokens \<inter> od_token ` set (ow_issued w) = {}"
    "length (mo_active (ow_store w)) \<le> length tokens"
    and acquire: "memory_outbox_acquire (ow_store w) now tokens worker limit lease = (Inr ds, s)"
  shows "outbox_inv (w\<lparr>ow_store := s, ow_issued := ow_issued w @ ds\<rparr>)"
proof -
  let ?st = "ow_store w"
  define ids where "ids = outbox_due_ids ?st now limit"
  have wf: "outbox_wf ?st" using inv by (simp add: outbox_inv_def)
  note due = outbox_due_ids_props [OF wf, of now limit]
  obtain active where lease: "outbox_lease_all worker (now + lease) ids tokens (mo_active ?st) = (ds, active)"
    and s: "s = ?st\<lparr>mo_active := active\<rparr>"
    using acquire
    by (auto simp: memory_outbox_acquire_def ids_def Let_def split: if_splits prod.splits)
  have all: "map delivery_id ds = ids \<and> map od_token ds = take (length ids) tokens \<and>
      map fst active = map fst (mo_active ?st) \<and>
      (\<forall>d \<in> set ds. \<exists>entry entry'. map_of (mo_active ?st) (delivery_id d) = Some entry \<and>
         map_of active (delivery_id d) = Some entry' \<and> oe_event entry' = oe_event entry \<and>
         od_event d = oe_event entry \<and> oe_token entry' = Some (od_token d) \<and>
         oe_worker entry' = Some (od_worker d))"
    using due fresh(3) wf
    by (intro lease_all_deliveries [OF _ _ _ _ lease]) (fastforce simp: ids_def outbox_wf_def)+
  have other: "map_of active i = map_of (mo_active ?st) i" if "i \<notin> set ids" for i
    using lease_all_other [OF that, of worker "now + lease" tokens "mo_active ?st"] lease by simp
  have leased: "\<exists>d \<in> set ds. i = delivery_id d" if "i \<in> set ids" for i
    using all that by (metis (no_types, lifting) imageE list.set_map)
  have events: "map_option oe_event (map_of active i) = map_option oe_event (map_of (mo_active ?st) i)" for i
    using all other [of i] leased [of i] by (cases "i \<in> set ids") fastforce+
  have "outbox_wf s"
  proof -
    have "hm_wf active" using wf all by (simp add: outbox_wf_def hm_wf_def)
    moreover have "\<exists>e. map_of (mo_active ?st) i = Some e \<and> oe_event e = oe_event entry"
      if "map_of active i = Some entry" for i entry
      using events [of i] that by (metis map_option_eq_Some option.simps(9))
    ultimately show ?thesis
      using wf unfolding outbox_wf_def s by fastforce
  qed
  moreover have "outbox_existing s i = outbox_existing ?st i" for i
    using events [of i]
    by (cases "map_of active i"; cases "map_of (mo_active ?st) i")
      (simp_all add: outbox_existing_def s cong: option.case_cong)
  moreover have "distinct (map od_token (ow_issued w @ ds))"
  proof -
    have "set (map od_token ds) \<subseteq> set tokens" "distinct (map od_token ds)"
      using all fresh(1) set_take_subset [of "length ids" tokens] by (simp_all only: distinct_take)
    moreover have "distinct (map od_token (ow_issued w))" using inv by (simp add: outbox_inv_def)
    ultimately show ?thesis using fresh(2) by auto
  qed
  moreover have "lease_matches (ow_issued w @ ds) i entry" if entry: "map_of active i = Some entry" for i entry
  proof (cases "i \<in> set ids")
    case True
    then obtain d where d: "d \<in> set ds" "i = delivery_id d" using leased by blast
    with entry all have "oe_token entry = Some (od_token d)" by fastforce
    moreover have "issued_for (ow_issued w @ ds) i = issued_for (ow_issued w) i @ [d]"
      using issued_for_single [OF _ d(1)] all due d(2) by (simp add: issued_for_append ids_def)
    ultimately show ?thesis by (simp add: lease_matches_def)
  next
    case False
    then have "i \<notin> delivery_id ` set ds" using all by (metis list.set_map)
    then have "issued_for ds i = []" by (rule issued_for_none)
    with False entry inv other show ?thesis
      by (simp add: lease_matches_def issued_for_append outbox_inv_def split: option.splits)
  qed
  ultimately show ?thesis
    using inv by (simp add: outbox_inv_def s)
qed

lemma outbox_append_inv:
  assumes inv: "outbox_inv w" and append: "memory_outbox_append (ow_store w) e = (r, s)"
  shows "outbox_inv (w\<lparr>ow_store := s,
    ow_appended := (if r = Inr () then ow_appended w @ [e] else ow_appended w)\<rparr>)"
proof -
  let ?st = "ow_store w"
  have wf: "outbox_wf ?st" using inv by (simp add: outbox_inv_def)
  show ?thesis
  proof (cases "outbox_event_validate e = Inr () \<and> \<not> mo_poisoned ?st")
    case False
    then have "r \<noteq> Inr () \<and> s = ?st"
      using append by (cases "outbox_event_validate e") (auto simp: memory_outbox_append_def)
    with inv show ?thesis by simp
  next
    case valid: True
    show ?thesis
    proof (cases "outbox_existing ?st (ev_id e)")
      case (Some x)
      with valid append inv show ?thesis
        by (auto simp: memory_outbox_append_def outbox_inv_def split: if_splits)
    next
      case None
      with valid append have r: "r = Inr ()"
        and s: "s = ?st\<lparr>mo_active := hm_insert (ev_id e) (outbox_fresh_entry e) (mo_active ?st)\<rparr>"
        by (simp_all add: memory_outbox_append_def)
      have none: "map_of (mo_active ?st) (ev_id e) = None" "map_of (mo_completed ?st) (ev_id e) = None"
        "map_of (mo_dead ?st) (ev_id e) = None"
        using None by (simp_all add: outbox_existing_def split: option.splits)
      then have dead: "mo_dead ?st = map_remove (ev_id e) (mo_dead ?st)"
        by (simp add: map_remove_absent)
      from outbox_insert_keeps [OF wf none(1,2) dead] None s have keeps: "outbox_wf s" "outbox_keeps ?st s"
        by simp_all
      from outbox_inv_keeps [OF inv keeps] have "outbox_inv (w\<lparr>ow_store := s\<rparr>)" .
      moreover have "outbox_existing s (ev_id e) = Some e"
        using wf by (simp add: s outbox_existing_def outbox_wf_def hm.map_laws outbox_fresh_entry_def)
      ultimately show ?thesis using r by (auto simp: outbox_inv_def)
    qed
  qed
qed

lemma outbox_replay_keeps:
  assumes wf: "outbox_wf s" and "memory_outbox_replay_dead_letter s now i available_at = (r, s')"
  shows "outbox_wf s' \<and> outbox_keeps s s'"
proof (cases "s' = s")
  case False
  then obtain letter where letter: "map_of (mo_dead s) i = Some letter"
    and s': "s' = s\<lparr>mo_dead := map_remove i (mo_dead s), mo_active := hm_insert i
        (outbox_fresh_entry ((dl_event letter)\<lparr>ev_available_at := max available_at now\<rparr>)) (mo_active s)\<rparr>"
    using assms(2) by (auto simp: memory_outbox_replay_dead_letter_def split: if_splits option.splits)
  let ?e = "(dl_event letter)\<lparr>ev_available_at := max available_at now\<rparr>"
  have ids: "ev_id ?e = i" "map_of (mo_active s) i = None" "map_of (mo_completed s) i = None"
    using wf letter by (cases "map_of (mo_active s) i"; auto simp: outbox_wf_def)+
  moreover have "outbox_event_same_identity ?e x" if "outbox_existing s (ev_id ?e) = Some x" for x
    using that ids letter by (simp add: outbox_existing_def)
  ultimately show ?thesis
    using outbox_insert_keeps [OF wf, of ?e "map_remove i (mo_dead s)"] s' by simp
qed (use wf in simp)

lemma outbox_settle_steps:
  assumes wf: "outbox_wf s"
  shows "memory_outbox_ack s now d = (r, s') \<Longrightarrow> outbox_wf s' \<and> outbox_keeps s s'"
    and "memory_outbox_dead_letter s now now' d reason = (r, s') \<Longrightarrow> outbox_wf s' \<and> outbox_keeps s s'"
    and "memory_outbox_renew s now now' d lease = (r, s') \<Longrightarrow> outbox_wf s' \<and> outbox_keeps s s'"
    and "memory_outbox_retry s now now' d available_at reason = (r, s') \<Longrightarrow> outbox_wf s' \<and> outbox_keeps s s'"
proof -
  show "outbox_wf s' \<and> outbox_keeps s s'" if "memory_outbox_ack s now d = (r, s')"
    using that wf outbox_settle_keeps [OF wf, of "delivery_id d" _ s']
    by (auto simp: memory_outbox_ack_def outbox_leased_entry split: if_splits sum.splits)
  show "outbox_wf s' \<and> outbox_keeps s s'" if "memory_outbox_dead_letter s now now' d reason = (r, s')"
    using that wf
    by (auto simp: memory_outbox_dead_letter_def outbox_leased_entry split: if_splits sum.splits
        intro!: outbox_settle_keeps [OF wf, THEN conjunct1] outbox_settle_keeps [OF wf, THEN conjunct2])
  show "outbox_wf s' \<and> outbox_keeps s s'" if "memory_outbox_renew s now now' d lease = (r, s')"
    using that wf
    by (auto simp: memory_outbox_renew_def split: if_splits sum.splits
        intro!: outbox_adjust_keeps [OF wf, THEN conjunct1] outbox_adjust_keeps [OF wf, THEN conjunct2])
  show "outbox_wf s' \<and> outbox_keeps s s'" if "memory_outbox_retry s now now' d available_at reason = (r, s')"
    using that wf
    by (auto simp: memory_outbox_retry_def split: if_splits sum.splits
        intro!: outbox_adjust_keeps [OF wf, THEN conjunct1] outbox_adjust_keeps [OF wf, THEN conjunct2])
qed

lemma outbox_step_inv: "outbox_step w w' \<Longrightarrow> outbox_inv w \<Longrightarrow> outbox_inv w'"
proof (induction rule: outbox_step.induct)
  case (outbox_append w e r s)
  then show ?case by (intro outbox_append_inv)
next
  case (outbox_acquire tokens w now worker limit lease r s)
  show ?case
  proof (cases r)
    case (Inl e)
    then have "s = ow_store w" using outbox_acquire(4)
      by (auto simp: memory_outbox_acquire_def Let_def split: if_splits prod.splits)
    with Inl outbox_acquire(5) show ?thesis by simp
  next
    case (Inr ds)
    with outbox_acquire outbox_acquire_inv show ?thesis by simp
  qed
qed (blast intro: outbox_inv_keeps dest: outbox_settle_steps outbox_replay_keeps
    outbox_inv_def [THEN iffD1])+

lemma outbox_reachable_step: "outbox_reachable w \<Longrightarrow> outbox_step w w' \<Longrightarrow> outbox_reachable w'"
  by (rule rtranclp.rtrancl_into_rtrancl)

lemma outbox_reachable_inv: "outbox_reachable w \<Longrightarrow> outbox_inv w"
proof (induction rule: rtranclp_induct)
  case base
  show ?case
    by (simp add: outbox_inv_def outbox_start_def memory_outbox_new_def outbox_wf_def hm.map_laws)
qed (rule outbox_step_inv)

lemma outbox_leased_latest:
  assumes inv: "outbox_inv w" and d: "d \<in> set (ow_issued w)"
    and leased: "outbox_leased (ow_store w) now d = Inr entry"
  shows "d = last (issued_for (ow_issued w) (delivery_id d))"
proof -
  let ?last = "last (issued_for (ow_issued w) (delivery_id d))"
  have "lease_matches (ow_issued w) (delivery_id d) entry"
    using inv leased by (auto simp: outbox_inv_def outbox_leased_entry)
  then have "issued_for (ow_issued w) (delivery_id d) \<noteq> []" "od_token ?last = od_token d"
    using leased by (auto simp: outbox_leased_entry lease_matches_def)
  moreover from this have "?last \<in> set (ow_issued w)"
    using last_in_set [of "issued_for (ow_issued w) (delivery_id d)"] by (auto simp: issued_for_def)
  moreover have "inj_on od_token (set (ow_issued w))"
    using inv by (simp add: outbox_inv_def distinct_map)
  ultimately show ?thesis using d by (metis inj_onD)
qed

subsection \<open>Properties\<close>

text \<open>C19. Stale leases are fenced off: in every reachable state, whoever calls with a delivery that
  the store once handed out can acknowledge, renew, retry or dead-letter the event only if it
  is the last delivery of this event that was handed out, to anyone. A worker that lost its
  lease to another one cannot settle the event any more.\<close>

theorem outbox_fencing:
  assumes "outbox_reachable w" and "d \<in> set (ow_issued w)"
    and "fst (memory_outbox_ack (ow_store w) now d) = Inr () \<or>
      fst (memory_outbox_renew (ow_store w) now now' d lease) = Inr () \<or>
      fst (memory_outbox_retry (ow_store w) now now' d available_at reason) = Inr () \<or>
      fst (memory_outbox_dead_letter (ow_store w) now now' d reason) = Inr ()"
  shows "d = last (issued_for (ow_issued w) (delivery_id d))"
proof -
  have "\<exists>entry. outbox_leased (ow_store w) now d = Inr entry"
    using assms(3)
    by (auto simp: memory_outbox_ack_def memory_outbox_renew_def memory_outbox_retry_def
        memory_outbox_dead_letter_def split: if_splits sum.splits)
  then show ?thesis
    using outbox_leased_latest [OF outbox_reachable_inv [OF assms(1)] assms(2)] by blast
qed

text \<open>C20. No accepted event is lost and none is stored twice: in every reachable state each event
  whose \<open>append\<close> succeeded is in exactly one of the active, the dead-lettered and the
  completed events, with the topic, key, trace, payload and headers it was appended with.\<close>

theorem outbox_no_loss:
  assumes "outbox_reachable w" and "e \<in> set (ow_appended w)"
  shows "(\<exists>x. outbox_existing (ow_store w) (ev_id e) = Some x \<and> outbox_event_same_identity x e) \<and>
    length (filter id [contains_key (mo_active (ow_store w)) (ev_id e),
      contains_key (mo_dead (ow_store w)) (ev_id e),
      contains_key (mo_completed (ow_store w)) (ev_id e)]) = 1"
proof -
  note inv = outbox_reachable_inv [OF assms(1)]
  then have wf: "outbox_wf (ow_store w)" by (simp add: outbox_inv_def)
  obtain x where x: "outbox_existing (ow_store w) (ev_id e) = Some x" "outbox_event_same_identity x e"
    using inv assms(2) by (auto simp: outbox_inv_def)
  moreover from x(1) wf have "length (filter id [contains_key (mo_active (ow_store w)) (ev_id e),
      contains_key (mo_dead (ow_store w)) (ev_id e),
      contains_key (mo_completed (ow_store w)) (ev_id e)]) = 1"
    by (auto simp: outbox_existing_def outbox_wf_def contains_key_def split: option.splits)
  ultimately show ?thesis by blast
qed

subsection \<open>A worker that is too slow\<close>

text \<open>Worker one takes the event at time 0 for 5 ns, worker two takes it over at time 10.\<close>

definition outbox_demo_event :: outbox_event where
  "outbox_demo_event = \<lparr>ev_id = 1, ev_topic = ''mail'', ev_key = [], ev_trace_id = [],
     ev_payload = [7], ev_headers = [], ev_created_at = 0, ev_available_at = 0\<rparr>"

definition outbox_demo_entry :: "u32 \<Rightarrow> string \<Rightarrow> uuid \<Rightarrow> instant \<Rightarrow> outbox_entry" where
  "outbox_demo_entry n worker token until = \<lparr>oe_event = outbox_demo_event, oe_attempt = n,
     oe_worker = Some worker, oe_token = Some token, oe_lease_until = Some until, oe_last_error = []\<rparr>"

definition outbox_demo_delivery :: "u32 \<Rightarrow> string \<Rightarrow> uuid \<Rightarrow> instant \<Rightarrow> outbox_delivery" where
  "outbox_demo_delivery n worker token until = \<lparr>od_event = outbox_demo_event, od_attempt = n,
     od_worker = worker, od_token = token, od_lease_until = until\<rparr>"

definition outbox_demo :: outbox_world where
  "outbox_demo = \<lparr>ow_store = memory_outbox_new\<lparr>mo_active := [(1, outbox_demo_entry 2 ''two'' 12 15)]\<rparr>,
     ow_issued = [outbox_demo_delivery 1 ''one'' 11 5, outbox_demo_delivery 2 ''two'' 12 15],
     ow_appended = [outbox_demo_event]\<rparr>"

lemma outbox_demo_append:
  "memory_outbox_append memory_outbox_new outbox_demo_event =
     (Inr (), memory_outbox_new\<lparr>mo_active := [(1, outbox_fresh_entry outbox_demo_event)]\<rparr>)"
  by (simp add: memory_outbox_append_def outbox_event_validate_def outbox_demo_event_def
      outbox_existing_def memory_outbox_new_def hm_insert_def map_remove_def ascii_space_def byte_in_def)

lemmas outbox_demo_defs = memory_outbox_acquire_def outbox_due_ids_def outbox_due_def Let_def
  memory_outbox_new_def map_adjust_def outbox_demo_event_def outbox_fresh_entry_def
  outbox_demo_entry_def outbox_demo_delivery_def sat_add_def ascii_space_def byte_in_def word_le_nat_alt

lemma outbox_demo_acquire:
  "memory_outbox_acquire (memory_outbox_new\<lparr>mo_active := [(1, outbox_fresh_entry outbox_demo_event)]\<rparr>)
       0 [11] ''one'' 1 5 =
     (Inr [outbox_demo_delivery 1 ''one'' 11 5],
      memory_outbox_new\<lparr>mo_active := [(1, outbox_demo_entry 1 ''one'' 11 5)]\<rparr>)"
  "memory_outbox_acquire (memory_outbox_new\<lparr>mo_active := [(1, outbox_demo_entry 1 ''one'' 11 5)]\<rparr>)
       10 [12] ''two'' 1 5 =
     (Inr [outbox_demo_delivery 2 ''two'' 12 15],
      memory_outbox_new\<lparr>mo_active := [(1, outbox_demo_entry 2 ''two'' 12 15)]\<rparr>)"
  by (simp_all add: outbox_demo_defs)

lemma outbox_demo_reachable: "outbox_reachable outbox_demo"
proof -
  let ?w1 = "outbox_start\<lparr>ow_store := memory_outbox_new\<lparr>mo_active := [(1, outbox_fresh_entry outbox_demo_event)]\<rparr>,
      ow_appended := [outbox_demo_event]\<rparr>"
  let ?w2 = "?w1\<lparr>ow_store := memory_outbox_new\<lparr>mo_active := [(1, outbox_demo_entry 1 ''one'' 11 5)]\<rparr>,
      ow_issued := [outbox_demo_delivery 1 ''one'' 11 5]\<rparr>"
  have one: "outbox_step outbox_start ?w1"
    using outbox_append [of outbox_start outbox_demo_event] outbox_demo_append
    by (simp add: outbox_start_def)
  have two: "outbox_step ?w1 ?w2"
    using outbox_acquire [of "[11]" ?w1 0 "''one''" 1 5] outbox_demo_acquire(1)
    by (simp add: outbox_start_def)
  have "outbox_step ?w2 outbox_demo"
    using outbox_acquire [of "[12]" ?w2 10 "''two''" 1 5] outbox_demo_acquire(2)
    by (simp add: outbox_start_def outbox_demo_def outbox_demo_delivery_def)
  with one two show ?thesis
    by (blast intro: outbox_reachable_step rtranclp.rtrancl_refl)
qed

theorem outbox_fencing_witness:
  "fst (memory_outbox_ack (ow_store outbox_demo) 12 (outbox_demo_delivery 2 ''two'' 12 15)) = Inr () \<and>
   fst (memory_outbox_ack (ow_store outbox_demo) 2 (outbox_demo_delivery 1 ''one'' 11 5)) \<noteq> Inr ()"
proof
  show "fst (memory_outbox_ack (ow_store outbox_demo) 12 (outbox_demo_delivery 2 ''two'' 12 15)) = Inr ()"
    by (simp add: memory_outbox_ack_def outbox_leased_def outbox_demo_def outbox_demo_defs)
  have "outbox_demo_delivery 1 ''one'' 11 5 \<in> set (ow_issued outbox_demo)"
    "outbox_demo_delivery 1 ''one'' 11 5 \<noteq> last (issued_for (ow_issued outbox_demo) 1)"
    "delivery_id (outbox_demo_delivery 1 ''one'' 11 5) = 1"
    by (simp_all add: outbox_demo_def issued_for_def outbox_demo_delivery_def outbox_demo_event_def)
  then show "fst (memory_outbox_ack (ow_store outbox_demo) 2 (outbox_demo_delivery 1 ''one'' 11 5)) \<noteq> Inr ()"
    using outbox_fencing [OF outbox_demo_reachable] by metis
qed

theorem outbox_no_loss_witness:
  "\<exists>x. outbox_existing (ow_store outbox_demo) 1 = Some x \<and> ev_payload x = [7]"
proof -
  have "outbox_demo_event \<in> set (ow_appended outbox_demo)" "ev_id outbox_demo_event = 1"
    "ev_payload outbox_demo_event = [7]"
    by (simp_all add: outbox_demo_def outbox_demo_event_def)
  with outbox_no_loss [OF outbox_demo_reachable] show ?thesis
    by (metis outbox_event_same_identity_def)
qed

end
