(* ===== verification/Dispatcher.thy ===== *)
theory Dispatcher
  imports Outbox_Leases
begin

section \<open>The outbox dispatcher\<close>

text \<open>
  Model of \<open>crates/elura-runtime/src/outbox.rs\<close>. The dispatcher works against any store and
  any idempotency store; their methods are the fields of \<open>outbox_ops\<close> and \<open>idempotency_ops\<close>,
  and what it relies on is the locale \<open>outbox_settlement\<close>, interpreted for the in-memory store.

  What a call may read from its environment (clock readings, fresh tokens) is an argument of
  its own type, \<open>'t\<close>. The handler is its result: \<open>None\<close> when the processing timeout struck.
  The lease renewals that fire while the handler runs are a list of their environments. The
  deliveries of one batch belong to different events; they are processed here one after the
  other, in the order of the list.
\<close>

subsection \<open>Data\<close>

record ('s, 't) outbox_ops =
  op_acquire :: "'s \<Rightarrow> 't \<Rightarrow> string \<Rightarrow> usize \<Rightarrow> duration \<Rightarrow> (core_error + outbox_delivery list) \<times> 's"
  op_renew :: "'s \<Rightarrow> 't \<Rightarrow> outbox_delivery \<Rightarrow> duration \<Rightarrow> (core_error + unit) \<times> 's"
  op_ack :: "'s \<Rightarrow> 't \<Rightarrow> outbox_delivery \<Rightarrow> (core_error + unit) \<times> 's"
  op_retry :: "'s \<Rightarrow> 't \<Rightarrow> outbox_delivery \<Rightarrow> instant \<Rightarrow> string \<Rightarrow> (core_error + unit) \<times> 's"
  op_dead_letter :: "'s \<Rightarrow> 't \<Rightarrow> outbox_delivery \<Rightarrow> string \<Rightarrow> (core_error + unit) \<times> 's"

record ('i, 't) idempotency_ops =
  op_seen :: "'i \<Rightarrow> 't \<Rightarrow> uuid \<Rightarrow> (core_error + bool) \<times> 'i"
  op_mark :: "'i \<Rightarrow> 't \<Rightarrow> uuid \<Rightarrow> instant \<Rightarrow> (core_error + unit) \<times> 'i"

record memory_idempotency_store =
  mis_seen :: "(uuid \<times> instant) list"
  mis_poisoned :: bool

record ('i, 't) dispatcher_config =
  dc_worker_id :: string
  dc_batch_size :: usize
  dc_lease :: duration
  dc_poll_interval :: duration
  dc_processing_timeout :: duration
  dc_max_attempts :: u32
  dc_initial_backoff :: duration
  dc_max_backoff :: duration
  dc_idempotency_ttl :: duration
  dc_idempotency :: "('i, 't) idempotency_ops option"

record dispatcher_stats =
  dst_claimed :: u64
  dst_completed :: u64
  dst_retried :: u64
  dst_dead_lettered :: u64
  dst_duplicates :: u64
  dst_failures :: u64

record ('s, 'i) dispatcher =
  dp_store :: 's
  dp_idempotency :: 'i
  dp_stats :: dispatcher_stats

text \<open>The environment of one delivery.\<close>

record 't delivery_env =
  de_seen :: 't
  de_renewals :: "'t list"
  de_handled :: "(core_error + unit) option"
  de_now :: instant
  de_mark :: 't
  de_settle :: 't

subsection \<open>The in-memory idempotency store\<close>

definition memory_idempotency_seen ::
    "memory_idempotency_store \<Rightarrow> instant \<Rightarrow> uuid \<Rightarrow> (core_error + bool) \<times> memory_idempotency_store" where
  "memory_idempotency_seen m now i =
     (if mis_poisoned m then (Inl (Internal ''idempotency lock poisoned''), m)
      else
        let seen = map_retain (\<lambda>_ expires. now < expires) (mis_seen m)
        in (Inr (contains_key seen i), m\<lparr>mis_seen := seen\<rparr>))"

definition memory_idempotency_mark ::
    "memory_idempotency_store \<Rightarrow> instant \<Rightarrow> uuid \<Rightarrow> instant \<Rightarrow> (core_error + unit) \<times> memory_idempotency_store" where
  "memory_idempotency_mark m now i expires_at =
     (if mis_poisoned m then (Inl (Internal ''idempotency lock poisoned''), m)
      else (Inr (), m\<lparr>mis_seen := hm_insert i expires_at (mis_seen m)\<rparr>))"

subsection \<open>Configuration and statistics\<close>

definition dispatcher_config_default :: "('i, 't) dispatcher_config" where
  "dispatcher_config_default = \<lparr>dc_worker_id = ''outbox-worker'', dc_batch_size = 32,
     dc_lease = secs 30, dc_poll_interval = millis 500, dc_processing_timeout = secs 30,
     dc_max_attempts = 10, dc_initial_backoff = secs 1, dc_max_backoff = secs 60,
     dc_idempotency_ttl = secs 3600, dc_idempotency = None\<rparr>"

definition dispatcher_config_validate :: "('i, 't) dispatcher_config \<Rightarrow> core_error + unit" where
  "dispatcher_config_validate c =
     (if trim_is_empty (dc_worker_id c) \<or> 128 < length (dc_worker_id c)
         \<or> dc_batch_size c = 0 \<or> 4096 < dc_batch_size c \<or> dc_lease c = 0
         \<or> dc_poll_interval c = 0 \<or> dc_processing_timeout c = 0 \<or> dc_max_attempts c = 0
         \<or> dc_initial_backoff c = 0 \<or> dc_max_backoff c < dc_initial_backoff c
         \<or> dc_idempotency_ttl c = 0
      then Inl (InvalidConfig ''invalid outbox dispatcher'') else Inr ())"

definition dispatcher_stats_default :: dispatcher_stats where
  "dispatcher_stats_default = \<lparr>dst_claimed = 0, dst_completed = 0, dst_retried = 0,
     dst_dead_lettered = 0, dst_duplicates = 0, dst_failures = 0\<rparr>"

definition dispatcher_new ::
    "'s \<Rightarrow> 'i \<Rightarrow> ('i, 't) dispatcher_config \<Rightarrow> core_error + ('s, 'i) dispatcher" where
  "dispatcher_new store idem config =
     (case dispatcher_config_validate config of
        Inl e \<Rightarrow> Inl e
      | Inr _ \<Rightarrow> Inr \<lparr>dp_store = store, dp_idempotency = idem, dp_stats = dispatcher_stats_default\<rparr>)"

definition dispatcher_backoff :: "('i, 't) dispatcher_config \<Rightarrow> u32 \<Rightarrow> duration" where
  "dispatcher_backoff c attempt =
     (let shift = unat (sat_sub attempt 1);
          multiplier = (if shift < 32 then push_bit shift 1 else - 1 :: u32)
      in min (min (dc_initial_backoff c * unat multiplier) duration_max) (dc_max_backoff c))"

subsection \<open>Deliveries\<close>

text \<open>Until the handler starts: \<open>Inr True\<close> when the event was completed before.\<close>

definition dispatcher_claim ::
    "('i, 't) dispatcher_config \<Rightarrow> ('s, 't) outbox_ops \<Rightarrow> 't delivery_env \<Rightarrow> outbox_delivery \<Rightarrow>
     ('s, 'i) dispatcher \<Rightarrow> (core_error + bool) \<times> ('s, 'i) dispatcher" where
  "dispatcher_claim c ops env d p =
     (let p = p\<lparr>dp_stats := (dp_stats p)\<lparr>dst_claimed := dst_claimed (dp_stats p) + 1\<rparr>\<rparr>
      in case dc_idempotency c of
           None \<Rightarrow> (Inr False, p)
         | Some idem \<Rightarrow>
             (case op_seen idem (dp_idempotency p) (de_seen env) (delivery_id d) of
                (Inl e, i') \<Rightarrow> (Inl e, p\<lparr>dp_idempotency := i'\<rparr>)
              | (Inr False, i') \<Rightarrow> (Inr False, p\<lparr>dp_idempotency := i'\<rparr>)
              | (Inr True, i') \<Rightarrow>
                  let p = p\<lparr>dp_idempotency := i'\<rparr>
                  in case op_ack ops (dp_store p) (de_settle env) d of
                       (Inl e, s') \<Rightarrow> (Inl e, p\<lparr>dp_store := s'\<rparr>)
                     | (Inr _, s') \<Rightarrow>
                         (Inr True, p\<lparr>dp_store := s',
                            dp_stats := (dp_stats p)\<lparr>dst_duplicates := dst_duplicates (dp_stats p) + 1\<rparr>\<rparr>)))"

text \<open>After success: the event is marked, then acknowledged.\<close>

definition dispatcher_complete ::
    "('i, 't) dispatcher_config \<Rightarrow> ('s, 't) outbox_ops \<Rightarrow> 't delivery_env \<Rightarrow> outbox_delivery \<Rightarrow>
     ('s, 'i) dispatcher \<Rightarrow> (core_error + unit) \<times> ('s, 'i) dispatcher" where
  "dispatcher_complete c ops env d p =
     (case (case dc_idempotency c of
              None \<Rightarrow> (Inr (), dp_idempotency p)
            | Some idem \<Rightarrow> op_mark idem (dp_idempotency p) (de_mark env) (delivery_id d)
                (de_now env + dc_idempotency_ttl c)) of
        (Inl e, i') \<Rightarrow> (Inl e, p\<lparr>dp_idempotency := i'\<rparr>)
      | (Inr _, i') \<Rightarrow>
          (case op_ack ops (dp_store p) (de_settle env) d of
             (Inl e, s') \<Rightarrow> (Inl e, p\<lparr>dp_idempotency := i', dp_store := s'\<rparr>)
           | (Inr _, s') \<Rightarrow>
               (Inr (), p\<lparr>dp_idempotency := i', dp_store := s',
                  dp_stats := (dp_stats p)\<lparr>dst_completed := dst_completed (dp_stats p) + 1\<rparr>\<rparr>)))"

text \<open>After a failure: another attempt or, at the last one, the dead letters.\<close>

definition dispatcher_fail ::
    "('i, 't) dispatcher_config \<Rightarrow> ('s, 't) outbox_ops \<Rightarrow> 't delivery_env \<Rightarrow> outbox_delivery \<Rightarrow> core_error \<Rightarrow>
     ('s, 'i) dispatcher \<Rightarrow> (core_error + unit) \<times> ('s, 'i) dispatcher" where
  "dispatcher_fail c ops env d error p =
     (let p = p\<lparr>dp_stats := (dp_stats p)\<lparr>dst_failures := dst_failures (dp_stats p) + 1\<rparr>\<rparr>
      in if dc_max_attempts c \<le> od_attempt d
         then case op_dead_letter ops (dp_store p) (de_settle env) d (error_display error) of
                (Inl e, s') \<Rightarrow> (Inl e, p\<lparr>dp_store := s'\<rparr>)
              | (Inr _, s') \<Rightarrow>
                  (Inr (), p\<lparr>dp_store := s', dp_stats := (dp_stats p)
                     \<lparr>dst_dead_lettered := dst_dead_lettered (dp_stats p) + 1\<rparr>\<rparr>)
         else case op_retry ops (dp_store p) (de_settle env) d
                     (de_now env + dispatcher_backoff c (od_attempt d)) (error_display error) of
                (Inl e, s') \<Rightarrow> (Inl e, p\<lparr>dp_store := s'\<rparr>)
              | (Inr _, s') \<Rightarrow>
                  (Inr (), p\<lparr>dp_store := s', dp_stats := (dp_stats p)
                     \<lparr>dst_retried := dst_retried (dp_stats p) + 1\<rparr>\<rparr>))"

definition dispatcher_settle ::
    "('i, 't) dispatcher_config \<Rightarrow> ('s, 't) outbox_ops \<Rightarrow> 't delivery_env \<Rightarrow> outbox_delivery \<Rightarrow>
     ('s, 'i) dispatcher \<Rightarrow> (core_error + unit) \<times> ('s, 'i) dispatcher" where
  "dispatcher_settle c ops env d p =
     (case (case de_handled env of None \<Rightarrow> Inl Timeout | Some r \<Rightarrow> r) of
        Inr _ \<Rightarrow> dispatcher_complete c ops env d p
      | Inl error \<Rightarrow>
          if error = AlreadyProcessed then dispatcher_complete c ops env d p
          else dispatcher_fail c ops env d error p)"

fun dispatcher_renewals ::
    "('s, 't) outbox_ops \<Rightarrow> duration \<Rightarrow> outbox_delivery \<Rightarrow> 't list \<Rightarrow> 's \<Rightarrow> (core_error + unit) \<times> 's" where
  "dispatcher_renewals ops lease d [] s = (Inr (), s)"
| "dispatcher_renewals ops lease d (t # ts) s =
     (case op_renew ops s t d lease of
        (Inl e, s') \<Rightarrow> (Inl e, s')
      | (Inr _, s') \<Rightarrow> dispatcher_renewals ops lease d ts s')"

definition dispatcher_process_delivery ::
    "('i, 't) dispatcher_config \<Rightarrow> ('s, 't) outbox_ops \<Rightarrow> 't delivery_env \<Rightarrow> outbox_delivery \<Rightarrow>
     ('s, 'i) dispatcher \<Rightarrow> (core_error + unit) \<times> ('s, 'i) dispatcher" where
  "dispatcher_process_delivery c ops env d p =
     (case dispatcher_claim c ops env d p of
        (Inl e, p') \<Rightarrow> (Inl e, p')
      | (Inr True, p') \<Rightarrow> (Inr (), p')
      | (Inr False, p') \<Rightarrow>
          (case dispatcher_renewals ops (dc_lease c) d (de_renewals env) (dp_store p') of
             (Inl e, s') \<Rightarrow> (Inl e, p'\<lparr>dp_store := s'\<rparr>)
           | (Inr _, s') \<Rightarrow> dispatcher_settle c ops env d (p'\<lparr>dp_store := s'\<rparr>)))"

fun dispatcher_batch ::
    "('i, 't) dispatcher_config \<Rightarrow> ('s, 't) outbox_ops \<Rightarrow> (outbox_delivery \<times> 't delivery_env) list \<Rightarrow>
     ('s, 'i) dispatcher \<Rightarrow> core_error option \<times> ('s, 'i) dispatcher" where
  "dispatcher_batch c ops [] p = (None, p)"
| "dispatcher_batch c ops ((d, env) # ds) p =
     (let (r, p') = dispatcher_process_delivery c ops env d p;
          (first, p'') = dispatcher_batch c ops ds p'
      in (case r of Inl e \<Rightarrow> Some e | Inr _ \<Rightarrow> first, p''))"

definition dispatcher_run_once ::
    "('i, 't) dispatcher_config \<Rightarrow> ('s, 't) outbox_ops \<Rightarrow> 't \<Rightarrow> (outbox_delivery \<Rightarrow> 't delivery_env) \<Rightarrow>
     ('s, 'i) dispatcher \<Rightarrow> (core_error + usize) \<times> ('s, 'i) dispatcher" where
  "dispatcher_run_once c ops t envs p =
     (case op_acquire ops (dp_store p) t (dc_worker_id c) (dc_batch_size c) (dc_lease c) of
        (Inl e, s') \<Rightarrow> (Inl e, p\<lparr>dp_store := s'\<rparr>)
      | (Inr deliveries, s') \<Rightarrow>
          (let (first, p') = dispatcher_batch c ops (map (\<lambda>d. (d, envs d)) deliveries) (p\<lparr>dp_store := s'\<rparr>)
           in (case first of None \<Rightarrow> Inr (length deliveries) | Some e \<Rightarrow> Inl e, p')))"

subsection \<open>The contract of the store\<close>

datatype outbox_place = Missing | Pending | Dead | Completed

text \<open>The in-memory store; a call reads the clock at most twice and \<open>acquire\<close> draws tokens.\<close>

type_synonym memory_env = "instant \<times> instant \<times> uuid list"

definition memory_outbox_ops :: "(memory_outbox, memory_env) outbox_ops" where
  "memory_outbox_ops =
     \<lparr>op_acquire = (\<lambda>s (now, _, tokens). memory_outbox_acquire s now tokens),
      op_renew = (\<lambda>s (now, now', _). memory_outbox_renew s now now'),
      op_ack = (\<lambda>s (now, _, _). memory_outbox_ack s now),
      op_retry = (\<lambda>s (now, now', _). memory_outbox_retry s now now'),
      op_dead_letter = (\<lambda>s (now, now', _). memory_outbox_dead_letter s now now')\<rparr>"

definition memory_outbox_place :: "memory_outbox \<Rightarrow> uuid \<Rightarrow> outbox_place" where
  "memory_outbox_place s i =
     (if contains_key (mo_active s) i then Pending
      else if contains_key (mo_dead s) i then Dead
      else if contains_key (mo_completed s) i then Completed else Missing)"

definition memory_outbox_holder :: "memory_outbox \<Rightarrow> memory_env \<Rightarrow> outbox_delivery \<Rightarrow> bool" where
  "memory_outbox_holder s t d \<longleftrightarrow> \<not> isl (outbox_leased s (fst t) d)"

definition memory_outbox_ok :: "memory_outbox \<Rightarrow> bool" where
  "memory_outbox_ok s \<longleftrightarrow> outbox_wf s \<and> \<not> mo_poisoned s"

text \<open>The failure that a delivery ends with, if any.\<close>

definition delivery_failure :: "'t delivery_env \<Rightarrow> core_error option" where
  "delivery_failure env = (case de_handled env of
      None \<Rightarrow> Some Timeout | Some (Inr _) \<Rightarrow> None
    | Some (Inl e) \<Rightarrow> if e = AlreadyProcessed then None else Some e)"

locale outbox_settlement =
  fixes ops :: "('s, 't) outbox_ops"
    and place :: "'s \<Rightarrow> uuid \<Rightarrow> outbox_place"
    and holder :: "'s \<Rightarrow> 't \<Rightarrow> outbox_delivery \<Rightarrow> bool"
    and ok :: "'s \<Rightarrow> bool"
  assumes renew_ok: "ok s \<Longrightarrow> ok (snd (op_renew ops s t d lease)) \<and> place (snd (op_renew ops s t d lease)) = place s"
    and held: "ok s \<Longrightarrow> holder s t d \<Longrightarrow> place s (delivery_id d) = Pending"
    and ack_held: "ok s \<Longrightarrow> holder s t d \<Longrightarrow>
      \<exists>s'. op_ack ops s t d = (Inr (), s') \<and> place s' = (place s)(delivery_id d := Completed)"
    and ack_lost: "ok s \<Longrightarrow> \<not> holder s t d \<Longrightarrow> \<exists>e. op_ack ops s t d = (Inl e, s)"
    and retry_held: "ok s \<Longrightarrow> holder s t d \<Longrightarrow> length reason \<le> 4096 \<Longrightarrow>
      \<exists>s'. op_retry ops s t d available_at reason = (Inr (), s') \<and> place s' = place s"
    and dead_letter_held: "ok s \<Longrightarrow> holder s t d \<Longrightarrow> length reason \<le> 4096 \<Longrightarrow>
      \<exists>s'. op_dead_letter ops s t d reason = (Inr (), s') \<and> place s' = (place s)(delivery_id d := Dead)"
    and settle_refused: "ok s \<Longrightarrow> \<not> holder s t d \<or> 4096 < length reason \<Longrightarrow>
      \<exists>e e'. op_retry ops s t d available_at reason = (Inl e, s) \<and>
        op_dead_letter ops s t d reason = (Inl e', s)"
begin

text \<open>Where the event of a delivery ends up, and when the dispatcher reports an error.\<close>

lemma settle_outcome:
  assumes ok: "ok (dp_store p)" and idem: "dc_idempotency c = None"
    and result: "dispatcher_settle c ops env d p = (r, p')"
  shows "place (dp_store p') = (if isl r then place (dp_store p) else
      (case delivery_failure env of
         None \<Rightarrow> (place (dp_store p))(delivery_id d := Completed)
       | Some _ \<Rightarrow>
           if dc_max_attempts c \<le> od_attempt d then (place (dp_store p))(delivery_id d := Dead)
           else place (dp_store p)))
    \<and> (isl r \<longleftrightarrow> \<not> holder (dp_store p) (de_settle env) d \<or>
         (case delivery_failure env of None \<Rightarrow> False | Some e \<Rightarrow> 4096 < length (error_display e)))"
proof (cases "delivery_failure env")
  case None
  then have "dispatcher_settle c ops env d p = dispatcher_complete c ops env d p"
    by (auto simp: delivery_failure_def dispatcher_settle_def split: option.splits sum.splits if_splits)
  with result idem None show ?thesis
    using ack_held [OF ok, of "de_settle env" d] ack_lost [OF ok, of "de_settle env" d]
    by (cases "holder (dp_store p) (de_settle env) d")
      (auto simp: dispatcher_complete_def split: prod.splits sum.splits)
next
  case (Some e)
  then have settle: "dispatcher_settle c ops env d p = dispatcher_fail c ops env d e p"
    by (auto simp: delivery_failure_def dispatcher_settle_def split: option.splits sum.splits if_splits)
  let ?s = "dp_store p" and ?t = "de_settle env" and ?m = "error_display e"
  let ?at = "de_now env + dispatcher_backoff c (od_attempt d)"
  show ?thesis
  proof (cases "holder ?s ?t d \<and> length ?m \<le> 4096")
    case True
    then obtain s1 s2 where
      "op_retry ops ?s ?t d ?at ?m = (Inr (), s1)" "place s1 = place ?s"
      "op_dead_letter ops ?s ?t d ?m = (Inr (), s2)" "place s2 = (place ?s)(delivery_id d := Dead)"
      using retry_held [OF ok] dead_letter_held [OF ok] by meson
    with result settle Some True show ?thesis
      by (auto simp: dispatcher_fail_def Let_def split: if_splits)
  next
    case False
    then obtain e1 e2 where "op_retry ops ?s ?t d ?at ?m = (Inl e1, ?s)"
      "op_dead_letter ops ?s ?t d ?m = (Inl e2, ?s)"
      using settle_refused [OF ok] by (meson not_le)
    with result settle Some False show ?thesis
      by (auto simp: dispatcher_fail_def Let_def not_le split: if_splits)
  qed
qed

lemma renewals_keep:
  "ok s \<Longrightarrow> dispatcher_renewals ops lease d ts s = (r, s') \<Longrightarrow> ok s' \<and> place s' = place s"
proof (induction ts arbitrary: s)
  case (Cons t ts)
  then show ?case
    using renew_ok [of s t d lease] by (auto split: prod.splits sum.splits)
qed simp

lemma process_outcome:
  assumes ok: "ok (dp_store p)" and idem: "dc_idempotency c = None"
    and result: "dispatcher_process_delivery c ops env d p = (r, p')"
  shows "place (dp_store p') = (if isl r then place (dp_store p) else
      (case delivery_failure env of
         None \<Rightarrow> (place (dp_store p))(delivery_id d := Completed)
       | Some _ \<Rightarrow>
           if dc_max_attempts c \<le> od_attempt d then (place (dp_store p))(delivery_id d := Dead)
           else place (dp_store p)))
    \<and> ((\<exists>e. delivery_failure env = Some e \<and> 4096 < length (error_display e)) \<longrightarrow> isl r)"
proof -
  let ?p = "p\<lparr>dp_stats := (dp_stats p)\<lparr>dst_claimed := dst_claimed (dp_stats p) + 1\<rparr>\<rparr>"
  obtain r1 s1 where renewals: "dispatcher_renewals ops (dc_lease c) d (de_renewals env) (dp_store p) = (r1, s1)"
    by fastforce
  note kept = renewals_keep [OF ok renewals]
  show ?thesis
  proof (cases r1)
    case Inl
    with result idem renewals kept show ?thesis
      by (auto simp: dispatcher_process_delivery_def dispatcher_claim_def)
  next
    case Inr
    with result idem renewals have "dispatcher_settle c ops env d (?p\<lparr>dp_store := s1\<rparr>) = (r, p')"
      by (simp add: dispatcher_process_delivery_def dispatcher_claim_def)
    from settle_outcome [OF _ idem this] kept show ?thesis
      by (auto split: option.splits)
  qed
qed

end

subsection \<open>The in-memory store meets the contract\<close>

lemma contains_key_insert: "hm_wf m \<Longrightarrow> contains_key (hm_insert k v m) i \<longleftrightarrow> i = k \<or> contains_key m i"
  by (auto simp: contains_key_def hm.map_laws)

lemma contains_key_remove: "hm_wf m \<Longrightarrow> contains_key (map_remove k m) i \<longleftrightarrow> i \<noteq> k \<and> contains_key m i"
  by (auto simp: contains_key_def hm.map_laws)

lemma contains_key_adjust: "contains_key (map_adjust k f m) i \<longleftrightarrow> contains_key m i"
  by (auto simp: contains_key_def map_of_adjust)

lemma outbox_wf_parts:
  "outbox_wf s \<Longrightarrow> hm_wf (mo_active s)" "outbox_wf s \<Longrightarrow> hm_wf (mo_dead s)"
  "outbox_wf s \<Longrightarrow> hm_wf (mo_completed s)"
  "outbox_wf s \<Longrightarrow> map_of (mo_active s) i = Some entry \<Longrightarrow>
     ev_id (oe_event entry) = i \<and> \<not> contains_key (mo_dead s) i \<and> \<not> contains_key (mo_completed s) i"
  by (simp_all add: outbox_wf_def contains_key_def)

lemmas memory_contract = memory_outbox_ops_def memory_outbox_ok_def memory_outbox_place_def
  memory_outbox_holder_def contains_key_insert contains_key_remove contains_key_adjust
  validate_failure_reason_def

interpretation mem: outbox_settlement memory_outbox_ops memory_outbox_place memory_outbox_holder
  memory_outbox_ok
proof
  fix s :: memory_outbox and t :: memory_env and d lease reason available_at
  assume ok: "memory_outbox_ok s"
  then have wf: "outbox_wf s" "\<not> mo_poisoned s" by (simp_all add: memory_outbox_ok_def)
  have hm: "hm_wf (mo_active s)" "hm_wf (mo_dead s)" "hm_wf (mo_completed s)"
    by (simp_all add: outbox_wf_parts wf)
  have lost: "\<exists>e. outbox_leased s (fst t) d = Inl e" if "\<not> memory_outbox_holder s t d"
    using that by (cases "outbox_leased s (fst t) d") (auto simp: memory_outbox_holder_def)
  have held: "\<exists>entry. outbox_leased s (fst t) d = Inr entry \<and>
      map_of (mo_active s) (delivery_id d) = Some entry \<and> ev_id (oe_event entry) = delivery_id d \<and>
      \<not> contains_key (mo_dead s) (delivery_id d) \<and> \<not> contains_key (mo_completed s) (delivery_id d)"
    if holds: "memory_outbox_holder s t d"
  proof -
    obtain entry where "outbox_leased s (fst t) d = Inr entry"
      using holds by (cases "outbox_leased s (fst t) d") (auto simp: memory_outbox_holder_def)
    then show ?thesis using outbox_wf_parts(4) [OF wf(1)] by (auto simp: outbox_leased_entry)
  qed
  obtain now now' ts where t: "t = (now, now', ts)" by (cases t)
  show "memory_outbox_ok (snd (op_renew memory_outbox_ops s t d lease)) \<and>
      memory_outbox_place (snd (op_renew memory_outbox_ops s t d lease)) = memory_outbox_place s"
  proof
    show "memory_outbox_ok (snd (op_renew memory_outbox_ops s t d lease))"
      using wf outbox_settle_steps(3) [OF wf(1), of now now' d lease]
      by (cases "memory_outbox_renew s now now' d lease")
        (auto simp: memory_outbox_ops_def memory_outbox_ok_def t memory_outbox_renew_def
          split: if_splits sum.splits)
    show "memory_outbox_place (snd (op_renew memory_outbox_ops s t d lease)) = memory_outbox_place s"
      by (auto simp: memory_contract t memory_outbox_renew_def fun_eq_iff split: sum.split)
  qed
  show "memory_outbox_place s (delivery_id d) = Pending" if "memory_outbox_holder s t d"
    using held [OF that] by (auto simp: memory_outbox_place_def contains_key_def)
  show "\<exists>s'. op_ack memory_outbox_ops s t d = (Inr (), s') \<and>
      memory_outbox_place s' = (memory_outbox_place s)(delivery_id d := Completed)"
    if "memory_outbox_holder s t d"
    using held [OF that] wf
    by (elim exE conjE) (simp add: memory_contract t memory_outbox_ack_def fun_eq_iff hm)
  show "\<exists>e. op_ack memory_outbox_ops s t d = (Inl e, s)" if "\<not> memory_outbox_holder s t d"
    using lost [OF that] wf by (auto simp: memory_outbox_ops_def t memory_outbox_ack_def)
  show "\<exists>s'. op_retry memory_outbox_ops s t d available_at reason = (Inr (), s') \<and>
      memory_outbox_place s' = memory_outbox_place s"
    if "memory_outbox_holder s t d" "length reason \<le> 4096"
    using held [OF that(1)] wf that(2)
    by (elim exE conjE) (simp add: memory_contract t memory_outbox_retry_def fun_eq_iff hm)
  show "\<exists>s'. op_dead_letter memory_outbox_ops s t d reason = (Inr (), s') \<and>
      memory_outbox_place s' = (memory_outbox_place s)(delivery_id d := Dead)"
    if "memory_outbox_holder s t d" "length reason \<le> 4096"
    using held [OF that(1)] wf that(2)
    by (elim exE conjE) (simp add: memory_contract t memory_outbox_dead_letter_def fun_eq_iff hm)
  show "\<exists>e e'. op_retry memory_outbox_ops s t d available_at reason = (Inl e, s) \<and>
      op_dead_letter memory_outbox_ops s t d reason = (Inl e', s)"
    if "\<not> memory_outbox_holder s t d \<or> 4096 < length reason"
  proof (cases "4096 < length reason")
    case False
    with that lost wf show ?thesis
      by (auto simp: memory_outbox_ops_def t memory_outbox_retry_def memory_outbox_dead_letter_def
          validate_failure_reason_def)
  qed (simp add: memory_outbox_ops_def t memory_outbox_retry_def memory_outbox_dead_letter_def
      validate_failure_reason_def)
qed

subsection \<open>Back-off\<close>

lemma dispatcher_backoff_power:
  "dispatcher_backoff c attempt =
     min (min (dc_initial_backoff c *
        (if unat attempt \<le> 32 then 2 ^ (unat attempt - 1) else 2 ^ 32 - 1)) duration_max) (dc_max_backoff c)"
proof -
  have pow: "unat (push_bit n 1 :: u32) = 2 ^ n" if "n < 32" for n
  proof -
    have "(push_bit n 1 :: u32) = of_nat (2 ^ n)" by simp
    moreover have "(2 :: nat) ^ n < 2 ^ 32" using that by (rule power_strict_increasing) simp
    ultimately show ?thesis by (simp only: unat_of_nat) simp
  qed
  have top: "unat (- 1 :: u32) = 2 ^ 32 - 1"
    by (simp add: unsigned_minus_1_eq_mask mask_eq_exp_minus_1)
  have lt: "unat attempt - 1 < 32 \<longleftrightarrow> unat attempt \<le> 32" by linarith
  show ?thesis
  proof (cases "unat attempt \<le> 32")
    case True
    with lt have "unat attempt - 1 < 32" by simp
    from pow [OF this] this True show ?thesis
      by (simp only: dispatcher_backoff_def Let_def unat_sat_sub unsigned_1 if_True)
  next
    case False
    with lt show ?thesis
      by (simp only: dispatcher_backoff_def Let_def unat_sat_sub unsigned_1 if_False top)
  qed
qed

lemma dispatcher_factor_mono:
  assumes "n \<le> m"
  shows "(if n \<le> 32 then 2 ^ (n - 1) else 2 ^ 32 - 1 :: nat) \<le> (if m \<le> 32 then 2 ^ (m - 1) else 2 ^ 32 - 1)"
proof (cases "m \<le> 32")
  case True
  with assms show ?thesis by (simp add: power_increasing diff_le_mono)
next
  case False
  have "(2 :: nat) ^ (n - 1) \<le> 2 ^ 31" if "n \<le> 32" using that by (intro power_increasing) auto
  with False show ?thesis by fastforce
qed

subsection \<open>Properties\<close>

text \<open>C32. What the dispatcher does with a delivery against the in-memory store, without an
idempotency store. When it reports no error, the event of a handled delivery is completed, the
event of a failed one is moved to the dead letters exactly at the last attempt and stays pending
otherwise. When it reports an error, every event is where it was. It does report an error, at
every attempt, when the message of the failure is longer than the 4096 bytes a store accepts:
such an event is neither retried nor moved to the dead letters.
\<close>

theorem dispatcher_outcome:
  assumes "outbox_wf (dp_store p)" "\<not> mo_poisoned (dp_store p)" "dc_idempotency c = None"
    and "dispatcher_process_delivery c memory_outbox_ops env d p = (r, p')"
  shows "memory_outbox_place (dp_store p') = (if isl r then memory_outbox_place (dp_store p) else
      (case delivery_failure env of
         None \<Rightarrow> (memory_outbox_place (dp_store p))(delivery_id d := Completed)
       | Some _ \<Rightarrow>
           if dc_max_attempts c \<le> od_attempt d
           then (memory_outbox_place (dp_store p))(delivery_id d := Dead)
           else memory_outbox_place (dp_store p)))
    \<and> ((\<exists>e. delivery_failure env = Some e \<and> 4096 < length (error_display e)) \<longrightarrow> isl r)"
  using assms by (intro mem.process_outcome) (simp_all add: memory_outbox_ok_def)

text \<open>For an accepted configuration the delay before the next attempt lies between the initial
and the maximal back-off, never shrinks from one attempt to a later one, and doubles with each
attempt while it is below the maximum.
\<close>

theorem dispatcher_backoff_bounds:
  assumes "dispatcher_config_validate c = Inr ()" "dc_initial_backoff c \<le> duration_max"
    and "attempt \<le> later"
  shows "dc_initial_backoff c \<le> dispatcher_backoff c attempt \<and>
    dispatcher_backoff c attempt \<le> dc_max_backoff c \<and>
    dispatcher_backoff c attempt \<le> dispatcher_backoff c later \<and>
    (0 < attempt \<and> attempt < 32 \<and> dispatcher_backoff c (attempt + 1) < dc_max_backoff c \<and>
       dispatcher_backoff c (attempt + 1) < duration_max \<longrightarrow>
       dispatcher_backoff c (attempt + 1) = 2 * dispatcher_backoff c attempt)"
proof -
  let ?f = "\<lambda>n. if n \<le> 32 then 2 ^ (n - 1) else 2 ^ 32 - 1 :: nat"
  have "1 \<le> ?f (unat attempt)" by simp
  then have "dc_initial_backoff c * 1 \<le> dc_initial_backoff c * ?f (unat attempt)"
    by (rule mult_le_mono2)
  moreover have "dc_initial_backoff c \<le> dc_max_backoff c"
    using assms(1) by (simp add: dispatcher_config_validate_def split: if_splits)
  ultimately have low: "dc_initial_backoff c \<le> dispatcher_backoff c attempt"
    using assms(2) unfolding dispatcher_backoff_power by simp
  have high: "dispatcher_backoff c attempt \<le> dc_max_backoff c"
    unfolding dispatcher_backoff_power by simp
  have "dc_initial_backoff c * ?f (unat attempt) \<le> dc_initial_backoff c * ?f (unat later)"
    using assms(3) by (intro mult_le_mono2 dispatcher_factor_mono) (simp add: word_le_nat_alt)
  then have mono: "dispatcher_backoff c attempt \<le> dispatcher_backoff c later"
    unfolding dispatcher_backoff_power by (intro min.mono order_refl)
  have double: "dispatcher_backoff c (attempt + 1) = 2 * dispatcher_backoff c attempt"
    if pos: "0 < attempt" and small: "attempt < 32"
      and below: "dispatcher_backoff c (attempt + 1) < dc_max_backoff c"
      "dispatcher_backoff c (attempt + 1) < duration_max"
  proof -
    have n: "0 < unat attempt" "unat attempt < 32"
      using pos small by (simp_all add: unat_gt_0 word_less_nat_alt)
    then have succ: "unat (attempt + 1) = Suc (unat attempt)"
      by (simp add: unat_word_ariths)
    define a where "a = dc_initial_backoff c * 2 ^ (unat attempt - 1)"
    have twice: "dc_initial_backoff c * 2 ^ unat attempt = 2 * a"
      using n by (cases "unat attempt") (auto simp: a_def)
    have "dispatcher_backoff c (attempt + 1) = min (min (2 * a) duration_max) (dc_max_backoff c)"
      unfolding dispatcher_backoff_power succ using n by (simp add: twice)
    moreover have "dispatcher_backoff c attempt = min (min a duration_max) (dc_max_backoff c)"
      unfolding dispatcher_backoff_power a_def using n by simp
    ultimately show ?thesis using below by linarith
  qed
  from low high mono double show ?thesis by blast
qed

text \<open>The second attempt of the event of the outbox example, first with a timeout, then with a
failure whose message is too long.\<close>

definition demo_config :: "(unit, memory_env) dispatcher_config" where
  "demo_config = dispatcher_config_default\<lparr>dc_max_attempts := 2\<rparr>"

definition demo_env :: "(core_error + unit) option \<Rightarrow> memory_env delivery_env" where
  "demo_env handled = \<lparr>de_seen = (12, 12, []), de_renewals = [(12, 13, [])], de_handled = handled,
     de_now = 13, de_mark = (13, 13, []), de_settle = (13, 13, [])\<rparr>"

definition demo_dispatcher :: "(memory_outbox, unit) dispatcher" where
  "demo_dispatcher = \<lparr>dp_store = ow_store outbox_demo, dp_idempotency = (),
     dp_stats = dispatcher_stats_default\<rparr>"

definition demo_run ::
    "(core_error + unit) option \<Rightarrow> (core_error + unit) \<times> (memory_outbox, unit) dispatcher" where
  "demo_run handled = dispatcher_process_delivery demo_config memory_outbox_ops (demo_env handled)
     (outbox_demo_delivery 2 ''two'' 12 15) demo_dispatcher"

theorem dispatcher_outcome_witness:
  "memory_outbox_place (dp_store (snd (demo_run None))) 1 = Dead \<and>
   isl (fst (demo_run (Some (Inl (Internal (replicate 5000 CHR ''x''))))))"
proof
  have pre: "outbox_wf (dp_store demo_dispatcher)" "\<not> mo_poisoned (dp_store demo_dispatcher)"
    "dc_idempotency demo_config = None"
    using outbox_reachable_inv [OF outbox_demo_reachable]
    by (simp_all add: outbox_inv_def demo_dispatcher_def demo_config_def dispatcher_config_default_def
        outbox_demo_def memory_outbox_new_def)
  note outcome = dispatcher_outcome [OF pre, of "demo_env handled" "outbox_demo_delivery 2 ''two'' 12 15"
      "fst (demo_run handled)" "snd (demo_run handled)" for handled, unfolded demo_run_def [symmetric], simplified]
  have "\<not> isl (fst (demo_run None))"
    by (simp add: demo_run_def dispatcher_process_delivery_def dispatcher_claim_def dispatcher_settle_def
        dispatcher_fail_def memory_outbox_ops_def memory_outbox_renew_def memory_outbox_dead_letter_def
        outbox_leased_def demo_env_def demo_config_def dispatcher_config_default_def demo_dispatcher_def
        outbox_demo_def outbox_demo_defs validate_failure_reason_def secs_def)
  with outcome [of None] show "memory_outbox_place (dp_store (snd (demo_run None))) 1 = Dead"
    by (simp add: delivery_failure_def demo_env_def demo_config_def outbox_demo_delivery_def outbox_demo_event_def)
  show "isl (fst (demo_run (Some (Inl (Internal (replicate 5000 CHR ''x''))))))"
    using outcome [of "Some (Inl (Internal (replicate 5000 CHR ''x'')))"]
    by (simp add: delivery_failure_def demo_env_def)
qed

theorem dispatcher_backoff_bounds_witness:
  "dispatcher_config_validate (dispatcher_config_default :: (unit, memory_env) dispatcher_config) = Inr () \<and>
   secs 1 \<le> dispatcher_backoff (dispatcher_config_default :: (unit, memory_env) dispatcher_config) 3 \<and>
   dispatcher_backoff (dispatcher_config_default :: (unit, memory_env) dispatcher_config) 3 \<le>
     dispatcher_backoff (dispatcher_config_default :: (unit, memory_env) dispatcher_config) 90"
proof -
  have valid: "dispatcher_config_validate (dispatcher_config_default :: (unit, memory_env) dispatcher_config) = Inr ()"
    by (simp add: dispatcher_config_validate_def dispatcher_config_default_def secs_def millis_def
        ascii_space_def byte_in_def)
  have "dc_initial_backoff (dispatcher_config_default :: (unit, memory_env) dispatcher_config) \<le> duration_max"
    by (simp add: dispatcher_config_default_def secs_def duration_max_def)
  from dispatcher_backoff_bounds [OF valid this, of 3 90] valid show ?thesis
    by (simp add: dispatcher_config_default_def)
qed

end
