(* ===== verification/Snapshot_Replication.thy ===== *)
theory Snapshot_Replication
  imports Replication_Update Frame_Codec
begin

unbundle bit_operations_syntax

section \<open>Snapshot replication\<close>

text \<open>
  Model of \<open>crates/elura-core/src/snapshot_replication.rs\<close>: a room's encoded state is sent
  as keyframes and as exclusive-or differences to the packet before. The digest of
  \<open>state_hash.rs\<close> is the parameter \<open>digest\<close>; nothing is assumed of it, so that the
  properties do not rest on the hash function. The snapshot encoder and the packet sink are
  parameters of the publisher; the sink has a state of its own.
\<close>

subsection \<open>Data\<close>

datatype packet_kind = Keyframe | Delta

record 'h packet =
  pk_room_id :: string
  pk_tick :: u64
  pk_elapsed :: duration
  pk_base_tick :: u64
  pk_kind :: packet_kind
  pk_payload :: bytes
  pk_state_hash :: 'h

record stream_config =
  sc_keyframe_interval :: u64
  sc_max_payload :: usize

record replication_stream =
  rst_room :: string
  rst_config :: stream_config
  rst_previous :: "(u64 \<times> bytes) option"
  rst_force :: bool

record publish_stats =
  ps_keyframes_published :: u64
  ps_deltas_published :: u64
  ps_payload_bytes :: u64
  ps_publish_errors :: u64

record ('s, 'h) snapshot =
  snap_room_id :: string
  snap_tick :: u64
  snap_elapsed :: duration
  snap_state :: 's
  snap_state_hash :: 'h

record 'k replication_publisher =
  rp_stream :: replication_stream
  rp_sink :: 'k
  rp_stats :: publish_stats
  rp_poisoned :: bool

record snapshot_receiver =
  sr_room :: string
  sr_max :: usize
  sr_current :: "(u64 \<times> bytes) option"

subsection \<open>Differences\<close>

text \<open>\<open>slice.get(i).copied().unwrap_or(0)\<close>\<close>

definition byte_at :: "bytes \<Rightarrow> nat \<Rightarrow> u8" where
  "byte_at bs i = (if i < length bs then bs ! i else 0)"

text \<open>The loop that pops zero bytes from the end down to the length header.\<close>

fun pop_zeros :: "u8 list \<Rightarrow> u8 list" where
  "pop_zeros [] = []"
| "pop_zeros (b # bs) = (if 4 < length (b # bs) \<and> b = 0 then pop_zeros bs else b # bs)"

definition xor_delta :: "bytes \<Rightarrow> bytes \<Rightarrow> core_error + bytes" where
  "xor_delta base now =
     (if 2 ^ 32 \<le> length now then Inl (InvalidFrame ''state too large'')
      else Inr (rev (pop_zeros (rev
        (be_put 4 (length now) @ map (\<lambda>i. now ! i XOR byte_at base i) [0..<length now])))))"

definition xor_apply :: "bytes \<Rightarrow> bytes \<Rightarrow> core_error + bytes" where
  "xor_apply base delta =
     (if length delta < 4 then Inl (InvalidFrame ''delta'')
      else Inr (map (\<lambda>i. byte_at base i XOR byte_at delta (i + 4)) [0..<be_val (take 4 delta)]))"

subsection \<open>The stream\<close>

definition stream_config_default :: stream_config where
  "stream_config_default = \<lparr>sc_keyframe_interval = 60, sc_max_payload = 4194304\<rparr>"

definition replication_stream_new :: "string \<Rightarrow> stream_config \<Rightarrow> core_error + replication_stream" where
  "replication_stream_new room config =
     (if room = [] \<or> sc_keyframe_interval config = 0 \<or> sc_max_payload config = 0
      then Inl (core_error.InvalidConfig ''replication'')
      else Inr \<lparr>rst_room = room, rst_config = config, rst_previous = None, rst_force = True\<rparr>)"

definition stream_force_keyframe :: "replication_stream \<Rightarrow> replication_stream" where
  "stream_force_keyframe s = s\<lparr>rst_force := True\<rparr>"

text \<open>Base tick, kind and payload of the next packet.\<close>

definition stream_body ::
    "replication_stream \<Rightarrow> u64 \<Rightarrow> bytes \<Rightarrow> core_error + u64 \<times> packet_kind \<times> bytes" where
  "stream_body s tick state =
     (case rst_previous s of
        None \<Rightarrow> Inr (0, Keyframe, state)
      | Some (base_tick, base) \<Rightarrow>
          if \<not> rst_force s \<and> tick mod sc_keyframe_interval (rst_config s) \<noteq> 0
          then (case xor_delta base state of
                  Inl e \<Rightarrow> Inl e
                | Inr delta \<Rightarrow>
                    if length delta < length state then Inr (base_tick, Delta, delta)
                    else Inr (0, Keyframe, state))
          else Inr (0, Keyframe, state))"

definition stream_packet ::
    "(bytes \<Rightarrow> 'h) \<Rightarrow> replication_stream \<Rightarrow> u64 \<Rightarrow> bytes \<Rightarrow> (core_error + 'h packet) \<times> replication_stream" where
  "stream_packet digest s tick state =
     (if tick = 0 \<or> sc_max_payload (rst_config s) < length state
         \<or> (case rst_previous s of None \<Rightarrow> False | Some (t, _) \<Rightarrow> tick \<le> t)
      then (Inl (InvalidFrame ''replication tick or size''), s)
      else case stream_body s tick state of
        Inl e \<Rightarrow> (Inl e, s)
      | Inr (base_tick, kind, payload) \<Rightarrow>
          (Inr \<lparr>pk_room_id = rst_room s, pk_tick = tick, pk_elapsed = 0, pk_base_tick = base_tick,
                pk_kind = kind, pk_payload = payload, pk_state_hash = digest state\<rparr>,
           s\<lparr>rst_previous := Some (tick, state), rst_force := False\<rparr>))"

subsection \<open>The publisher\<close>

definition publisher_new :: "replication_stream \<Rightarrow> 'k \<Rightarrow> 'k replication_publisher" where
  "publisher_new stream sink = \<lparr>rp_stream = stream, rp_sink = sink,
     rp_stats = \<lparr>ps_keyframes_published = 0, ps_deltas_published = 0, ps_payload_bytes = 0,
       ps_publish_errors = 0\<rparr>, rp_poisoned = False\<rparr>"

definition publisher_force_keyframe :: "'k replication_publisher \<Rightarrow> 'k replication_publisher" where
  "publisher_force_keyframe p =
     (if rp_poisoned p then p else p\<lparr>rp_stream := stream_force_keyframe (rp_stream p)\<rparr>)"

definition count_published :: "'h packet \<Rightarrow> publish_stats \<Rightarrow> publish_stats" where
  "count_published packet st =
     (let st = (case pk_kind packet of
          Keyframe \<Rightarrow> st\<lparr>ps_keyframes_published := ps_keyframes_published st + 1\<rparr>
        | Delta \<Rightarrow> st\<lparr>ps_deltas_published := ps_deltas_published st + 1\<rparr>)
      in st\<lparr>ps_payload_bytes := ps_payload_bytes st + of_nat (length (pk_payload packet))\<rparr>)"

definition publisher_publish ::
    "(bytes \<Rightarrow> 'h) \<Rightarrow> ('s \<Rightarrow> core_error + bytes) \<Rightarrow> ('k \<Rightarrow> 'h packet \<Rightarrow> (core_error + unit) \<times> 'k) \<Rightarrow>
     'k replication_publisher \<Rightarrow> ('s, 'h) snapshot \<Rightarrow> (core_error + unit) \<times> 'k replication_publisher" where
  "publisher_publish digest encoder sink p snapshot =
     (case encoder (snap_state snapshot) of
        Inl e \<Rightarrow> (Inl e, p)
      | Inr encoded \<Rightarrow>
          if rp_poisoned p then (Inl (Internal ''replication stream poisoned''), p)
          else case stream_packet digest (rp_stream p) (snap_tick snapshot) encoded of
            (Inl e, stream) \<Rightarrow> (Inl e, p\<lparr>rp_stream := stream\<rparr>)
          | (Inr packet, stream) \<Rightarrow>
              let packet = packet\<lparr>pk_elapsed := snap_elapsed snapshot\<rparr>
              in case sink (rp_sink p) packet of
                   (Inl e, k) \<Rightarrow>
                     (Inl e, publisher_force_keyframe (p\<lparr>rp_stream := stream, rp_sink := k,
                        rp_stats := (rp_stats p)\<lparr>ps_publish_errors := ps_publish_errors (rp_stats p) + 1\<rparr>\<rparr>))
                 | (Inr _, k) \<Rightarrow>
                     (Inr (), p\<lparr>rp_stream := stream, rp_sink := k,
                        rp_stats := count_published packet (rp_stats p)\<rparr>))"

subsection \<open>The receiver\<close>

definition snapshot_receiver_new :: "string \<Rightarrow> usize \<Rightarrow> core_error + snapshot_receiver" where
  "snapshot_receiver_new room limit =
     (if limit = 0 then Inl (core_error.InvalidConfig ''replication'')
      else Inr \<lparr>sr_room = room, sr_max = limit, sr_current = None\<rparr>)"

definition receiver_state :: "snapshot_receiver \<Rightarrow> 'h packet \<Rightarrow> core_error + bytes" where
  "receiver_state r p =
     (case pk_kind p of
        Keyframe \<Rightarrow> if pk_base_tick p = 0 then Inr (pk_payload p) else Inl (InvalidFrame ''invalid keyframe'')
      | Delta \<Rightarrow>
          (case sr_current r of
             None \<Rightarrow> Inl (InvalidFrame ''missing base'')
           | Some (tick, base) \<Rightarrow>
               if tick \<noteq> pk_base_tick p then Inl (InvalidFrame ''base mismatch'')
               else xor_apply base (pk_payload p)))"

definition snapshot_receiver_apply ::
    "(bytes \<Rightarrow> 'h) \<Rightarrow> snapshot_receiver \<Rightarrow> 'h packet \<Rightarrow> (core_error + bytes) \<times> snapshot_receiver" where
  "snapshot_receiver_apply digest r p =
     (if pk_room_id p \<noteq> sr_room r \<or> pk_tick p = 0 \<or> sr_max r < length (pk_payload p)
         \<or> (case sr_current r of None \<Rightarrow> False | Some (t, _) \<Rightarrow> pk_tick p \<le> t)
      then (Inl (InvalidFrame ''replication packet''), r)
      else case receiver_state r p of
        Inl e \<Rightarrow> (Inl e, r)
      | Inr state \<Rightarrow>
          if sr_max r < length state \<or> pk_state_hash p \<noteq> digest state
          then (Inl (InvalidFrame ''state hash''), r)
          else (Inr state, r\<lparr>sr_current := Some (pk_tick p, state)\<rparr>))"

subsection \<open>Delivery\<close>

text \<open>
  The sent packets stay in a log, with the tick and the state each was made from. An event makes
  a packet, forces a keyframe or delivers any packet of the log, so that packets may be lost,
  duplicated and reordered.
\<close>

datatype stream_event = Emit u64 bytes | Force | Deliver nat

record 'h stream_world =
  sw_stream :: replication_stream
  sw_sent :: "(u64 \<times> bytes) list"
  sw_log :: "'h packet list"
  sw_receiver :: snapshot_receiver

fun stream_exec :: "(bytes \<Rightarrow> 'h) \<Rightarrow> 'h stream_world \<Rightarrow> stream_event \<Rightarrow> 'h stream_world" where
  "stream_exec digest w (Emit tick state) =
     (case stream_packet digest (sw_stream w) tick state of
        (Inl _, s) \<Rightarrow> w\<lparr>sw_stream := s\<rparr>
      | (Inr p, s) \<Rightarrow> w\<lparr>sw_stream := s, sw_sent := sw_sent w @ [(tick, state)], sw_log := sw_log w @ [p]\<rparr>)"
| "stream_exec digest w Force = w\<lparr>sw_stream := stream_force_keyframe (sw_stream w)\<rparr>"
| "stream_exec digest w (Deliver i) =
     (if i < length (sw_log w)
      then w\<lparr>sw_receiver := snd (snapshot_receiver_apply digest (sw_receiver w) (sw_log w ! i))\<rparr>
      else w)"

definition stream_world_start :: "replication_stream \<Rightarrow> snapshot_receiver \<Rightarrow> 'h stream_world" where
  "stream_world_start s r = \<lparr>sw_stream = s, sw_sent = [], sw_log = [], sw_receiver = r\<rparr>"

definition stream_run :: "(bytes \<Rightarrow> 'h) \<Rightarrow> stream_event list \<Rightarrow> 'h stream_world \<Rightarrow> 'h stream_world" where
  "stream_run digest events w = foldl (stream_exec digest) w events"

text \<open>What a packet of the log says about the state it was made from.\<close>

definition packet_of :: "(bytes \<Rightarrow> 'h) \<Rightarrow> (u64 \<times> bytes) set \<Rightarrow> u64 \<times> bytes \<Rightarrow> 'h packet \<Rightarrow> bool" where
  "packet_of digest sent x p \<longleftrightarrow> pk_tick p = fst x \<and> pk_state_hash p = digest (snd x) \<and>
     (case pk_kind p of
        Keyframe \<Rightarrow> pk_base_tick p = 0 \<and> pk_payload p = snd x
      | Delta \<Rightarrow> \<exists>base. (pk_base_tick p, base) \<in> sent \<and> xor_delta base (snd x) = Inr (pk_payload p))"

definition stream_world_inv :: "(bytes \<Rightarrow> 'h) \<Rightarrow> 'h stream_world \<Rightarrow> bool" where
  "stream_world_inv digest w \<longleftrightarrow>
     sorted_wrt (<) (map fst (sw_sent w)) \<and>
     rst_previous (sw_stream w) = (if sw_sent w = [] then None else Some (last (sw_sent w))) \<and>
     list_all2 (packet_of digest (set (sw_sent w))) (sw_sent w) (sw_log w) \<and>
     set_option (sr_current (sw_receiver w)) \<subseteq> set (sw_sent w)"

text \<open>A link to a receiver that is up or down for each packet, as a list says.\<close>

fun link_sink ::
    "(bytes \<Rightarrow> 'h) \<Rightarrow> snapshot_receiver \<times> bool list \<Rightarrow> 'h packet \<Rightarrow> (core_error + unit) \<times> snapshot_receiver \<times> bool list" where
  "link_sink digest (r, True # ups) p =
     (case snapshot_receiver_apply digest r p of
        (Inl e, r') \<Rightarrow> (Inl e, r', ups)
      | (Inr _, r') \<Rightarrow> (Inr (), r', ups))"
| "link_sink digest (r, ups) p = (Inl Unavailable, r, tl ups)"

definition publisher_run ::
    "(bytes \<Rightarrow> 'h) \<Rightarrow> ('s \<Rightarrow> core_error + bytes) \<Rightarrow> ('k \<Rightarrow> 'h packet \<Rightarrow> (core_error + unit) \<times> 'k) \<Rightarrow>
     ('s, 'h) snapshot list \<Rightarrow> 'k replication_publisher \<Rightarrow> 'k replication_publisher" where
  "publisher_run digest encoder sink snapshots p =
     foldl (\<lambda>p s. snd (publisher_publish digest encoder sink p s)) p snapshots"

definition link_inv :: "stream_config \<Rightarrow> (snapshot_receiver \<times> bool list) replication_publisher \<Rightarrow> bool" where
  "link_inv config p \<longleftrightarrow>
     (let s = rp_stream p; r = fst (rp_sink p)
      in \<not> rp_poisoned p \<and> rst_config s = config \<and> rst_room s = sr_room r \<and> sc_max_payload config \<le> sr_max r \<and>
         (case sr_current r of
            None \<Rightarrow> rst_force s \<or> rst_previous s = None
          | Some (t, state) \<Rightarrow>
              (case rst_previous s of
                 None \<Rightarrow> False
               | Some (t', state') \<Rightarrow> t \<le> t' \<and> (rst_force s \<or> (t, state) = (t', state')))))"

subsection \<open>Differences are exact\<close>

lemma pop_zeros_spec:
  "(\<forall>i. byte_at (rev (pop_zeros (rev xs))) i = byte_at xs i) \<and>
   take 4 (rev (pop_zeros (rev xs))) = take 4 xs \<and> length (pop_zeros (rev xs)) \<le> length xs"
proof (induction xs rule: rev_induct)
  case (snoc x xs)
  have "byte_at (xs @ [0]) i = byte_at xs i" for i
    by (auto simp: byte_at_def nth_append less_Suc_eq)
  with snoc show ?case by auto
qed (simp add: byte_at_def)

lemma xor_delta_length: "xor_delta base now = Inr d \<Longrightarrow> 4 \<le> length d"
proof -
  assume "xor_delta base now = Inr d"
  then have d: "d = rev (pop_zeros (rev (be_put 4 (length now) @ map (\<lambda>i. now ! i XOR byte_at base i) [0..<length now])))"
    (is "d = rev (pop_zeros (rev (?h @ ?xs)))")
    by (auto simp: xor_delta_def split: if_splits)
  have "take 4 d = take 4 (?h @ ?xs)" unfolding d using pop_zeros_spec by blast
  then have "length (take 4 d) = 4" by (simp add: length_be_put)
  then show ?thesis by simp
qed

lemma xor_apply_delta:
  assumes "xor_delta base now = Inr d"
  shows "xor_apply base d = Inr now"
proof -
  let ?xs = "map (\<lambda>i. now ! i XOR byte_at base i) [0..<length now]"
  have small: "length now < 256 ^ 4"
    and d: "d = rev (pop_zeros (rev (be_put 4 (length now) @ ?xs)))"
    using assms by (auto simp: xor_delta_def split: if_splits)
  have head: "take 4 d = be_put 4 (length now)" and at: "byte_at d i = byte_at (be_put 4 (length now) @ ?xs) i" for i
    unfolding d using pop_zeros_spec [of "be_put 4 (length now) @ ?xs"] by (simp_all add: length_be_put)
  have "byte_at base i XOR byte_at d (i + 4) = now ! i" if "i < length now" for i
  proof -
    have "byte_at d (i + 4) = now ! i XOR byte_at base i"
      using that by (subst at) (simp add: byte_at_def nth_append)
    then show ?thesis by (simp add: xor.left_commute)
  qed
  then have "map (\<lambda>i. byte_at base i XOR byte_at d (i + 4)) [0..<length now] = now"
    by (intro nth_equalityI) simp_all
  with head xor_delta_length [OF assms] small show ?thesis
    by (simp add: xor_apply_def be_val_put)
qed

text \<open>The differences meet the contract of the entity replication's codec.\<close>

interpretation xor_codec: delta_codec
  "\<lambda>(_ :: nat) previous current. case xor_delta (vs_state previous) (vs_state current) of
     Inl _ \<Rightarrow> None | Inr d \<Rightarrow> Some d"
  "\<lambda>_ base d. case xor_apply base d of Inl _ \<Rightarrow> None | Inr state \<Rightarrow> Some state"
  by unfold_locales (simp add: xor_apply_delta split: sum.splits)

subsection \<open>Whatever is delivered was sent\<close>

lemma packet_of_mono: "packet_of digest sent x p \<Longrightarrow> sent \<subseteq> sent' \<Longrightarrow> packet_of digest sent' x p"
  by (auto simp: packet_of_def split: packet_kind.splits)

lemma sent_unique:
  "stream_world_inv digest w \<Longrightarrow> (t, a) \<in> set (sw_sent w) \<Longrightarrow> (t, b) \<in> set (sw_sent w) \<Longrightarrow> a = b"
  by (auto simp: stream_world_inv_def strict_sorted_iff dest: eq_key_imp_eq_value)

lemma stream_packet_Inr:
  assumes inv: "stream_world_inv digest w" and packet: "stream_packet digest (sw_stream w) tick state = (Inr p, s)"
  shows "packet_of digest (set (sw_sent w)) (tick, state) p \<and> rst_previous s = Some (tick, state) \<and>
    (\<forall>x \<in> set (sw_sent w). fst x < tick)"
proof -
  have newer: "case rst_previous (sw_stream w) of None \<Rightarrow> True | Some (t, _) \<Rightarrow> t < tick"
    using packet by (auto simp: stream_packet_def not_le split: if_splits option.splits prod.splits)
  have body: "stream_body (sw_stream w) tick state = Inr (pk_base_tick p, pk_kind p, pk_payload p)"
    "pk_tick p = tick" "pk_state_hash p = digest state" "rst_previous s = Some (tick, state)"
    using packet by (auto simp: stream_packet_def split: if_splits sum.splits prod.splits)
  have "x \<in> set (sw_sent w)" if "rst_previous (sw_stream w) = Some x" for x
    using that inv by (auto simp: stream_world_inv_def split: if_splits)
  with body have "packet_of digest (set (sw_sent w)) (tick, state) p"
    by (auto simp: packet_of_def stream_body_def split: option.splits if_splits sum.splits)
  moreover have "fst x < tick" if "x \<in> set (sw_sent w)" for x
  proof -
    have "fst x \<le> fst (last (sw_sent w))"
      using that inv by (intro sorted_key_le_last) (auto simp: stream_world_inv_def strict_sorted_imp_sorted)
    with that newer inv show ?thesis
      by (auto simp: stream_world_inv_def split: if_splits prod.splits)
  qed
  ultimately show ?thesis using body by blast
qed

lemma stream_apply:
  assumes inv: "stream_world_inv digest w" and i: "i < length (sw_log w)"
  defines "r \<equiv> sw_receiver w" and "p \<equiv> sw_log w ! i" and "tick \<equiv> fst (sw_sent w ! i)"
    and "state \<equiv> snd (sw_sent w ! i)"
  shows "let (result, r') = snapshot_receiver_apply digest r p
    in if pk_room_id p = sr_room r \<and> tick \<noteq> 0 \<and> length (pk_payload p) \<le> sr_max r \<and> length state \<le> sr_max r \<and>
          (case sr_current r of
             None \<Rightarrow> pk_kind p = Keyframe
           | Some (t, _) \<Rightarrow> t < tick \<and> (pk_kind p = Keyframe \<or> t = pk_base_tick p))
       then result = Inr state \<and> r' = r\<lparr>sr_current := Some (tick, state)\<rparr>
       else (\<exists>e. result = Inl e) \<and> r' = r"
proof -
  have of_p: "packet_of digest (set (sw_sent w)) (tick, state) p"
    using inv i by (simp add: stream_world_inv_def list_all2_conv_all_nth p_def tick_def state_def)
  have delta: "xor_apply base (pk_payload p) = Inr state"
    if kind: "pk_kind p = Delta" and current: "sr_current r = Some (pk_base_tick p, base)" for base
  proof -
    have "(pk_base_tick p, base) \<in> set (sw_sent w)"
      using current inv by (simp add: stream_world_inv_def r_def)
    moreover obtain base' where "(pk_base_tick p, base') \<in> set (sw_sent w)"
      "xor_delta base' state = Inr (pk_payload p)"
      using of_p kind by (auto simp: packet_of_def)
    ultimately show ?thesis
      using sent_unique [OF inv] xor_apply_delta by metis
  qed
  have same: "pk_tick p = tick" "pk_state_hash p = digest state"
    "pk_kind p = Keyframe \<Longrightarrow> pk_base_tick p = 0 \<and> pk_payload p = state"
    using of_p by (simp_all add: packet_of_def)
  show ?thesis
  proof (cases "pk_kind p")
    case Keyframe
    with same show ?thesis
      by (simp add: snapshot_receiver_apply_def receiver_state_def not_le not_less split: option.splits)
  next
    case Delta
    show ?thesis
    proof (cases "sr_current r")
      case (Some x)
      obtain t base where x: "x = (t, base)" by (cases x)
      with Some Delta delta same show ?thesis
        by (cases "t = pk_base_tick p")
          (simp_all add: snapshot_receiver_apply_def receiver_state_def not_le not_less)
    qed (simp add: snapshot_receiver_apply_def receiver_state_def Delta)
  qed
qed

lemma stream_exec_inv: "stream_world_inv digest w \<Longrightarrow> stream_world_inv digest (stream_exec digest w event)"
proof (induction digest w event rule: stream_exec.induct)
  case (1 digest w tick state)
  show ?case
  proof (cases "stream_packet digest (sw_stream w) tick state")
    case (Pair result s)
    show ?thesis
    proof (cases result)
      case (Inl e)
      with Pair have "s = sw_stream w"
        by (auto simp: stream_packet_def split: if_splits sum.splits)
      with 1 Pair Inl show ?thesis by simp
    next
      case (Inr p)
      note new = stream_packet_Inr [OF 1 Pair [unfolded Inr]]
      have "list_all2 (packet_of digest (insert (tick, state) (set (sw_sent w)))) (sw_sent w) (sw_log w)"
        using 1 by (auto simp: stream_world_inv_def elim!: list_all2_mono packet_of_mono)
      then have "list_all2 (packet_of digest (insert (tick, state) (set (sw_sent w))))
          (sw_sent w @ [(tick, state)]) (sw_log w @ [p])"
        using new by (intro list_all2_appendI) (auto intro: packet_of_mono)
      with 1 new Pair Inr show ?thesis
        by (auto simp: stream_world_inv_def sorted_wrt_append)
    qed
  qed
next
  case (2 digest w)
  then show ?case by (simp add: stream_world_inv_def stream_force_keyframe_def)
next
  case (3 digest w i)
  show ?case
  proof (cases "i < length (sw_log w)")
    case True
    then have "sw_sent w ! i \<in> set (sw_sent w)"
      using 3 by (auto simp: stream_world_inv_def dest: list_all2_lengthD)
    with 3 True show ?thesis
      using stream_apply [OF 3 True] by (auto simp: stream_world_inv_def Let_def split: prod.splits if_splits)
  qed (use 3 in simp)
qed

lemma stream_run_inv: "stream_world_inv digest w \<Longrightarrow> stream_world_inv digest (stream_run digest events w)"
  unfolding stream_run_def by (induction events arbitrary: w) (simp_all add: stream_exec_inv)

subsection \<open>Failing links\<close>

lemma stream_accepts:
  assumes "tick \<noteq> 0" "length state \<le> sc_max_payload (rst_config s)" "sc_max_payload (rst_config s) < 2 ^ 32"
    and "case rst_previous s of None \<Rightarrow> True | Some (t, _) \<Rightarrow> t < tick"
  shows "\<exists>p. stream_packet digest s tick state = (Inr p, s\<lparr>rst_previous := Some (tick, state), rst_force := False\<rparr>)"
  using assms
  by (auto simp: stream_packet_def stream_body_def xor_delta_def Let_def split: option.splits)

lemma link_accepts:
  assumes inv: "link_inv config p" and packet: "stream_packet digest (rp_stream p) tick state = (Inr pkt, s)"
  shows "snapshot_receiver_apply digest (fst (rp_sink p)) (pkt\<lparr>pk_elapsed := elapsed\<rparr>) =
    (Inr state, (fst (rp_sink p))\<lparr>sr_current := Some (tick, state)\<rparr>)"
proof -
  let ?s = "rp_stream p" and ?r = "fst (rp_sink p)"
  have fields: "pk_room_id pkt = sr_room ?r" "pk_tick pkt = tick" "tick \<noteq> 0" "pk_state_hash pkt = digest state"
    "length state \<le> sr_max ?r" "case rst_previous ?s of None \<Rightarrow> True | Some (t, _) \<Rightarrow> t < tick"
    and body: "stream_body ?s tick state = Inr (pk_base_tick pkt, pk_kind pkt, pk_payload pkt)"
    using packet inv
    by (auto simp: stream_packet_def link_inv_def Let_def not_le split: if_splits sum.splits option.splits)
  have newer: "case sr_current ?r of None \<Rightarrow> True | Some (t, _) \<Rightarrow> t < tick"
    using inv fields(6) by (auto simp: link_inv_def Let_def split: option.splits)
  have fits: "length (pk_payload pkt) \<le> length state"
    using body by (auto simp: stream_body_def split: option.splits if_splits sum.splits)
  have "receiver_state ?r (pkt\<lparr>pk_elapsed := elapsed\<rparr>) = Inr state"
  proof (cases "pk_kind pkt")
    case Keyframe
    then show ?thesis
      using body by (auto simp: receiver_state_def stream_body_def split: option.splits if_splits sum.splits)
  next
    case Delta
    then obtain base where "rst_previous ?s = Some (pk_base_tick pkt, base)" "\<not> rst_force ?s"
      "xor_delta base state = Inr (pk_payload pkt)"
      using body by (auto simp: stream_body_def split: option.splits if_splits sum.splits)
    with Delta inv show ?thesis
      by (auto simp: receiver_state_def link_inv_def Let_def xor_apply_delta split: option.splits)
  qed
  with fields newer fits show ?thesis
    by (auto simp: snapshot_receiver_apply_def not_le split: option.splits)
qed

lemma link_publish_inv:
  assumes inv: "link_inv config p"
  shows "link_inv config (snd (publisher_publish digest encoder (link_sink digest) p snapshot))"
proof (cases "encoder (snap_state snapshot)")
  case (Inr state)
  let ?s = "rp_stream p"
  obtain r ups where sink: "rp_sink p = (r, ups)" by fastforce
  have live: "\<not> rp_poisoned p" using inv by (simp add: link_inv_def Let_def)
  obtain result s where packet: "stream_packet digest ?s (snap_tick snapshot) state = (result, s)"
    by fastforce
  show ?thesis
  proof (cases result)
    case (Inl e)
    with packet have "s = ?s" by (auto simp: stream_packet_def split: if_splits sum.splits)
    with Inr Inl packet live inv show ?thesis by (simp add: publisher_publish_def)
  next
    case pkt: (Inr pkt)
    note accepted = link_accepts [OF inv packet [unfolded pkt], of "snap_elapsed snapshot"]
    have s: "s = ?s\<lparr>rst_previous := Some (snap_tick snapshot, state), rst_force := False\<rparr>"
      "case rst_previous ?s of None \<Rightarrow> True | Some (t, _) \<Rightarrow> t < snap_tick snapshot"
      using packet pkt
      by (auto simp: stream_packet_def not_le split: if_splits sum.splits option.splits)
    show ?thesis
      using inv accepted s packet pkt Inr live sink
      by (cases "(digest, (r, ups), pkt)" rule: link_sink.cases)
        (auto simp: publisher_publish_def link_inv_def Let_def publisher_force_keyframe_def
          stream_force_keyframe_def split: option.splits)
  qed
qed (simp add: publisher_publish_def inv)

lemma link_run_inv:
  "link_inv config p \<Longrightarrow> link_inv config (publisher_run digest encoder (link_sink digest) snapshots p)"
  unfolding publisher_run_def by (induction snapshots arbitrary: p) (simp_all add: link_publish_inv)

subsection \<open>Properties\<close>

text \<open>C34. A receiver of snapshots never shows a state that was not sent: however the packets of a
stream are lost, duplicated and reordered, its current tick and state are one the stream sent.
A packet is accepted exactly when it fits, is newer than the current state and is a keyframe
or a difference to that very state; it then yields the state it was made from, and a
refused packet changes nothing. None of this rests on the hash function.\<close>

theorem snapshot_delivery:
  fixes digest :: "bytes \<Rightarrow> 'h" and events :: "stream_event list"
  assumes "replication_stream_new room config = Inr s" "snapshot_receiver_new room' limit = Inr r"
  defines "w \<equiv> stream_run digest events (stream_world_start s r)"
  shows "set_option (sr_current (sw_receiver w)) \<subseteq> set (sw_sent w) \<and>
    (\<forall>i < length (sw_log w). let p = sw_log w ! i; (tick, state) = sw_sent w ! i;
       (result, r') = snapshot_receiver_apply digest (sw_receiver w) p
     in if pk_room_id p = sr_room (sw_receiver w) \<and> tick \<noteq> 0 \<and>
           length (pk_payload p) \<le> sr_max (sw_receiver w) \<and> length state \<le> sr_max (sw_receiver w) \<and>
           (case sr_current (sw_receiver w) of
              None \<Rightarrow> pk_kind p = Keyframe
            | Some (t, _) \<Rightarrow> t < tick \<and> (pk_kind p = Keyframe \<or> t = pk_base_tick p))
        then result = Inr state \<and> r' = (sw_receiver w)\<lparr>sr_current := Some (tick, state)\<rparr>
        else (\<exists>e. result = Inl e) \<and> r' = sw_receiver w)"
proof -
  have "stream_world_inv digest (stream_world_start s r)"
    using assms(1,2)
    by (auto simp: stream_world_inv_def stream_world_start_def replication_stream_new_def
        snapshot_receiver_new_def split: if_splits)
  then have inv: "stream_world_inv digest w" unfolding w_def by (rule stream_run_inv)
  then have "set_option (sr_current (sw_receiver w)) \<subseteq> set (sw_sent w)"
    by (simp add: stream_world_inv_def)
  then show ?thesis using stream_apply [OF inv] by (simp add: Let_def case_prod_beta)
qed

text \<open>C35. A publisher recovers from any failures of its link: after any snapshots over a link that
was down for any of them, the next newer snapshot that fits is published as soon as the link
is up, and the receiver then holds exactly its state.\<close>

theorem snapshot_publish_catches_up:
  fixes digest :: "bytes \<Rightarrow> 'h" and encoder :: "'s \<Rightarrow> core_error + bytes"
    and snapshots :: "('s, 'h) snapshot list" and ups :: "bool list"
  assumes "replication_stream_new room config = Inr s" "snapshot_receiver_new room limit = Inr r"
    and "sc_max_payload config \<le> limit" "sc_max_payload config < 2 ^ 32"
  defines "p \<equiv> publisher_run digest encoder (link_sink digest) snapshots (publisher_new s (r, ups))"
  assumes "snd (rp_sink p) = True # later" "encoder (snap_state snapshot) = Inr state"
    and "snap_tick snapshot \<noteq> 0" "length state \<le> sc_max_payload config"
    and "case rst_previous (rp_stream p) of None \<Rightarrow> True | Some (t, _) \<Rightarrow> t < snap_tick snapshot"
  shows "fst (publisher_publish digest encoder (link_sink digest) p snapshot) = Inr () \<and>
    sr_current (fst (rp_sink (snd (publisher_publish digest encoder (link_sink digest) p snapshot)))) =
      Some (snap_tick snapshot, state)"
proof -
  have "link_inv config (publisher_new s (r, ups))"
    using assms(1-3)
    by (auto simp: link_inv_def publisher_new_def replication_stream_new_def snapshot_receiver_new_def
        split: if_splits)
  then have inv: "link_inv config p" unfolding p_def by (rule link_run_inv)
  then have live: "\<not> rp_poisoned p" "rst_config (rp_stream p) = config" by (simp_all add: link_inv_def Let_def)
  obtain pkt where packet: "stream_packet digest (rp_stream p) (snap_tick snapshot) state =
      (Inr pkt, (rp_stream p)\<lparr>rst_previous := Some (snap_tick snapshot, state), rst_force := False\<rparr>)"
    using stream_accepts [of "snap_tick snapshot" state "rp_stream p" digest] assms(4,8-10) live by auto
  have "rp_sink p = (fst (rp_sink p), True # later)" using assms(6) by (metis prod.collapse)
  then obtain r' where "rp_sink p = (r', True # later)" by blast
  with packet live assms(7) link_accepts [OF inv packet, of "snap_elapsed snapshot"] show ?thesis
    by (simp add: publisher_publish_def)
qed

text \<open>Two states of six bytes; the second differs in its first byte and travels as a difference.\<close>

definition snap_demo_config :: stream_config where
  "snap_demo_config = \<lparr>sc_keyframe_interval = 60, sc_max_payload = 64\<rparr>"

definition snap_demo_stream :: replication_stream where
  "snap_demo_stream = \<lparr>rst_room = ''r'', rst_config = snap_demo_config, rst_previous = None, rst_force = True\<rparr>"

definition snap_demo_receiver :: snapshot_receiver where
  "snap_demo_receiver = \<lparr>sr_room = ''r'', sr_max = 64, sr_current = None\<rparr>"

definition snap_demo :: "bytes stream_world" where
  "snap_demo = stream_run (\<lambda>state. state)
     [Emit 1 [1, 2, 3, 4, 5, 6], Emit 2 [9, 2, 3, 4, 5, 6], Deliver 1, Deliver 0]
     (stream_world_start snap_demo_stream snap_demo_receiver)"

lemma snap_demo_new:
  "replication_stream_new ''r'' snap_demo_config = Inr snap_demo_stream"
  "snapshot_receiver_new ''r'' 64 = Inr snap_demo_receiver"
  by (simp_all add: replication_stream_new_def snapshot_receiver_new_def snap_demo_config_def
      snap_demo_stream_def snap_demo_receiver_def)

lemma snap_demo_delta: "xor_delta [1, 2, 3, 4, 5, 6] [9, 2, 3, 4, 5, 6] = Inr [0, 0, 0, 6, 8]"
  by (simp add: xor_delta_def byte_at_def upt_conv_Cons be_put_unfold(1) be_put_2)

lemma snap_demo_state:
  "sw_receiver snap_demo = snap_demo_receiver\<lparr>sr_current := Some (1, [1, 2, 3, 4, 5, 6])\<rparr>"
  "sw_sent snap_demo = [(1, [1, 2, 3, 4, 5, 6]), (2, [9, 2, 3, 4, 5, 6])]"
  "sw_log snap_demo ! Suc 0 = \<lparr>pk_room_id = ''r'', pk_tick = 2, pk_elapsed = 0, pk_base_tick = 1,
     pk_kind = Delta, pk_payload = [0, 0, 0, 6, 8], pk_state_hash = [9, 2, 3, 4, 5, 6]\<rparr>"
  "length (sw_log snap_demo) = 2"
  by (simp_all add: snap_demo_def stream_run_def stream_world_start_def stream_packet_def stream_body_def
      snap_demo_delta snap_demo_stream_def snap_demo_config_def snap_demo_receiver_def
      snapshot_receiver_apply_def receiver_state_def word_le_nat_alt)

theorem snapshot_delivery_witness:
  "snapshot_receiver_apply (\<lambda>state. state) (sw_receiver snap_demo) (sw_log snap_demo ! 1) =
     (Inr [9, 2, 3, 4, 5, 6], snap_demo_receiver\<lparr>sr_current := Some (2, [9, 2, 3, 4, 5, 6])\<rparr>)"
proof -
  have "1 < length (sw_log snap_demo)" by (simp add: snap_demo_state)
  from snapshot_delivery [OF snap_demo_new, of "\<lambda>state. state"
      "[Emit 1 [1, 2, 3, 4, 5, 6], Emit 2 [9, 2, 3, 4, 5, 6], Deliver 1, Deliver 0]",
      folded snap_demo_def, THEN conjunct2, rule_format, OF this]
  show ?thesis
    by (simp add: snap_demo_state Let_def case_prod_beta snap_demo_receiver_def prod_eq_iff word_less_nat_alt)
qed

definition snap_demo_snapshot :: "u64 \<Rightarrow> bytes \<Rightarrow> (bytes, bytes) snapshot" where
  "snap_demo_snapshot tick state =
     \<lparr>snap_room_id = ''r'', snap_tick = tick, snap_elapsed = 0, snap_state = state, snap_state_hash = []\<rparr>"

theorem snapshot_publish_catches_up_witness:
  "sr_current (fst (rp_sink (snd (publisher_publish (\<lambda>state. state) Inr (link_sink (\<lambda>state. state))
     (publisher_run (\<lambda>state. state) Inr (link_sink (\<lambda>state. state)) [snap_demo_snapshot 1 [1, 2, 3, 4, 5, 6]]
       (publisher_new snap_demo_stream (snap_demo_receiver, [False, True])))
     (snap_demo_snapshot 2 [9, 2, 3, 4, 5, 6]))))) = Some (2, [9, 2, 3, 4, 5, 6])"
  (is "sr_current (fst (rp_sink (snd (publisher_publish _ _ _ ?p _)))) = _")
proof -
  have run: "snd (rp_sink ?p) = [True]" "rst_previous (rp_stream ?p) = Some (1, [1, 2, 3, 4, 5, 6])"
    by (simp_all add: publisher_run_def publisher_publish_def snap_demo_snapshot_def publisher_new_def
        stream_packet_def stream_body_def snap_demo_stream_def snap_demo_config_def
        publisher_force_keyframe_def stream_force_keyframe_def)
  show ?thesis
    using snapshot_publish_catches_up [OF snap_demo_new, of "\<lambda>state. state" Inr
        "[snap_demo_snapshot 1 [1, 2, 3, 4, 5, 6]]" "[False, True]" "[]" "snap_demo_snapshot 2 [9, 2, 3, 4, 5, 6]"
        "[9, 2, 3, 4, 5, 6]"] run
    by (simp add: snap_demo_config_def snap_demo_snapshot_def)
qed

end
