(* ===== verification/Realtime_Room.thy ===== *)
theory Realtime_Room
  imports Snapshot_Replication Session "HOL-Library.Product_Lexorder"
begin

section \<open>The authoritative realtime room\<close>

text \<open>
  Model of \<open>crates/elura-core/src/realtime.rs\<close>: a room schedules the commands of its players,
  advances a simulation tick by tick and rolls it back when a command arrives for a tick that is
  already past but not final.

  The simulation, the observer and the publisher are the application's; their methods are the
  fields of \<open>simulation_ops\<close>, \<open>observer_ops\<close> and \<open>publisher_ops\<close>, with a state of
  their own that the room carries. A publication yields \<open>None\<close> when the publish timeout strikes.
  The channel of submitted commands is a list in order of arrival, the binary heap of scheduled
  commands a list in the order in which it pops them. The tick duration, which the code derives
  in floating point, is an argument of the constructor, and so is the time a tick takes.
\<close>

subsection \<open>Data\<close>

record realtime_config =
  rc_tick_rate :: u32
  rc_input_delay_ticks :: u64
  rc_max_future_input_ticks :: u64
  rc_command_capacity :: usize
  rc_max_pending_commands :: usize
  rc_max_commands_per_tick :: usize
  rc_snapshot_interval :: u64
  rc_rollback_window_ticks :: u64
  rc_max_snapshot_bytes :: usize
  rc_publish_timeout :: duration

record 'c command =
  cm_player :: player_key
  cm_sequence :: u64
  cm_value :: 'c

record tick =
  tk_number :: u64
  tk_delta :: duration
  tk_elapsed :: duration

record finalization =
  fin_room_id :: string
  fin_through_tick :: u64
  fin_elapsed :: duration

record ('s, 'c, 'n) simulation_ops =
  so_apply :: "'s \<Rightarrow> 'c command \<Rightarrow> (core_error + unit) \<times> 's"
  so_step :: "'s \<Rightarrow> tick \<Rightarrow> (core_error + unit) \<times> 's"
  so_snapshot :: "'s \<Rightarrow> tick \<Rightarrow> core_error + 'n"
  so_encode :: "'s \<Rightarrow> 'n \<Rightarrow> core_error + bytes"
  so_restore :: "'s \<Rightarrow> tick \<Rightarrow> 'n \<Rightarrow> (core_error + unit) \<times> 's"

record ('c, 'n, 'h, 'o) observer_ops =
  ob_command :: "'o \<Rightarrow> u64 \<Rightarrow> 'c command \<Rightarrow> (core_error + unit) \<times> 'o"
  ob_tick :: "'o \<Rightarrow> tick \<Rightarrow> (core_error + unit) \<times> 'o"
  ob_snapshot :: "'o \<Rightarrow> tick \<Rightarrow> 'n \<Rightarrow> 'h \<Rightarrow> (core_error + unit) \<times> 'o"
  ob_rollback :: "'o \<Rightarrow> u64 \<Rightarrow> u64 \<Rightarrow> (core_error + unit) \<times> 'o"

record ('n, 'h, 'p) publisher_ops =
  pb_publish :: "'p \<Rightarrow> ('n, 'h) snapshot \<Rightarrow> (core_error + unit) option \<times> 'p"
  pb_force_keyframe :: "'p \<Rightarrow> 'p"

text \<open>The code a room is built on: the digest and the application's objects.\<close>

record ('s, 'c, 'n, 'h, 'o, 'p) room_env =
  re_digest :: "bytes \<Rightarrow> 'h"
  re_simulation :: "('s, 'c, 'n) simulation_ops"
  re_observer :: "('c, 'n, 'h, 'o) observer_ops option"
  re_publisher :: "('n, 'h, 'p) publisher_ops option"

record room_counters =
  ct_ticks :: u64
  ct_tick_failures :: u64
  ct_tick_nanos :: u64
  ct_max_tick_nanos :: u64
  ct_accepted :: u64
  ct_queue_full :: u64
  ct_received :: u64
  ct_applied :: u64
  ct_rejected :: u64
  ct_duplicates :: u64
  ct_late :: u64
  ct_snapshots :: u64
  ct_snapshot_errors :: u64
  ct_published :: u64
  ct_publication_errors :: u64
  ct_observer_errors :: u64
  ct_rollbacks :: u64
  ct_rollback_failures :: u64
  ct_resimulated :: u64
  ct_finalizations :: u64

record room_stats =
  rt_current_tick :: u64
  rt_finalized_tick :: u64
  rt_ticks_completed :: u64
  rt_tick_failures :: u64
  rt_tick_duration_nanos :: u64
  rt_max_tick_duration_nanos :: u64
  rt_commands_accepted :: u64
  rt_commands_queue_full :: u64
  rt_command_queue_depth :: u64
  rt_commands_received :: u64
  rt_commands_applied :: u64
  rt_commands_rejected :: u64
  rt_duplicates :: u64
  rt_late_commands :: u64
  rt_snapshots_created :: u64
  rt_snapshot_errors :: u64
  rt_publications_completed :: u64
  rt_publication_errors :: u64
  rt_observer_errors :: u64
  rt_rollbacks_completed :: u64
  rt_rollback_failures :: u64
  rt_ticks_resimulated :: u64
  rt_finalization_updates :: u64

record 'c submitted =
  sb_target :: u64
  sb_command :: "'c command"

record 'c scheduled =
  sd_target :: u64
  sd_order :: u64
  sd_command :: "'c command"

record ('c, 'n, 'h) tick_record =
  tr_commands :: "'c command list"
  tr_snapshot :: 'n
  tr_hash :: 'h

record ('s, 'c, 'n, 'h, 'o, 'p) realtime_room =
  rr_id :: string
  rr_config :: realtime_config
  rr_delta :: duration
  rr_simulation :: 's
  rr_queue :: "'c submitted list"
  rr_pending :: "'c scheduled list"
  rr_history :: "(u64 \<times> ('c, 'n, 'h) tick_record) list"
  rr_sequences :: "(player_key \<times> u64) list"
  rr_order :: u64
  rr_initialized :: bool
  rr_snapshots :: "'n option"
  rr_finalizations :: "finalization option"
  rr_current :: u64
  rr_finalized :: u64
  rr_running :: bool
  rr_counters :: room_counters
  rr_observer :: 'o
  rr_publisher :: 'p

subsection \<open>Configuration and constructor\<close>

definition realtime_config_default :: realtime_config where
  "realtime_config_default = \<lparr>rc_tick_rate = 30, rc_input_delay_ticks = 2,
     rc_max_future_input_ticks = 600, rc_command_capacity = 1024, rc_max_pending_commands = 4096,
     rc_max_commands_per_tick = 256, rc_snapshot_interval = 2, rc_rollback_window_ticks = 0,
     rc_max_snapshot_bytes = 16777216, rc_publish_timeout = millis 50\<rparr>"

definition realtime_config_validate :: "realtime_config \<Rightarrow> core_error + unit" where
  "realtime_config_validate c =
     (if rc_tick_rate c < 1 \<or> 240 < rc_tick_rate c \<or> rc_max_future_input_ticks c = 0
         \<or> rc_command_capacity c = 0 \<or> rc_max_pending_commands c = 0
         \<or> rc_max_commands_per_tick c = 0 \<or> rc_snapshot_interval c = 0
         \<or> 10000 < rc_rollback_window_ticks c \<or> rc_max_snapshot_bytes c = 0
         \<or> rc_publish_timeout c = 0
      then Inl (core_error.InvalidConfig ''invalid room limits'') else Inr ())"

definition room_counters_default :: room_counters where
  "room_counters_default = \<lparr>ct_ticks = 0, ct_tick_failures = 0, ct_tick_nanos = 0,
     ct_max_tick_nanos = 0, ct_accepted = 0, ct_queue_full = 0, ct_received = 0, ct_applied = 0,
     ct_rejected = 0, ct_duplicates = 0, ct_late = 0, ct_snapshots = 0, ct_snapshot_errors = 0,
     ct_published = 0, ct_publication_errors = 0, ct_observer_errors = 0, ct_rollbacks = 0,
     ct_rollback_failures = 0, ct_resimulated = 0, ct_finalizations = 0\<rparr>"

definition realtime_room_new ::
    "(u32 \<Rightarrow> duration) \<Rightarrow> string \<Rightarrow> realtime_config \<Rightarrow> 's \<Rightarrow> 'o \<Rightarrow> 'p \<Rightarrow>
     core_error + ('s, 'c, 'n, 'h, 'o, 'p) realtime_room" where
  "realtime_room_new delta_of i config simulation observer publisher =
     (case realtime_config_validate config of
        Inl e \<Rightarrow> Inl e
      | Inr _ \<Rightarrow>
          if i = [] \<or> 128 < length i then Inl (core_error.InvalidConfig ''invalid room id'')
          else Inr \<lparr>rr_id = i, rr_config = config, rr_delta = delta_of (rc_tick_rate config),
            rr_simulation = simulation, rr_queue = [], rr_pending = [], rr_history = [],
            rr_sequences = [], rr_order = 0, rr_initialized = False, rr_snapshots = None,
            rr_finalizations = None, rr_current = 0, rr_finalized = 0, rr_running = False,
            rr_counters = room_counters_default, rr_observer = observer, rr_publisher = publisher\<rparr>)"

text \<open>\<open>fetch_add(1)\<close> on a counter, given by its update function.\<close>

definition bump ::
    "((u64 \<Rightarrow> u64) \<Rightarrow> room_counters \<Rightarrow> room_counters) \<Rightarrow> ('s, 'c, 'n, 'h, 'o, 'p) realtime_room \<Rightarrow> ('s, 'c, 'n, 'h, 'o, 'p) realtime_room" where
  "bump field room = room\<lparr>rr_counters := field (\<lambda>n. n + 1) (rr_counters room)\<rparr>"

definition realtime_tick :: "('s, 'c, 'n, 'h, 'o, 'p) realtime_room \<Rightarrow> u64 \<Rightarrow> tick" where
  "realtime_tick room number =
     \<lparr>tk_number = number, tk_delta = rr_delta room,
      tk_elapsed = dur_sat_mul (rr_delta room) (if number < 2 ^ 32 then unat number else 2 ^ 32 - 1)\<rparr>"

subsection \<open>Submitting commands\<close>

definition realtime_validate :: "('s, 'c, 'n, 'h, 'o, 'p) realtime_room \<Rightarrow> u64 \<Rightarrow> 'c command \<Rightarrow> core_error + unit" where
  "realtime_validate room target c =
     (if target = 0 \<or> isl (player_key_validate (cm_player c)) \<or> cm_sequence c = 0
         \<or> sat_add (rr_current room) (rc_max_future_input_ticks (rr_config room)) < target
      then Inl (core_error.InvalidConfig ''invalid room command'')
      else if target \<le> rr_current room \<and>
              (rc_rollback_window_ticks (rr_config room) = 0 \<or> target \<le> rr_finalized room)
      then Inl (core_error.InvalidConfig ''target tick cannot be changed'')
      else Inr ())"

text \<open>A command enters the channel; \<open>None\<close> while the channel is full and the caller waits.\<close>

definition realtime_send :: "('s, 'c, 'n, 'h, 'o, 'p) realtime_room \<Rightarrow> u64 \<Rightarrow> 'c command \<Rightarrow> (('s, 'c, 'n, 'h, 'o, 'p) realtime_room) option" where
  "realtime_send room target c =
     (if length (rr_queue room) < rc_command_capacity (rr_config room)
      then Some (bump ct_accepted_update
        (room\<lparr>rr_queue := rr_queue room @ [\<lparr>sb_target = target, sb_command = c\<rparr>]\<rparr>))
      else None)"

definition realtime_try_submit_at ::
    "('s, 'c, 'n, 'h, 'o, 'p) realtime_room \<Rightarrow> u64 \<Rightarrow> 'c command \<Rightarrow> (core_error + unit) \<times> ('s, 'c, 'n, 'h, 'o, 'p) realtime_room" where
  "realtime_try_submit_at room target c =
     (case realtime_validate room target c of
        Inl e \<Rightarrow> (Inl e, room)
      | Inr _ \<Rightarrow>
          (case realtime_send room target c of
             Some room' \<Rightarrow> (Inr (), room')
           | None \<Rightarrow> (Inl QueueFull, bump ct_queue_full_update room)))"

text \<open>\<open>submit_at\<close> up to its first wait: \<open>Inr None\<close> when it waits for a free place.\<close>

definition realtime_submit_at ::
    "('s, 'c, 'n, 'h, 'o, 'p) realtime_room \<Rightarrow> u64 \<Rightarrow> 'c command \<Rightarrow> core_error + (('s, 'c, 'n, 'h, 'o, 'p) realtime_room) option" where
  "realtime_submit_at room target c =
     (case realtime_validate room target c of
        Inl e \<Rightarrow> Inl e
      | Inr _ \<Rightarrow> Inr (realtime_send room target c))"

definition realtime_submit_target :: "('s, 'c, 'n, 'h, 'o, 'p) realtime_room \<Rightarrow> u64" where
  "realtime_submit_target room = rr_current room + rc_input_delay_ticks (rr_config room) + 1"

definition realtime_try_submit ::
    "('s, 'c, 'n, 'h, 'o, 'p) realtime_room \<Rightarrow> 'c command \<Rightarrow> (core_error + unit) \<times> ('s, 'c, 'n, 'h, 'o, 'p) realtime_room" where
  "realtime_try_submit room c = realtime_try_submit_at room (realtime_submit_target room) c"

definition realtime_submit ::
    "('s, 'c, 'n, 'h, 'o, 'p) realtime_room \<Rightarrow> 'c command \<Rightarrow> core_error + (('s, 'c, 'n, 'h, 'o, 'p) realtime_room) option" where
  "realtime_submit room c = realtime_submit_at room (realtime_submit_target room) c"

subsection \<open>Snapshots\<close>

definition realtime_encode :: "('s, 'c, 'n, 'h, 'o, 'p) room_env \<Rightarrow> ('s, 'c, 'n, 'h, 'o, 'p) realtime_room \<Rightarrow> 'n \<Rightarrow> core_error + bytes" where
  "realtime_encode env room snapshot =
     (case so_encode (re_simulation env) (rr_simulation room) snapshot of
        Inl e \<Rightarrow> Inl e
      | Inr bytes \<Rightarrow>
          if rc_max_snapshot_bytes (rr_config room) < length bytes
          then Inl (InvalidFrame ''snapshot too large'') else Inr bytes)"

definition realtime_canonical_state :: "('s, 'c, 'n, 'h, 'o, 'p) room_env \<Rightarrow> ('s, 'c, 'n, 'h, 'o, 'p) realtime_room \<Rightarrow> core_error + bytes" where
  "realtime_canonical_state env room =
     (case so_snapshot (re_simulation env) (rr_simulation room) (realtime_tick room (rr_current room)) of
        Inl e \<Rightarrow> Inl e
      | Inr snapshot \<Rightarrow> realtime_encode env room snapshot)"

definition realtime_capture ::
    "('s, 'c, 'n, 'h, 'o, 'p) room_env \<Rightarrow> ('s, 'c, 'n, 'h, 'o, 'p) realtime_room \<Rightarrow> tick \<Rightarrow> (core_error + 'n \<times> 'h) \<times> ('s, 'c, 'n, 'h, 'o, 'p) realtime_room" where
  "realtime_capture env room t =
     (case (case so_snapshot (re_simulation env) (rr_simulation room) t of
              Inl e \<Rightarrow> Inl e
            | Inr snapshot \<Rightarrow>
                (case realtime_encode env room snapshot of
                   Inl e \<Rightarrow> Inl e
                 | Inr bytes \<Rightarrow> Inr (snapshot, re_digest env bytes))) of
        Inr v \<Rightarrow> (Inr v, bump ct_snapshots_update room)
      | Inl e \<Rightarrow> (Inl e, bump ct_snapshot_errors_update room))"

definition realtime_initialize :: "('s, 'c, 'n, 'h, 'o, 'p) room_env \<Rightarrow> ('s, 'c, 'n, 'h, 'o, 'p) realtime_room \<Rightarrow> (core_error + unit) \<times> ('s, 'c, 'n, 'h, 'o, 'p) realtime_room" where
  "realtime_initialize env room =
     (if rr_initialized room then (Inr (), room)
      else case realtime_capture env room (realtime_tick room 0) of
        (Inl e, room) \<Rightarrow> (Inl e, room)
      | (Inr (snapshot, h), room) \<Rightarrow>
          (Inr (), room\<lparr>rr_history := bt_insert 0 \<lparr>tr_commands = [], tr_snapshot = snapshot, tr_hash = h\<rparr>
             (rr_history room), rr_initialized := True\<rparr>))"

subsection \<open>Scheduling\<close>

definition accept_sequence :: "'c command \<Rightarrow> ('s, 'c, 'n, 'h, 'o, 'p) realtime_room \<Rightarrow> ('s, 'c, 'n, 'h, 'o, 'p) realtime_room" where
  "accept_sequence c room =
     room\<lparr>rr_sequences := hm_insert (cm_player c) (cm_sequence c) (rr_sequences room)\<rparr>"

text \<open>One command from the channel; \<open>late\<close> is the earliest past tick that changed.\<close>

definition drain_one :: "u64 option \<times> ('s, 'c, 'n, 'h, 'o, 'p) realtime_room \<Rightarrow> 'c submitted \<Rightarrow> u64 option \<times> ('s, 'c, 'n, 'h, 'o, 'p) realtime_room" where
  "drain_one acc input =
     (let (late, room) = acc;
          room = bump ct_received_update room;
          c = sb_command input; target = sb_target input; config = rr_config room;
          last = (case map_of (rr_sequences room) (cm_player c) of None \<Rightarrow> 0 | Some n \<Rightarrow> n)
      in if cm_sequence c \<le> last then (late, bump ct_duplicates_update room)
         else if target \<le> rr_current room
         then let room = bump ct_late_update room
              in case map_of (rr_history room) target of
                   Some record \<Rightarrow>
                     if length (tr_commands record) < rc_max_commands_per_tick config
                     then (Some (case late of None \<Rightarrow> target | Some v \<Rightarrow> min v target),
                       (accept_sequence c room)\<lparr>rr_history := map_adjust target
                          (\<lambda>r. r\<lparr>tr_commands := tr_commands r @ [c]\<rparr>) (rr_history room)\<rparr>)
                     else (late, bump ct_rejected_update room)
                 | None \<Rightarrow> (late, bump ct_rejected_update room)
         else if rc_max_pending_commands config \<le> length (rr_pending room)
         then (late, bump ct_rejected_update room)
         else let room = accept_sequence c room; order = rr_order room + 1
              in (late, room\<lparr>rr_order := order,
                    rr_pending := insort_key (\<lambda>x. (sd_target x, sd_order x))
                      \<lparr>sd_target = target, sd_order = order, sd_command = c\<rparr> (rr_pending room)\<rparr>))"

definition realtime_drain :: "('s, 'c, 'n, 'h, 'o, 'p) realtime_room \<Rightarrow> u64 option \<times> ('s, 'c, 'n, 'h, 'o, 'p) realtime_room" where
  "realtime_drain room = foldl drain_one (None, room\<lparr>rr_queue := []\<rparr>) (rr_queue room)"

subsection \<open>Rollback\<close>

fun apply_all :: "('s, 'c, 'n, 'h, 'o, 'p) room_env \<Rightarrow> 'c command list \<Rightarrow> ('s, 'c, 'n, 'h, 'o, 'p) realtime_room \<Rightarrow> (core_error + unit) \<times> ('s, 'c, 'n, 'h, 'o, 'p) realtime_room" where
  "apply_all env [] room = (Inr (), room)"
| "apply_all env (c # cs) room =
     (case so_apply (re_simulation env) (rr_simulation room) c of
        (Inl e, s) \<Rightarrow> (Inl e, room\<lparr>rr_simulation := s\<rparr>)
      | (Inr _, s) \<Rightarrow> apply_all env cs (room\<lparr>rr_simulation := s\<rparr>))"

text \<open>The commands of a recorded tick again; its record gets the new snapshot.\<close>

definition resimulate_tick :: "('s, 'c, 'n, 'h, 'o, 'p) room_env \<Rightarrow> u64 \<Rightarrow> ('s, 'c, 'n, 'h, 'o, 'p) realtime_room \<Rightarrow> (core_error + unit) \<times> ('s, 'c, 'n, 'h, 'o, 'p) realtime_room" where
  "resimulate_tick env number room =
     (case map_of (rr_history room) number of
        None \<Rightarrow> (Inl (core_error.InvalidConfig ''rollback history''), room)
      | Some record \<Rightarrow>
          (case apply_all env (tr_commands record) room of
             (Inl e, room) \<Rightarrow> (Inl e, room)
           | (Inr _, room) \<Rightarrow>
               let t = realtime_tick room number
               in case so_step (re_simulation env) (rr_simulation room) t of
                    (Inl e, s) \<Rightarrow> (Inl e, room\<lparr>rr_simulation := s\<rparr>)
                  | (Inr _, s) \<Rightarrow>
                      (case realtime_capture env (room\<lparr>rr_simulation := s\<rparr>) t of
                         (Inl e, room) \<Rightarrow> (Inl e, room)
                       | (Inr (snapshot, h), room) \<Rightarrow>
                           (Inr (), room\<lparr>rr_history := map_adjust number
                              (\<lambda>r. r\<lparr>tr_snapshot := snapshot, tr_hash := h\<rparr>) (rr_history room)\<rparr>))))"

fun resimulate_ticks :: "('s, 'c, 'n, 'h, 'o, 'p) room_env \<Rightarrow> u64 list \<Rightarrow> ('s, 'c, 'n, 'h, 'o, 'p) realtime_room \<Rightarrow> (core_error + unit) \<times> ('s, 'c, 'n, 'h, 'o, 'p) realtime_room" where
  "resimulate_ticks env [] room = (Inr (), room)"
| "resimulate_ticks env (n # ns) room =
     (case resimulate_tick env n room of
        (Inl e, room) \<Rightarrow> (Inl e, room)
      | (Inr _, room) \<Rightarrow> resimulate_ticks env ns room)"

text \<open>\<open>from..=through\<close>\<close>

definition tick_range :: "u64 \<Rightarrow> u64 \<Rightarrow> u64 list" where
  "tick_range from through = map of_nat [unat from ..< Suc (unat through)]"

text \<open>An observer call: its error is counted and otherwise ignored.\<close>

definition observe ::
    "('s, 'c, 'n, 'h, 'o, 'p) room_env \<Rightarrow> (('c, 'n, 'h, 'o) observer_ops \<Rightarrow> 'o \<Rightarrow> (core_error + unit) \<times> 'o) \<Rightarrow> ('s, 'c, 'n, 'h, 'o, 'p) realtime_room \<Rightarrow> ('s, 'c, 'n, 'h, 'o, 'p) realtime_room" where
  "observe env call room =
     (case re_observer env of
        None \<Rightarrow> room
      | Some ops \<Rightarrow>
          (case call ops (rr_observer room) of
             (Inl _, ob) \<Rightarrow> bump ct_observer_errors_update (room\<lparr>rr_observer := ob\<rparr>)
           | (Inr _, ob) \<Rightarrow> room\<lparr>rr_observer := ob\<rparr>))"

text \<open>Back to the state of the tick before, checked against the recorded hash.\<close>

definition restore_checkpoint :: "('s, 'c, 'n, 'h, 'o, 'p) room_env \<Rightarrow> u64 \<Rightarrow> ('s, 'c, 'n, 'h, 'o, 'p) realtime_room \<Rightarrow> (core_error + unit) \<times> ('s, 'c, 'n, 'h, 'o, 'p) realtime_room" where
  "restore_checkpoint env base room =
     (case map_of (rr_history room) base of
        None \<Rightarrow> (Inl (core_error.InvalidConfig ''rollback window''), room)
      | Some checkpoint \<Rightarrow>
          (case realtime_encode env room (tr_snapshot checkpoint) of
             Inl e \<Rightarrow> (Inl e, room)
           | Inr bytes \<Rightarrow>
               if tr_hash checkpoint \<noteq> re_digest env bytes
               then (Inl (InvalidFrame ''checkpoint corrupted''), room)
               else case so_restore (re_simulation env) (rr_simulation room) (realtime_tick room base)
                          (tr_snapshot checkpoint) of
                      (Inl e, s) \<Rightarrow> (Inl e, bump ct_rollback_failures_update (room\<lparr>rr_simulation := s\<rparr>))
                    | (Inr _, s) \<Rightarrow>
                        let room = room\<lparr>rr_simulation := s\<rparr>
                        in case so_snapshot (re_simulation env) s (realtime_tick room base) of
                             Inl e \<Rightarrow> (Inl e, room)
                           | Inr verified \<Rightarrow>
                               (case realtime_encode env room verified of
                                  Inl e \<Rightarrow> (Inl e, room)
                                | Inr bytes \<Rightarrow>
                                    if tr_hash checkpoint \<noteq> re_digest env bytes
                                    then (Inl (InvalidFrame ''restore mismatch''), room)
                                    else (Inr (), room))))"

definition realtime_resimulate ::
    "('s, 'c, 'n, 'h, 'o, 'p) room_env \<Rightarrow> u64 \<Rightarrow> u64 \<Rightarrow> ('s, 'c, 'n, 'h, 'o, 'p) realtime_room \<Rightarrow> (core_error + unit) \<times> ('s, 'c, 'n, 'h, 'o, 'p) realtime_room" where
  "realtime_resimulate env from through room =
     (case checked_sub from 1 of
        None \<Rightarrow> (Inl (core_error.InvalidConfig ''rollback target''), room)
      | Some base \<Rightarrow>
          (case restore_checkpoint env base room of
             (Inl e, room) \<Rightarrow> (Inl e, room)
           | (Inr _, room) \<Rightarrow>
               (case resimulate_ticks env (tick_range from through) room of
                  (Inl e, room) \<Rightarrow> (Inl e, room)
                | (Inr _, room) \<Rightarrow>
                    let room = bump ct_rollbacks_update room;
                        room = room\<lparr>rr_counters := ct_resimulated_update (\<lambda>n. n + (through - from + 1)) (rr_counters room)\<rparr>;
                        room = (case re_publisher env of
                            None \<Rightarrow> room
                          | Some ops \<Rightarrow> room\<lparr>rr_publisher := pb_force_keyframe ops (rr_publisher room)\<rparr>)
                    in (Inr (), observe env (\<lambda>ops ob. ob_rollback ops ob from through) room))))"

subsection \<open>Advancing\<close>

text \<open>The scheduled commands of a tick, up to the limit; the accepted ones are returned.\<close>

fun take_commands ::
    "('s, 'c, 'n, 'h, 'o, 'p) room_env \<Rightarrow> u64 \<Rightarrow> usize \<Rightarrow> 'c command list \<Rightarrow> ('s, 'c, 'n, 'h, 'o, 'p) realtime_room \<Rightarrow> 'c command list \<times> ('s, 'c, 'n, 'h, 'o, 'p) realtime_room" where
  "take_commands env number 0 commands room = (commands, room)"
| "take_commands env number (Suc limit) commands room =
     (case rr_pending room of
        [] \<Rightarrow> (commands, room)
      | item # rest \<Rightarrow>
          if number < sd_target item then (commands, room)
          else let c = sd_command item;
                   room = observe env (\<lambda>ops ob. ob_command ops ob number c) (room\<lparr>rr_pending := rest\<rparr>)
               in case so_apply (re_simulation env) (rr_simulation room) c of
                    (Inr _, s) \<Rightarrow>
                      take_commands env number limit (commands @ [c])
                        (bump ct_applied_update (room\<lparr>rr_simulation := s\<rparr>))
                  | (Inl _, s) \<Rightarrow>
                      take_commands env number limit commands
                        (bump ct_rejected_update (room\<lparr>rr_simulation := s\<rparr>)))"

definition simulate_tick :: "('s, 'c, 'n, 'h, 'o, 'p) room_env \<Rightarrow> u64 \<Rightarrow> ('s, 'c, 'n, 'h, 'o, 'p) realtime_room \<Rightarrow> (core_error + 'n \<times> 'h) \<times> ('s, 'c, 'n, 'h, 'o, 'p) realtime_room" where
  "simulate_tick env number room =
     (let t = realtime_tick room number;
          (commands, room) = take_commands env number (rc_max_commands_per_tick (rr_config room)) [] room
      in case so_step (re_simulation env) (rr_simulation room) t of
           (Inl e, s) \<Rightarrow> (Inl e, room\<lparr>rr_simulation := s\<rparr>)
         | (Inr _, s) \<Rightarrow>
             let room = observe env (\<lambda>ops ob. ob_tick ops ob t) (room\<lparr>rr_simulation := s\<rparr>)
             in case realtime_capture env room t of
                  (Inl e, room) \<Rightarrow> (Inl e, room)
                | (Inr (snapshot, h), room) \<Rightarrow>
                    (Inr (snapshot, h), bump ct_ticks_update (room\<lparr>rr_current := number,
                       rr_history := bt_insert number
                         \<lparr>tr_commands = commands, tr_snapshot = snapshot, tr_hash = h\<rparr> (rr_history room)\<rparr>)))"

definition publish_tick :: "('s, 'c, 'n, 'h, 'o, 'p) room_env \<Rightarrow> u64 \<Rightarrow> 'n \<Rightarrow> 'h \<Rightarrow> ('s, 'c, 'n, 'h, 'o, 'p) realtime_room \<Rightarrow> ('s, 'c, 'n, 'h, 'o, 'p) realtime_room" where
  "publish_tick env number snapshot h room =
     (if number mod rc_snapshot_interval (rr_config room) \<noteq> 0 then room
      else let t = realtime_tick room number;
               room = observe env (\<lambda>ops ob. ob_snapshot ops ob t snapshot h)
                 (room\<lparr>rr_snapshots := Some snapshot\<rparr>)
           in case re_publisher env of
                None \<Rightarrow> room
              | Some ops \<Rightarrow>
                  (case pb_publish ops (rr_publisher room)
                          \<lparr>snap_room_id = rr_id room, snap_tick = number, snap_elapsed = tk_elapsed t,
                           snap_state = snapshot, snap_state_hash = h\<rparr> of
                     (Some (Inr _), pu) \<Rightarrow> bump ct_published_update (room\<lparr>rr_publisher := pu\<rparr>)
                   | (_, pu) \<Rightarrow> bump ct_publication_errors_update (room\<lparr>rr_publisher := pu\<rparr>)))"

definition finalize_tick :: "u64 \<Rightarrow> ('s, 'c, 'n, 'h, 'o, 'p) realtime_room \<Rightarrow> ('s, 'c, 'n, 'h, 'o, 'p) realtime_room" where
  "finalize_tick number room =
     (let through = sat_sub number (rc_rollback_window_ticks (rr_config room));
          room = (if rr_finalized room < through
            then bump ct_finalizations_update (room\<lparr>rr_finalized := through,
                   rr_finalizations := Some \<lparr>fin_room_id = rr_id room, fin_through_tick = through,
                     fin_elapsed = tk_elapsed (realtime_tick room through)\<rparr>\<rparr>)
            else room)
      in room\<lparr>rr_history := map_retain (\<lambda>n _. through \<le> n) (rr_history room)\<rparr>)"

definition realtime_advance_inner :: "('s, 'c, 'n, 'h, 'o, 'p) room_env \<Rightarrow> ('s, 'c, 'n, 'h, 'o, 'p) realtime_room \<Rightarrow> (core_error + unit) \<times> ('s, 'c, 'n, 'h, 'o, 'p) realtime_room" where
  "realtime_advance_inner env room =
     (case realtime_initialize env room of
        (Inl e, room) \<Rightarrow> (Inl e, room)
      | (Inr _, room) \<Rightarrow>
          let (late, room) = realtime_drain room; current = rr_current room
          in case (case late of
                     None \<Rightarrow> (Inr (), room)
                   | Some from \<Rightarrow> realtime_resimulate env from current room) of
               (Inl e, room) \<Rightarrow> (Inl e, room)
             | (Inr _, room) \<Rightarrow>
                 (case simulate_tick env (current + 1) room of
                    (Inl e, room) \<Rightarrow> (Inl e, room)
                  | (Inr (snapshot, h), room) \<Rightarrow>
                      (Inr (), finalize_tick (current + 1)
                         (publish_tick env (current + 1) snapshot h room))))"

text \<open>\<open>nanos\<close> is what the tick took.\<close>

definition realtime_advance_one :: "('s, 'c, 'n, 'h, 'o, 'p) room_env \<Rightarrow> u64 \<Rightarrow> ('s, 'c, 'n, 'h, 'o, 'p) realtime_room \<Rightarrow> (core_error + unit) \<times> ('s, 'c, 'n, 'h, 'o, 'p) realtime_room" where
  "realtime_advance_one env nanos room =
     (let (result, room) = realtime_advance_inner env room;
          room = room\<lparr>rr_counters := ct_max_tick_nanos_update (max nanos)
            (ct_tick_nanos_update (\<lambda>n. n + nanos) (rr_counters room))\<rparr>
      in (result, if isl result then bump ct_tick_failures_update room else room))"

definition realtime_advance :: "('s, 'c, 'n, 'h, 'o, 'p) room_env \<Rightarrow> u64 \<Rightarrow> ('s, 'c, 'n, 'h, 'o, 'p) realtime_room \<Rightarrow> (core_error + unit) \<times> ('s, 'c, 'n, 'h, 'o, 'p) realtime_room" where
  "realtime_advance env nanos room =
     (if rr_running room then (Inl (core_error.InvalidConfig ''room is running''), room)
      else realtime_advance_one env nanos room)"

text \<open>The timer and the shutdown signal are a list of events; \<open>None\<close> while \<open>run\<close> still runs.\<close>

datatype run_event = TimerTick u64 | Shutdown

fun realtime_run_loop ::
    "('s, 'c, 'n, 'h, 'o, 'p) room_env \<Rightarrow> run_event list \<Rightarrow> ('s, 'c, 'n, 'h, 'o, 'p) realtime_room \<Rightarrow> (core_error + unit) option \<times> ('s, 'c, 'n, 'h, 'o, 'p) realtime_room" where
  "realtime_run_loop env [] room = (None, room)"
| "realtime_run_loop env (Shutdown # events) room = (Some (Inr ()), room\<lparr>rr_running := False\<rparr>)"
| "realtime_run_loop env (TimerTick nanos # events) room =
     (case realtime_advance_one env nanos room of
        (Inl e, room) \<Rightarrow> (Some (Inl e), room)
      | (Inr _, room) \<Rightarrow> realtime_run_loop env events room)"

definition realtime_run ::
    "('s, 'c, 'n, 'h, 'o, 'p) room_env \<Rightarrow> run_event list \<Rightarrow> ('s, 'c, 'n, 'h, 'o, 'p) realtime_room \<Rightarrow> (core_error + unit) option \<times> ('s, 'c, 'n, 'h, 'o, 'p) realtime_room" where
  "realtime_run env events room =
     (if rr_running room
      then (Some (Inl (core_error.InvalidConfig ''room already running'')), room\<lparr>rr_running := True\<rparr>)
      else realtime_run_loop env events (room\<lparr>rr_running := True\<rparr>))"

definition realtime_stats :: "('s, 'c, 'n, 'h, 'o, 'p) realtime_room \<Rightarrow> room_stats" where
  "realtime_stats room =
     (let c = rr_counters room
      in \<lparr>rt_current_tick = rr_current room, rt_finalized_tick = rr_finalized room,
          rt_ticks_completed = ct_ticks c, rt_tick_failures = ct_tick_failures c,
          rt_tick_duration_nanos = ct_tick_nanos c, rt_max_tick_duration_nanos = ct_max_tick_nanos c,
          rt_commands_accepted = ct_accepted c, rt_commands_queue_full = ct_queue_full c,
          rt_command_queue_depth = of_nat (length (rr_queue room)),
          rt_commands_received = ct_received c, rt_commands_applied = ct_applied c,
          rt_commands_rejected = ct_rejected c, rt_duplicates = ct_duplicates c,
          rt_late_commands = ct_late c, rt_snapshots_created = ct_snapshots c,
          rt_snapshot_errors = ct_snapshot_errors c, rt_publications_completed = ct_published c,
          rt_publication_errors = ct_publication_errors c, rt_observer_errors = ct_observer_errors c,
          rt_rollbacks_completed = ct_rollbacks c, rt_rollback_failures = ct_rollback_failures c,
          rt_ticks_resimulated = ct_resimulated c, rt_finalization_updates = ct_finalizations c\<rparr>)"

end
