(* ===== verification/Realtime_Rollback.thy ===== *)
theory Realtime_Rollback
  imports Realtime_Room "HOL-Library.Multiset"
begin

section \<open>Rollback is invisible\<close>

text \<open>
  A room's simulation always is where a straight run would be that knew every command from the
  start. The straight run is \<open>run_log\<close>: the commands of the ticks one after the other, a step after
  each. Which commands count for which tick is said by a reference room, \<open>ref_play\<close>, which only keeps the
  accepted commands in the order of the source and has no checkpoints and no rollback. The locale
  \<open>lawful_simulation\<close> is what the room relies on: a snapshot holds the whole state, and a refused
  command changes nothing.
\<close>

subsection \<open>The reference\<close>

definition tick_at :: "duration \<Rightarrow> u64 \<Rightarrow> tick" where
  "tick_at delta number =
     \<lparr>tk_number = number, tk_delta = delta,
      tk_elapsed = dur_sat_mul delta (if number < 2 ^ 32 then unat number else 2 ^ 32 - 1)\<rparr>"

fun run_commands :: "('s, 'c, 'n) simulation_ops \<Rightarrow> 'c command list \<Rightarrow> 's \<Rightarrow> 's option" where
  "run_commands ops [] s = Some s"
| "run_commands ops (c # cs) s =
     (case so_apply ops s c of (Inr _, s') \<Rightarrow> run_commands ops cs s' | (Inl _, _) \<Rightarrow> None)"

definition run_tick :: "('s, 'c, 'n) simulation_ops \<Rightarrow> tick \<Rightarrow> 'c command list \<Rightarrow> 's \<Rightarrow> 's option" where
  "run_tick ops t cs s =
     (case run_commands ops cs s of
        None \<Rightarrow> None
      | Some s \<Rightarrow> (case so_step ops s t of (Inr _, s') \<Rightarrow> Some s' | (Inl _, _) \<Rightarrow> None))"

fun run_log ::
    "('s, 'c, 'n) simulation_ops \<Rightarrow> duration \<Rightarrow> nat \<Rightarrow> 'c command list list \<Rightarrow> 's \<Rightarrow> 's option" where
  "run_log ops delta n [] s = Some s"
| "run_log ops delta n (cs # css) s =
     (case run_tick ops (tick_at delta (of_nat n)) cs s of
        None \<Rightarrow> None | Some s' \<Rightarrow> run_log ops delta (Suc n) css s')"

text \<open>The state after the first \<open>n\<close> ticks.\<close>

definition state_after ::
    "('s, 'c, 'n) simulation_ops \<Rightarrow> duration \<Rightarrow> 'c command list list \<Rightarrow> 's \<Rightarrow> nat \<Rightarrow> 's option" where
  "state_after ops delta log s n = run_log ops delta 1 (take n log) s"

text \<open>The commands a log has at a tick; tick 0 is the initial state.\<close>

definition log_at :: "'c command list list \<Rightarrow> u64 \<Rightarrow> 'c command list" where
  "log_at log n = (if n = 0 then [] else log ! (unat n - 1))"

definition command_key :: "'c command \<Rightarrow> player_key \<times> u64" where
  "command_key c = (cm_player c, cm_sequence c)"

text \<open>What a log has to do with a room: it is as long as the room is old, it explains the state of
the simulation, and the room's records say what it says. Its commands were submitted, for their
tick or an earlier one, and no command is in it twice.\<close>

definition explains ::
    "('s, 'c, 'n) simulation_ops \<Rightarrow> 's \<Rightarrow> 'c submitted set \<Rightarrow> 'c command list list \<Rightarrow>
     ('s, 'c, 'n, 'h, 'o, 'p) realtime_room \<Rightarrow> bool" where
  "explains ops s0 sent log room \<longleftrightarrow>
     length log = unat (rr_current room) \<and>
     run_log ops (rr_delta room) 1 log s0 = Some (rr_simulation room) \<and>
     (\<forall>n record. map_of (rr_history room) n = Some record \<longrightarrow>
        n \<le> rr_current room \<and> tr_commands record = log_at log n) \<and>
     (\<forall>i < length log. \<forall>c \<in> set (log ! i). \<exists>t. \<lparr>sb_target = t, sb_command = c\<rparr> \<in> sent \<and> unat t \<le> Suc i) \<and>
     distinct (map command_key (concat log))"

subsection \<open>Runs\<close>

text \<open>A command that enters the channel may have been validated long before. A run ends when a tick
fails.\<close>

datatype 'c room_event = Send u64 "'c command" | Advance u64

fun room_play ::
    "('s, 'c, 'n, 'h, 'o, 'p) room_env \<Rightarrow> 'c room_event list \<Rightarrow> ('s, 'c, 'n, 'h, 'o, 'p) realtime_room \<Rightarrow>
     ('s, 'c, 'n, 'h, 'o, 'p) realtime_room option" where
  "room_play env [] room = Some room"
| "room_play env (Send target c # events) room =
     room_play env events (case realtime_send room target c of None \<Rightarrow> room | Some room' \<Rightarrow> room')"
| "room_play env (Advance nanos # events) room =
     (case realtime_advance env nanos room of
        (Inl _, _) \<Rightarrow> None
      | (Inr _, room') \<Rightarrow> room_play env events room')"

definition sent_by :: "'c room_event list \<Rightarrow> 'c submitted set" where
  "sent_by events = {\<lparr>sb_target = t, sb_command = c\<rparr> | t c. Send t c \<in> set events}"

subsection \<open>The reference room\<close>

text \<open>The room as it would be without checkpoints. It only keeps, for every tick since the start, the commands that
belong to it: a command that comes late is added to the past tick it was meant for. What the state is, is
found by running the whole log again from the start.\<close>

record 'c reference =
  rf_inbox :: "'c submitted list"
  rf_waiting :: "(u64 \<times> 'c command) list"
  rf_last :: "player_key \<Rightarrow> u64"
  rf_log :: "'c command list list"

definition ref_start :: "'c reference" where
  "ref_start = \<lparr>rf_inbox = [], rf_waiting = [], rf_last = (\<lambda>_. 0), rf_log = []\<rparr>"

text \<open>A command waits behind those for its tick or an earlier one.\<close>

definition ref_schedule :: "u64 \<times> 'c command \<Rightarrow> (u64 \<times> 'c command) list \<Rightarrow> (u64 \<times> 'c command) list" where
  "ref_schedule x waiting =
     takeWhile (\<lambda>y. fst y \<le> fst x) waiting @ x # dropWhile (\<lambda>y. fst y \<le> fst x) waiting"

definition ref_receive :: "realtime_config \<Rightarrow> nat \<Rightarrow> 'c submitted \<Rightarrow> 'c reference \<Rightarrow> 'c reference" where
  "ref_receive config finalized x ref =
     (let t = unat (sb_target x); c = sb_command x;
          seen = (rf_last ref)(cm_player c := cm_sequence c)
      in if cm_sequence c \<le> rf_last ref (cm_player c) then ref
         else if t \<le> length (rf_log ref)
         then (if finalized < t \<and> length (rf_log ref ! (t - 1)) < rc_max_commands_per_tick config
               then ref\<lparr>rf_last := seen, rf_log := (rf_log ref)[t - 1 := rf_log ref ! (t - 1) @ [c]]\<rparr>
               else ref)
         else if length (rf_waiting ref) < rc_max_pending_commands config
         then ref\<lparr>rf_last := seen, rf_waiting := ref_schedule (sb_target x, c) (rf_waiting ref)\<rparr>
         else ref)"

text \<open>The commands that the simulation does not refuse.\<close>

fun accepted :: "('s, 'c, 'n) simulation_ops \<Rightarrow> 'c command list \<Rightarrow> 's \<Rightarrow> 'c command list" where
  "accepted ops [] s = []"
| "accepted ops (c # cs) s =
     (case so_apply ops s c of (Inr _, s') \<Rightarrow> c # accepted ops cs s' | (Inl _, _) \<Rightarrow> accepted ops cs s)"

definition ref_due :: "realtime_config \<Rightarrow> 'c reference \<Rightarrow> (u64 \<times> 'c command) list" where
  "ref_due config ref = take (rc_max_commands_per_tick config)
     (takeWhile (\<lambda>x. unat (fst x) \<le> Suc (length (rf_log ref))) (rf_waiting ref))"

definition ref_tick :: "('s, 'c, 'n) simulation_ops \<Rightarrow> realtime_config \<Rightarrow> duration \<Rightarrow> 's \<Rightarrow> 'c reference \<Rightarrow> 'c reference" where
  "ref_tick ops config delta s0 ref =
     (case run_log ops delta 1 (rf_log ref) s0 of
        None \<Rightarrow> ref
      | Some s \<Rightarrow> ref\<lparr>rf_log := rf_log ref @ [accepted ops (map snd (ref_due config ref)) s],
                      rf_waiting := drop (length (ref_due config ref)) (rf_waiting ref)\<rparr>)"

fun ref_event :: "('s, 'c, 'n) simulation_ops \<Rightarrow> realtime_config \<Rightarrow> duration \<Rightarrow> 's \<Rightarrow> 'c room_event \<Rightarrow> 'c reference \<Rightarrow> 'c reference" where
  "ref_event ops config delta s0 (Send t c) ref =
     (if length (rf_inbox ref) < rc_command_capacity config
      then ref\<lparr>rf_inbox := rf_inbox ref @ [\<lparr>sb_target = t, sb_command = c\<rparr>]\<rparr> else ref)"
| "ref_event ops config delta s0 (Advance _) ref =
     ref_tick ops config delta s0
       (fold (ref_receive config (length (rf_log ref) - unat (rc_rollback_window_ticks config)))
          (rf_inbox ref) (ref\<lparr>rf_inbox := []\<rparr>))"

definition ref_play :: "('s, 'c, 'n) simulation_ops \<Rightarrow> realtime_config \<Rightarrow> duration \<Rightarrow> 's \<Rightarrow> 'c room_event list \<Rightarrow> 'c reference" where
  "ref_play ops config delta s0 events = fold (ref_event ops config delta s0) events ref_start"

text \<open>The room waits for the same commands and has seen the same sequence numbers.\<close>

definition follows :: "'c reference \<Rightarrow> ('s, 'c, 'n, 'h, 'o, 'p) realtime_room \<Rightarrow> bool" where
  "follows ref room \<longleftrightarrow>
     rf_inbox ref = rr_queue room \<and>
     rf_waiting ref = map (\<lambda>x. (sd_target x, sd_command x)) (rr_pending room) \<and>
     (\<forall>p. rf_last ref p = (case map_of (rr_sequences room) p of None \<Rightarrow> 0 | Some n \<Rightarrow> n)) \<and>
     (\<forall>x \<in> set (rr_pending room). sd_order x \<le> rr_order room)"

subsection \<open>The invariant\<close>

text \<open>The records up to \<open>bound\<close> hold the snapshots of the log's states.\<close>

definition snapshots_of ::
    "('s, 'c, 'n) simulation_ops \<Rightarrow> duration \<Rightarrow> 's \<Rightarrow> 'c command list list \<Rightarrow> nat \<Rightarrow>
     (u64 \<times> ('c, 'n, 'h) tick_record) list \<Rightarrow> bool" where
  "snapshots_of ops delta s0 log bound history \<longleftrightarrow>
     (\<forall>n record. map_of history n = Some record \<longrightarrow> unat n < bound \<longrightarrow>
        (\<exists>s. state_after ops delta log s0 (unat n) = Some s \<and>
          so_snapshot ops s (tick_at delta n) = Inr (tr_snapshot record)))"

text \<open>The states of the log up to a tick could be encoded within the limit.\<close>

definition state_fits :: "('s, 'c, 'n) simulation_ops \<Rightarrow> usize \<Rightarrow> 's \<Rightarrow> tick \<Rightarrow> bool" where
  "state_fits ops limit s t \<longleftrightarrow>
     (\<exists>n b. so_snapshot ops s t = Inr n \<and> so_encode ops s n = Inr b \<and> length b \<le> limit)"

definition states_fit ::
    "('s, 'c, 'n) simulation_ops \<Rightarrow> usize \<Rightarrow> duration \<Rightarrow> 's \<Rightarrow> 'c command list list \<Rightarrow> nat \<Rightarrow> bool" where
  "states_fit ops limit delta s0 log bound \<longleftrightarrow>
     (\<forall>k < bound. \<forall>s. state_after ops delta log s0 k = Some s \<longrightarrow> state_fits ops limit s (tick_at delta (of_nat k)))"

definition commands_of :: "'c command list list \<Rightarrow> (u64 \<times> ('c, 'n, 'h) tick_record) list \<Rightarrow> bool" where
  "commands_of log history \<longleftrightarrow>
     (\<forall>n record. map_of history n = Some record \<longrightarrow> tr_commands record = log_at log n)"

text \<open>The log and the scheduled commands: from where they come, and that none is there twice.\<close>

definition commands_inv ::
    "'c submitted set \<Rightarrow> 'c command list list \<Rightarrow> 'c scheduled list \<Rightarrow> (player_key \<times> u64) list \<Rightarrow> bool" where
  "commands_inv sent log pending sequences \<longleftrightarrow>
     hm_wf sequences \<and>
     (\<forall>i < length log. \<forall>c \<in> set (log ! i). \<exists>t. \<lparr>sb_target = t, sb_command = c\<rparr> \<in> sent \<and> unat t \<le> Suc i) \<and>
     (\<forall>x \<in> set pending. \<lparr>sb_target = sd_target x, sb_command = sd_command x\<rparr> \<in> sent) \<and>
     distinct (map command_key (concat log @ map sd_command pending)) \<and>
     (\<forall>c \<in> set (concat log @ map sd_command pending).
        \<exists>last. map_of sequences (cm_player c) = Some last \<and> cm_sequence c \<le> last)"

definition room_inv ::
    "('s, 'c, 'n) simulation_ops \<Rightarrow> 's \<Rightarrow> 'c submitted set \<Rightarrow> 'c command list list \<Rightarrow>
     ('s, 'c, 'n, 'h, 'o, 'p) realtime_room \<Rightarrow> bool" where
  "room_inv ops s0 sent log room \<longleftrightarrow>
     set (rr_queue room) \<subseteq> sent \<and>
     length log = unat (rr_current room) \<and>
     run_log ops (rr_delta room) 1 log s0 = Some (rr_simulation room) \<and>
     bt_wf (rr_history room) \<and>
     dom (map_of (rr_history room)) =
       (if rr_initialized room then {rr_finalized room..rr_current room} else {}) \<and>
     (rr_initialized room \<or> rr_current room = 0 \<and> rr_finalized room = 0) \<and>
     rr_finalized room = sat_sub (rr_current room) (rc_rollback_window_ticks (rr_config room)) \<and>
     commands_of log (rr_history room) \<and>
     snapshots_of ops (rr_delta room) s0 log (Suc (length log)) (rr_history room) \<and>
     (rr_initialized room \<longrightarrow>
        states_fit ops (rc_max_snapshot_bytes (rr_config room)) (rr_delta room) s0 log (Suc (length log))) \<and>
     commands_inv sent log (rr_pending room) (rr_sequences room)"

lemma realtime_tick_at: "realtime_tick room n = tick_at (rr_delta room) n"
  by (simp add: realtime_tick_def tick_at_def)

lemma run_log_append:
  "run_log ops delta n (xs @ ys) s =
     (case run_log ops delta n xs s of None \<Rightarrow> None | Some s' \<Rightarrow> run_log ops delta (n + length xs) ys s')"
  by (induction xs arbitrary: n s) (auto split: option.splits)

lemma state_after_Suc:
  "n < length log \<Longrightarrow> state_after ops delta log s (Suc n) =
     (case state_after ops delta log s n of
        None \<Rightarrow> None | Some s' \<Rightarrow> run_tick ops (tick_at delta (of_nat (Suc n))) (log ! n) s')"
  by (auto simp: state_after_def take_Suc_conv_app_nth run_log_append split: option.splits)

lemma state_after_cong: "take n log = take n log' \<Longrightarrow> state_after ops delta log s n = state_after ops delta log' s n"
  by (simp add: state_after_def)

lemma states_fit_cong:
  assumes "take (bound - 1) log = take (bound - 1) log'"
  shows "states_fit ops limit delta s log bound = states_fit ops limit delta s log' bound"
proof -
  have "state_after ops delta log s k = state_after ops delta log' s k" if "k < bound" for k
  proof (rule state_after_cong)
    have "k \<le> bound - 1" using that by simp
    then show "take k log = take k log'"
      using arg_cong [OF assms, of "take k"] by (simp add: min_absorb1)
  qed
  then show ?thesis by (simp add: states_fit_def)
qed

lemma states_fit_Suc:
  "states_fit ops limit delta s log (Suc n) \<longleftrightarrow> states_fit ops limit delta s log n \<and>
     (\<forall>s'. state_after ops delta log s n = Some s' \<longrightarrow> state_fits ops limit s' (tick_at delta (of_nat n)))"
  by (auto simp: states_fit_def less_Suc_eq)

lemma states_fit_mono: "states_fit ops limit delta s log n \<Longrightarrow> m \<le> n \<Longrightarrow> states_fit ops limit delta s log m"
  by (auto simp: states_fit_def)

lemma state_after_all: "length log \<le> n \<Longrightarrow> state_after ops delta log s n = run_log ops delta 1 log s"
  by (simp add: state_after_def)

subsection \<open>Draining the channel\<close>

lemma mset_concat_update:
  "i < length log \<Longrightarrow> mset (concat (log[i := log ! i @ [c]])) = add_mset c (mset (concat log))"
proof (induction log arbitrary: i)
  case (Cons cs log)
  then show ?case by (cases i) auto
qed simp

text \<open>Between draining and resimulating: the records hold the commands of the new log and, still,
the snapshots of the old one. The two agree before the earliest late command.\<close>

definition drain_inv ::
    "('s, 'c, 'n) simulation_ops \<Rightarrow> 's \<Rightarrow> 'c submitted set \<Rightarrow> 'c command list list \<Rightarrow> 'c command list list \<Rightarrow>
     u64 option \<Rightarrow> ('s, 'c, 'n, 'h, 'o, 'p) realtime_room \<Rightarrow> ('s, 'c, 'n, 'h, 'o, 'p) realtime_room \<Rightarrow> bool" where
  "drain_inv ops s0 sent log log' late room0 room \<longleftrightarrow>
     rr_initialized room = rr_initialized room0 \<and> rr_current room = rr_current room0 \<and>
     rr_finalized room = rr_finalized room0 \<and> rr_config room = rr_config room0 \<and>
     rr_delta room = rr_delta room0 \<and> rr_simulation room = rr_simulation room0 \<and>
     rr_queue room = [] \<and> rr_running room = rr_running room0 \<and>
     bt_wf (rr_history room) \<and> dom (map_of (rr_history room)) = dom (map_of (rr_history room0)) \<and>
     length log' = length log \<and>
     commands_of log' (rr_history room) \<and>
     snapshots_of ops (rr_delta room) s0 log (Suc (length log)) (rr_history room) \<and>
     states_fit ops (rc_max_snapshot_bytes (rr_config room)) (rr_delta room) s0 log (Suc (length log)) \<and>
     commands_inv sent log' (rr_pending room) (rr_sequences room) \<and>
     (case late of
        None \<Rightarrow> log' = log
      | Some v \<Rightarrow> v \<noteq> 0 \<and> v \<le> rr_current room \<and> take (unat v - 1) log' = take (unat v - 1) log)"

lemma bump_simps [simp]:
  "rr_simulation (bump f room) = rr_simulation room" "rr_queue (bump f room) = rr_queue room"
  "rr_pending (bump f room) = rr_pending room" "rr_history (bump f room) = rr_history room"
  "rr_sequences (bump f room) = rr_sequences room" "rr_initialized (bump f room) = rr_initialized room"
  "rr_current (bump f room) = rr_current room" "rr_finalized (bump f room) = rr_finalized room"
  "rr_config (bump f room) = rr_config room" "rr_delta (bump f room) = rr_delta room"
  "rr_order (bump f room) = rr_order room" "rr_running (bump f room) = rr_running room"
  by (simp_all add: bump_def)

lemma commands_inv_fresh:
  assumes inv: "commands_inv sent log pending sequences"
    and new: "(case map_of sequences (cm_player c) of None \<Rightarrow> 0 | Some n \<Rightarrow> n) < cm_sequence c"
    and log': "mset (concat log' @ map sd_command pending') = add_mset c (mset (concat log @ map sd_command pending))"
    and from_log: "\<forall>i < length log'. \<forall>d \<in> set (log' ! i).
      \<exists>t. \<lparr>sb_target = t, sb_command = d\<rparr> \<in> sent \<and> unat t \<le> Suc i"
    and from_pending: "\<forall>x \<in> set pending'. \<lparr>sb_target = sd_target x, sb_command = sd_command x\<rparr> \<in> sent"
  shows "commands_inv sent log' pending' (hm_insert (cm_player c) (cm_sequence c) sequences)"
proof -
  let ?old = "concat log @ map sd_command pending" and ?new = "concat log' @ map sd_command pending'"
  have bound: "\<exists>last. map_of sequences (cm_player d) = Some last \<and> cm_sequence d \<le> last" if "d \<in> set ?old" for d
    using that inv unfolding commands_inv_def by blast
  have wf: "hm_wf sequences" using inv by (simp add: commands_inv_def)
  have fresh: "command_key c \<notin> command_key ` set ?old"
  proof
    assume "command_key c \<in> command_key ` set ?old"
    then obtain d where d: "d \<in> set ?old" and same: "command_key c = command_key d" by (rule imageE)
    from same have "cm_player d = cm_player c" "cm_sequence d = cm_sequence c"
      by (simp_all add: command_key_def)
    with bound [OF d] new show False by auto
  qed
  have "mset (map command_key ?new) = mset (map command_key (c # ?old))"
    using arg_cong [OF log', of "image_mset command_key"]
    by (simp only: mset_map mset.simps image_mset_add_mset)
  moreover have "distinct (map command_key (c # ?old))"
    using fresh inv by (auto simp: commands_inv_def)
  ultimately have "distinct (map command_key ?new)"
    using mset_eq_imp_distinct_iff by blast
  moreover have "\<exists>last. map_of (hm_insert (cm_player c) (cm_sequence c) sequences) (cm_player d) = Some last \<and>
      cm_sequence d \<le> last" if "d \<in> set ?new" for d
  proof -
    have "d = c \<or> d \<in> set ?old"
      using that log' by (metis insert_iff set_mset_add_mset_insert set_mset_mset)
    then show ?thesis
    proof
      assume "d \<in> set ?old"
      from bound [OF this] new wf show ?thesis
        by (cases "cm_player d = cm_player c") (auto simp: hm.map_laws)
    qed (simp add: hm.map_laws wf)
  qed
  ultimately show ?thesis
    using wf from_log from_pending by (simp add: commands_inv_def hm.map_laws)
qed

lemma drain_one_late:
  assumes inv: "drain_inv ops s0 sent log log' late room0 room"
    and len: "length log = unat (rr_current room)"
    and target: "t \<noteq> 0" "t \<le> rr_current room" and sent: "\<lparr>sb_target = t, sb_command = c\<rparr> \<in> sent"
    and found: "map_of (rr_history room) t = Some x"
    and new: "(case map_of (rr_sequences room) (cm_player c) of None \<Rightarrow> 0 | Some n \<Rightarrow> n) < cm_sequence c"
  defines "log'' \<equiv> log'[unat t - 1 := log' ! (unat t - 1) @ [c]]"
  shows "drain_inv ops s0 sent log log'' (Some (case late of None \<Rightarrow> t | Some v \<Rightarrow> min v t)) room0
    ((accept_sequence c room)\<lparr>rr_history := map_adjust t (\<lambda>r. r\<lparr>tr_commands := tr_commands r @ [c]\<rparr>) (rr_history room)\<rparr>)"
proof -
  have pos: "0 < unat t" "unat t \<le> length log'"
    using target len inv by (auto simp: drain_inv_def unat_gt_0 word_le_nat_alt)
  have cmds: "commands_inv sent log' (rr_pending room) (rr_sequences room)"
    using inv by (simp add: drain_inv_def)
  have "commands_inv sent log'' (rr_pending room)
      (hm_insert (cm_player c) (cm_sequence c) (rr_sequences room))"
  proof (rule commands_inv_fresh [OF cmds new])
    show "mset (concat log'' @ map sd_command (rr_pending room)) =
        add_mset c (mset (concat log' @ map sd_command (rr_pending room)))"
      using pos by (simp add: log''_def mset_concat_update)
    show "\<forall>i < length log''. \<forall>d \<in> set (log'' ! i).
        \<exists>t. \<lparr>sb_target = t, sb_command = d\<rparr> \<in> sent \<and> unat t \<le> Suc i"
    proof (intro allI impI ballI)
      fix i d assume i: "i < length log''" and d: "d \<in> set (log'' ! i)"
      show "\<exists>t. \<lparr>sb_target = t, sb_command = d\<rparr> \<in> sent \<and> unat t \<le> Suc i"
      proof (cases "i = unat t - 1 \<and> d = c")
        case True
        with sent pos show ?thesis by auto
      next
        case False
        with i d have "i < length log'" "d \<in> set (log' ! i)"
          by (cases "i = unat t - 1"; auto simp: log''_def)+
        with cmds show ?thesis by (simp add: commands_inv_def)
      qed
    qed
    show "\<forall>x \<in> set (rr_pending room). \<lparr>sb_target = sd_target x, sb_command = sd_command x\<rparr> \<in> sent"
      using cmds by (simp add: commands_inv_def)
  qed
  moreover have "commands_of log'' (map_adjust t (\<lambda>r. r\<lparr>tr_commands := tr_commands r @ [c]\<rparr>) (rr_history room))"
    unfolding commands_of_def
  proof (intro allI impI)
    fix n r assume r: "map_of (map_adjust t (\<lambda>r. r\<lparr>tr_commands := tr_commands r @ [c]\<rparr>) (rr_history room)) n = Some r"
    have old: "tr_commands x = log_at log' n" if "map_of (rr_history room) n = Some x" for x
      using that inv by (simp add: drain_inv_def commands_of_def)
    show "tr_commands r = log_at log'' n"
    proof (cases "n = t")
      case True
      with r found old [of x] pos target show ?thesis
        by (auto simp: map_of_adjust log_at_def log''_def)
    next
      case False
      then have "unat n - 1 \<noteq> unat t - 1 \<or> n = 0"
        using pos by (metis Suc_diff_1 unat_eq_zero word_unat_eq_iff zero_less_iff_neq_zero)
      with False r old [of r] show ?thesis
        by (auto simp: map_of_adjust log_at_def log''_def)
    qed
  qed
  moreover have "snapshots_of ops (rr_delta room) s0 log (Suc (length log))
      (map_adjust t (\<lambda>r. r\<lparr>tr_commands := tr_commands r @ [c]\<rparr>) (rr_history room))"
    using inv by (auto simp: drain_inv_def snapshots_of_def map_of_adjust)
  moreover have "case late of
        None \<Rightarrow> take (unat t - 1) log'' = take (unat t - 1) log
      | Some v \<Rightarrow> take (unat (min v t) - 1) log'' = take (unat (min v t) - 1) log"
  proof (cases late)
    case None
    then have "log' = log" using inv by (simp add: drain_inv_def)
    with None show ?thesis by (simp add: log''_def)
  next
    case (Some v)
    then have old: "take (unat v - 1) log' = take (unat v - 1) log" using inv by (simp add: drain_inv_def)
    have le: "unat (min v t) - 1 \<le> unat v - 1" "unat (min v t) - 1 \<le> unat t - 1"
      by (auto simp: min_def word_le_nat_alt)
    have "take (unat (min v t) - 1) log'' = take (unat (min v t) - 1) log'"
      using le(2) by (simp add: log''_def)
    also have "\<dots> = take (unat (min v t) - 1) log"
      using arg_cong [OF old, of "take (unat (min v t) - 1)"] le(1) by (simp add: min_absorb1)
    finally show ?thesis using Some by simp
  qed
  moreover have "bt_wf (map_adjust t (\<lambda>r. r\<lparr>tr_commands := tr_commands r @ [c]\<rparr>) (rr_history room))"
    using inv by (simp add: drain_inv_def bt_wf_def map_adjust_keys)
  moreover have "dom (map_of (map_adjust t (\<lambda>r. r\<lparr>tr_commands := tr_commands r @ [c]\<rparr>) (rr_history room))) =
      dom (map_of (rr_history room))"
    by simp
  ultimately show ?thesis
    using inv target
    by (auto simp: drain_inv_def accept_sequence_def log''_def min_def split: option.splits)
qed

lemma drain_one_scheduled:
  assumes inv: "drain_inv ops s0 sent log log' late room0 room"
    and sent: "\<lparr>sb_target = t, sb_command = c\<rparr> \<in> sent"
    and new: "(case map_of (rr_sequences room) (cm_player c) of None \<Rightarrow> 0 | Some n \<Rightarrow> n) < cm_sequence c"
  shows "drain_inv ops s0 sent log log' late room0
    ((accept_sequence c room)\<lparr>rr_order := order, rr_pending := insort_key (\<lambda>x. (sd_target x, sd_order x))
       \<lparr>sd_target = t, sd_order = order, sd_command = c\<rparr> (rr_pending room)\<rparr>)"
proof -
  have cmds: "commands_inv sent log' (rr_pending room) (rr_sequences room)"
    using inv by (simp add: drain_inv_def)
  have "mset (map sd_command (insort_key (\<lambda>x. (sd_target x, sd_order x))
      \<lparr>sd_target = t, sd_order = order, sd_command = c\<rparr> (rr_pending room))) =
      add_mset c (mset (map sd_command (rr_pending room)))"
    by (simp only: mset_map mset_insort) simp
  then have "commands_inv sent log' (insort_key (\<lambda>x. (sd_target x, sd_order x))
      \<lparr>sd_target = t, sd_order = order, sd_command = c\<rparr> (rr_pending room))
      (hm_insert (cm_player c) (cm_sequence c) (rr_sequences room))"
    using cmds sent by (intro commands_inv_fresh [OF cmds new]) (auto simp: commands_inv_def set_insort_key)
  with inv show ?thesis by (auto simp: drain_inv_def accept_sequence_def split: option.splits)
qed

lemma drain_inv_bump:
  "drain_inv ops s0 sent log log' late room0 (bump f room) = drain_inv ops s0 sent log log' late room0 room"
  by (simp add: drain_inv_def cong: option.case_cong)

lemma follows_bump [simp]: "follows ref (bump f room) = follows ref room"
  by (simp add: follows_def)

lemma follows_last:
  "follows ref room \<Longrightarrow> (case map_of (rr_sequences room) p of None \<Rightarrow> 0 | Some n \<Rightarrow> n) = rf_last ref p"
  by (simp add: follows_def)

lemma follows_accept:
  assumes "follows ref room"
  shows "follows (ref\<lparr>rf_last := (rf_last ref)(cm_player c := cm_sequence c)\<rparr>) (accept_sequence c room)"
  using assms by (simp add: follows_def accept_sequence_def hm_insert_def map_of_remove)

lemma insort_schedule:
  assumes "\<forall>y \<in> set ys. sd_order y < order"
  shows "map (\<lambda>x. (sd_target x, sd_command x))
      (insort_key (\<lambda>x. (sd_target x, sd_order x)) \<lparr>sd_target = t, sd_order = order, sd_command = c\<rparr> ys) =
    ref_schedule (t, c) (map (\<lambda>x. (sd_target x, sd_command x)) ys)"
  using assms
proof (induction ys)
  case (Cons y ys)
  then have "(t, order) \<le> (sd_target y, sd_order y) \<longleftrightarrow> \<not> sd_target y \<le> t"
    by (auto simp: less_eq_prod_def not_le)
  with Cons show ?case by (auto simp: ref_schedule_def)
qed (simp add: ref_schedule_def)

lemma follows_schedule:
  assumes "follows ref room" "unat (rr_order room) + 1 < 2 ^ 64"
  shows "follows (ref\<lparr>rf_waiting := ref_schedule (t, c) (rf_waiting ref)\<rparr>)
    (room\<lparr>rr_order := rr_order room + 1,
       rr_pending := insort_key (\<lambda>x. (sd_target x, sd_order x))
         \<lparr>sd_target = t, sd_order = rr_order room + 1, sd_command = c\<rparr> (rr_pending room)\<rparr>)"
proof -
  have order: "unat (rr_order room + 1) = Suc (unat (rr_order room))"
    using assms(2) by (simp add: unat_word_ariths)
  then have less: "\<forall>y \<in> set (rr_pending room). sd_order y < rr_order room + 1"
    using assms(1) by (auto simp: follows_def word_less_nat_alt word_le_nat_alt less_Suc_eq_le)
  then have "\<forall>y \<in> set (rr_pending room). sd_order y \<le> rr_order room + 1" by (simp add: order_less_imp_le)
  with insort_schedule [OF less] assms(1) show ?thesis
    by (simp add: follows_def set_insort_key)
qed

text \<open>One command: the reference takes the same decision, unless the command is for a tick that is final; then the
room will try to roll back too far.\<close>

lemma drain_one_inv:
  assumes inv: "drain_inv ops s0 sent log (rf_log ref) late room0 room"
    and len: "length log = unat (rr_current room0)"
    and sent: "x \<in> sent" "sb_target x \<noteq> 0"
    and window: "dom (map_of (rr_history room0)) = {rr_finalized room0..rr_current room0}"
    and follows: "follows ref room" and order: "unat (rr_order room) + 1 < 2 ^ 64"
  defines "ref' \<equiv> ref_receive (rr_config room0) (unat (rr_finalized room0)) x ref"
  shows "(\<exists>v. fst (drain_one (late, room) x) = Some v \<and> v \<le> rr_finalized room0) \<or>
    drain_inv ops s0 sent log (rf_log ref') (fst (drain_one (late, room) x)) room0 (snd (drain_one (late, room) x)) \<and>
    follows ref' (snd (drain_one (late, room) x)) \<and>
    unat (rr_order (snd (drain_one (late, room) x))) \<le> Suc (unat (rr_order room))"
proof -
  obtain t c where x: "x = \<lparr>sb_target = t, sb_command = c\<rparr>" by (cases x)
  let ?room = "bump ct_received_update room"
  let ?last = "case map_of (rr_sequences room) (cm_player c) of None \<Rightarrow> 0 | Some n \<Rightarrow> n"
  have same: "rr_config room = rr_config room0" "rr_current room = rr_current room0"
    "dom (map_of (rr_history room)) = {rr_finalized room0..rr_current room0}" "length (rf_log ref) = length log"
    using inv window by (simp_all add: drain_inv_def)
  have len': "length log = unat (rr_current room)" using len same by simp
  have past_iff: "unat t \<le> length (rf_log ref) \<longleftrightarrow> t \<le> rr_current room"
    using same len' by (simp add: word_le_nat_alt)
  have waiting: "length (rf_waiting ref) = length (rr_pending room)" using follows by (simp add: follows_def)
  have inv': "drain_inv ops s0 sent log (rf_log ref) late room0 ?room"
    and inv'': "drain_inv ops s0 sent log (rf_log ref) late room0 (bump ct_late_update ?room)"
    using inv by (simp_all only: drain_inv_bump)
  have dup: "cm_sequence c \<le> ?last \<longleftrightarrow> \<not> ?last < cm_sequence c" by (simp add: not_less)
  note last = follows_last [OF follows, of "cm_player c"]
  have unchanged: ?thesis if "drain_one (late, room) x = (late, room')" "ref' = ref"
      "room' = bump f ?room \<or> room' = bump f (bump g ?room)" for room' f g
    using that inv follows by (auto simp: drain_inv_bump)
  show ?thesis
  proof (cases "?last < cm_sequence c")
    case False
    then have "drain_one (late, room) x = (late, bump ct_duplicates_update ?room)" "ref' = ref"
      using last by (simp_all add: drain_one_def x Let_def dup ref'_def ref_receive_def not_less)
    then show ?thesis by (rule unchanged) blast
  next
    case fresh: True
    then have fresh': "\<not> cm_sequence c \<le> rf_last ref (cm_player c)" using last by (simp add: not_le)
    show ?thesis
    proof (cases "t \<le> rr_current room")
      case past: True
      show ?thesis
      proof (cases "\<exists>r. map_of (rr_history room) t = Some r \<and>
          length (tr_commands r) < rc_max_commands_per_tick (rr_config room)")
        case True
        then obtain r where r: "map_of (rr_history room) t = Some r"
          "length (tr_commands r) < rc_max_commands_per_tick (rr_config room)" by blast
        have step: "drain_one (late, room) x =
            (Some (case late of None \<Rightarrow> t | Some v \<Rightarrow> min v t),
             (accept_sequence c (bump ct_late_update ?room))\<lparr>rr_history := map_adjust t
                (\<lambda>r. r\<lparr>tr_commands := tr_commands r @ [c]\<rparr>) (rr_history (bump ct_late_update ?room))\<rparr>)"
          using r past fresh by (simp add: drain_one_def x Let_def dup)
        show ?thesis
        proof (cases "t \<le> rr_finalized room0")
          case True
          then have "fst (drain_one (late, room) x) = Some (case late of None \<Rightarrow> t | Some v \<Rightarrow> min v t) \<and>
              (case late of None \<Rightarrow> t | Some v \<Rightarrow> min v t) \<le> rr_finalized room0"
            unfolding step by (auto simp: min_le_iff_disj split: option.split)
          then show ?thesis by blast
        next
          case False
          have "tr_commands r = rf_log ref ! (unat t - 1)"
            using inv r(1) sent x by (simp add: drain_inv_def commands_of_def log_at_def)
          then have ref': "ref' = ref\<lparr>rf_last := (rf_last ref)(cm_player c := cm_sequence c),
              rf_log := (rf_log ref)[unat t - 1 := rf_log ref ! (unat t - 1) @ [c]]\<rparr>"
            using fresh' past False r(2) same(1) past_iff
            by (simp add: ref'_def ref_receive_def x Let_def word_le_nat_alt)
          then have log': "rf_log ref' = (rf_log ref)[unat t - 1 := rf_log ref ! (unat t - 1) @ [c]]" by simp
          have "drain_inv ops s0 sent log (rf_log ref') (fst (drain_one (late, room) x)) room0 (snd (drain_one (late, room) x))"
            unfolding step fst_conv snd_conv log'
            by (rule drain_one_late [OF inv'']) (use r fresh past sent len' x in simp_all)
          moreover have "follows ref' (snd (drain_one (late, room) x))"
            using follows_accept [of ref "bump ct_late_update ?room" c] follows
            unfolding step ref' by (simp add: follows_def)
          moreover have "rr_order (snd (drain_one (late, room) x)) = rr_order room"
            unfolding step by (simp add: accept_sequence_def)
          ultimately show ?thesis by simp
        qed
      next
        case False
        have "drain_one (late, room) x = (late, bump ct_rejected_update (bump ct_late_update ?room))"
          using past fresh False by (cases "map_of (rr_history room) t") (simp_all add: drain_one_def x Let_def dup)
        moreover have "ref' = ref"
        proof (cases "rr_finalized room0 < t")
          case True
          then have "t \<in> dom (map_of (rr_history room))" using past same by simp
          then obtain r where r: "map_of (rr_history room) t = Some r" by blast
          then have "tr_commands r = rf_log ref ! (unat t - 1)"
            using inv sent x by (simp add: drain_inv_def commands_of_def log_at_def)
          with r False fresh' past past_iff same(1) show ?thesis
            by (auto simp: ref'_def ref_receive_def x Let_def)
        next
          case False
          with fresh' past past_iff show ?thesis
            by (simp add: ref'_def ref_receive_def x Let_def word_less_nat_alt)
        qed
        ultimately show ?thesis by (rule unchanged) blast
      qed
    next
      case future: False
      show ?thesis
      proof (cases "rc_max_pending_commands (rr_config room) \<le> length (rr_pending room)")
        case True
        then have "drain_one (late, room) x = (late, bump ct_rejected_update ?room)" "ref' = ref"
          using future fresh fresh' past_iff waiting same(1)
          by (simp_all add: drain_one_def x Let_def dup ref'_def ref_receive_def)
        then show ?thesis by (rule unchanged) blast
      next
        case False
        let ?next = "(accept_sequence c ?room)\<lparr>rr_order := rr_order ?room + 1,
               rr_pending := insort_key (\<lambda>x. (sd_target x, sd_order x))
                 \<lparr>sd_target = t, sd_order = rr_order ?room + 1, sd_command = c\<rparr> (rr_pending ?room)\<rparr>"
        have step: "drain_one (late, room) x = (late, ?next)"
          using future fresh False by (simp add: drain_one_def x Let_def dup accept_sequence_def)
        have ref': "ref' = ref\<lparr>rf_last := (rf_last ref)(cm_player c := cm_sequence c),
            rf_waiting := ref_schedule (t, c) (rf_waiting ref)\<rparr>"
          using future fresh' past_iff waiting False same(1) by (simp add: ref'_def ref_receive_def x Let_def)
        then have log': "rf_log ref' = rf_log ref" by simp
        have "drain_inv ops s0 sent log (rf_log ref') (fst (drain_one (late, room) x)) room0 (snd (drain_one (late, room) x))"
          unfolding step fst_conv snd_conv log'
          by (rule drain_one_scheduled [OF inv']) (use fresh sent x in simp_all)
        moreover have "follows ref' (snd (drain_one (late, room) x))"
          using follows_schedule [OF follows_accept [of ref ?room c], of t c] follows order
          unfolding step ref' by (simp add: accept_sequence_def)
        moreover have "unat (rr_order (snd (drain_one (late, room) x))) = Suc (unat (rr_order room))"
          using order unfolding step by (simp add: unat_word_ariths)
        ultimately show ?thesis by simp
      qed
    qed
  qed
qed

text \<open>A command for a final tick dooms the tick.\<close>

lemma drain_one_late_le: "\<exists>w \<le> v. fst (drain_one (Some v, room) x) = Some w"
  by (auto simp: drain_one_def Let_def split: option.splits)

lemma drain_fold_late_le: "\<exists>w \<le> v. fst (foldl drain_one (Some v, room) xs) = Some w"
proof (induction xs arbitrary: v room)
  case (Cons x xs)
  obtain w room' where w: "w \<le> v" "drain_one (Some v, room) x = (Some w, room')"
    using drain_one_late_le [of v room x] by (metis prod.collapse)
  from Cons.IH [of w room'] w show ?case by (auto intro: order_trans)
qed simp

lemma drain_fold_inv:
  assumes "drain_inv ops s0 sent log (rf_log ref) late room0 room" "length log = unat (rr_current room0)"
    "set xs \<subseteq> sent" "\<forall>x \<in> sent. sb_target x \<noteq> 0"
    "dom (map_of (rr_history room0)) = {rr_finalized room0..rr_current room0}"
    "follows ref room" "unat (rr_order room) + length xs < 2 ^ 64"
  defines "drained \<equiv> foldl drain_one (late, room) xs"
    and "ref' \<equiv> fold (ref_receive (rr_config room0) (unat (rr_finalized room0))) xs ref"
  shows "(\<exists>v. fst drained = Some v \<and> v \<le> rr_finalized room0) \<or>
    drain_inv ops s0 sent log (rf_log ref') (fst drained) room0 (snd drained) \<and> follows ref' (snd drained) \<and>
    unat (rr_order (snd drained)) \<le> unat (rr_order room) + length xs"
  unfolding drained_def ref'_def
  using assms(1-7)
proof (induction xs arbitrary: ref late room)
  case (Cons x xs)
  obtain late1 room1 where one: "drain_one (late, room) x = (late1, room1)" by fastforce
  let ?ref = "ref_receive (rr_config room0) (unat (rr_finalized room0)) x ref"
  consider v where "late1 = Some v" "v \<le> rr_finalized room0"
    | "drain_inv ops s0 sent log (rf_log ?ref) late1 room0 room1" "follows ?ref room1"
      "unat (rr_order room1) \<le> Suc (unat (rr_order room))"
    using drain_one_inv [of ops s0 sent log ref late room0 room x] Cons.prems one by auto
  then show ?case
  proof cases
    case 1
    then obtain w where "w \<le> v" "fst (foldl drain_one (late1, room1) xs) = Some w"
      using drain_fold_late_le by metis
    with 1 one show ?thesis by (auto intro: order_trans)
  next
    case 2
    then have "unat (rr_order room1) + length xs < 2 ^ 64" using Cons.prems(7) by simp
    from Cons.IH [OF 2(1) _ _ _ _ 2(2) this] 2(3) Cons.prems(2-5) one show ?thesis by auto
  qed
qed simp

subsection \<open>Resimulation\<close>

text \<open>What resimulation and the tick itself leave alone.\<close>

definition same_frame ::
    "('s, 'c, 'n, 'h, 'o, 'p) realtime_room \<Rightarrow> ('s, 'c, 'n, 'h, 'o, 'p) realtime_room \<Rightarrow> bool" where
  "same_frame room room' \<longleftrightarrow>
     rr_queue room' = rr_queue room \<and> rr_initialized room' = rr_initialized room \<and>
     rr_finalized room' = rr_finalized room \<and> rr_config room' = rr_config room \<and>
     rr_delta room' = rr_delta room \<and> rr_running room' = rr_running room \<and>
     rr_sequences room' = rr_sequences room \<and> rr_order room' = rr_order room"

lemma same_frame_refl [simp]: "same_frame room room"
  by (simp add: same_frame_def)

lemma observe_simps [simp]:
  "rr_simulation (observe env f room) = rr_simulation room" "rr_queue (observe env f room) = rr_queue room"
  "rr_pending (observe env f room) = rr_pending room" "rr_history (observe env f room) = rr_history room"
  "rr_sequences (observe env f room) = rr_sequences room" "rr_initialized (observe env f room) = rr_initialized room"
  "rr_current (observe env f room) = rr_current room" "rr_finalized (observe env f room) = rr_finalized room"
  "rr_config (observe env f room) = rr_config room" "rr_delta (observe env f room) = rr_delta room"
  "rr_running (observe env f room) = rr_running room" "rr_order (observe env f room) = rr_order room"
  by (simp_all add: observe_def split: option.splits sum.splits prod.splits)

lemma realtime_capture_Inr:
  "realtime_capture env room t = (Inr (n, h), room') \<Longrightarrow>
     so_snapshot (re_simulation env) (rr_simulation room) t = Inr n \<and> room' = bump ct_snapshots_update room \<and>
     state_fits (re_simulation env) (rc_max_snapshot_bytes (rr_config room)) (rr_simulation room) t"
  by (auto simp: realtime_capture_def realtime_encode_def state_fits_def split: sum.splits if_splits)

lemma apply_all_run:
  "apply_all env cs room = (Inr u, room') \<Longrightarrow>
     run_commands (re_simulation env) cs (rr_simulation room) = Some (rr_simulation room') \<and>
     room' = room\<lparr>rr_simulation := rr_simulation room'\<rparr>"
proof (induction cs arbitrary: room)
  case (Cons c cs)
  obtain r s where step: "so_apply (re_simulation env) (rr_simulation room) c = (r, s)" by fastforce
  with Cons.prems obtain v where "r = Inr v" by (cases r) auto
  with Cons.IH [of "room\<lparr>rr_simulation := s\<rparr>"] Cons.prems step show ?case by simp
qed simp

lemma resimulate_tick_run:
  assumes "resimulate_tick env number room = (Inr u, room')"
  obtains r n h where "map_of (rr_history room) number = Some r"
    "run_tick (re_simulation env) (tick_at (rr_delta room) number) (tr_commands r) (rr_simulation room) =
       Some (rr_simulation room')"
    "so_snapshot (re_simulation env) (rr_simulation room') (tick_at (rr_delta room) number) = Inr n"
    "state_fits (re_simulation env) (rc_max_snapshot_bytes (rr_config room)) (rr_simulation room') (tick_at (rr_delta room) number)"
    "rr_history room' = map_adjust number (\<lambda>r. r\<lparr>tr_snapshot := n, tr_hash := h\<rparr>) (rr_history room)"
    "same_frame room room'" "rr_pending room' = rr_pending room" "rr_current room' = rr_current room"
proof -
  let ?ops = "re_simulation env"
  obtain r where r: "map_of (rr_history room) number = Some r"
    using assms by (auto simp: resimulate_tick_def split: option.splits)
  obtain room1 where cmds: "apply_all env (tr_commands r) room = (Inr (), room1)"
    using assms r by (auto simp: resimulate_tick_def split: prod.splits sum.splits)
  note run = apply_all_run [OF cmds]
  define s1 where "s1 = rr_simulation room1"
  have room1: "room1 = room\<lparr>rr_simulation := s1\<rparr>" using run by (simp add: s1_def)
  have frame: "rr_delta room1 = rr_delta room" "rr_history room1 = rr_history room"
    "same_frame room room1" "rr_pending room1 = rr_pending room" "rr_current room1 = rr_current room"
    by (simp_all add: room1 same_frame_def)
  obtain s where step: "so_step ?ops (rr_simulation room1) (tick_at (rr_delta room) number) = (Inr (), s)"
    using assms r cmds frame
    by (auto simp: resimulate_tick_def Let_def realtime_tick_at split: prod.splits sum.splits)
  obtain n h room2 where captured: "realtime_capture env (room1\<lparr>rr_simulation := s\<rparr>)
      (tick_at (rr_delta room) number) = (Inr (n, h), room2)"
    and room': "room' = room2\<lparr>rr_history := map_adjust number (\<lambda>r. r\<lparr>tr_snapshot := n, tr_hash := h\<rparr>) (rr_history room2)\<rparr>"
    using assms r cmds frame step
    by (auto simp: resimulate_tick_def Let_def realtime_tick_at split: prod.splits sum.splits)
  note snap = realtime_capture_Inr [OF captured]
  show thesis
    by (rule that [OF r, of n h])
      (use run step snap room' frame in \<open>simp_all add: run_tick_def same_frame_def\<close>)
qed

lemma resimulate_ticks_run:
  fixes env :: "('s, 'c, 'n, 'h, 'o, 'p) room_env"
  defines "ops \<equiv> re_simulation env"
  assumes "resimulate_ticks env (map of_nat [a..<b]) room = (Inr u, room')"
    and "state_after ops (rr_delta room) log s0 (a - 1) = Some (rr_simulation room)"
    and "0 < a" "a \<le> b" "b \<le> Suc (length log)" "length log < 2 ^ 64"
    and "commands_of log (rr_history room)" "snapshots_of ops (rr_delta room) s0 log a (rr_history room)"
    and "bt_wf (rr_history room)"
    and "states_fit ops (rc_max_snapshot_bytes (rr_config room)) (rr_delta room) s0 log a"
  shows "state_after ops (rr_delta room) log s0 (b - 1) = Some (rr_simulation room') \<and>
    states_fit ops (rc_max_snapshot_bytes (rr_config room)) (rr_delta room) s0 log b \<and>
    commands_of log (rr_history room') \<and> snapshots_of ops (rr_delta room) s0 log b (rr_history room') \<and>
    bt_wf (rr_history room') \<and> dom (map_of (rr_history room')) = dom (map_of (rr_history room)) \<and>
    same_frame room room' \<and> rr_pending room' = rr_pending room \<and> rr_current room' = rr_current room"
  using assms(2-)
proof (induction "b - a" arbitrary: a room)
  case 0
  then have "a = b" by simp
  with 0 show ?case by simp
next
  case (Suc k)
  let ?n = "of_nat a :: u64"
  have less: "a < b" using Suc.hyps(2) by simp
  have n: "unat ?n = a" using Suc.prems less by (simp add: unat_of_nat)
  have "map of_nat [a..<b] = ?n # map of_nat [Suc a..<b]"
    using less by (simp add: upt_conv_Cons)
  with Suc.prems(1) obtain room1 where one: "resimulate_tick env ?n room = (Inr (), room1)"
    and rest: "resimulate_ticks env (map of_nat [Suc a..<b]) room1 = (Inr u, room')"
    by (auto split: prod.splits sum.splits)
  obtain r m h where t: "map_of (rr_history room) ?n = Some r"
    "run_tick ops (tick_at (rr_delta room) ?n) (tr_commands r) (rr_simulation room) = Some (rr_simulation room1)"
    "so_snapshot ops (rr_simulation room1) (tick_at (rr_delta room) ?n) = Inr m"
    "state_fits ops (rc_max_snapshot_bytes (rr_config room)) (rr_simulation room1) (tick_at (rr_delta room) ?n)"
    "rr_history room1 = map_adjust ?n (\<lambda>r. r\<lparr>tr_snapshot := m, tr_hash := h\<rparr>) (rr_history room)"
    "same_frame room room1" "rr_pending room1 = rr_pending room" "rr_current room1 = rr_current room"
    using resimulate_tick_run [OF one] unfolding ops_def by metis
  have delta: "rr_delta room1 = rr_delta room" "rr_config room1 = rr_config room" using t(6) by (simp_all add: same_frame_def)
  have "tr_commands r = log ! (a - 1)"
    using t(1) Suc.prems(3,7) n by (auto simp: commands_of_def log_at_def)
  moreover have "state_after ops (rr_delta room) log s0 (Suc (a - 1)) =
      run_tick ops (tick_at (rr_delta room) (of_nat (Suc (a - 1)))) (log ! (a - 1)) (rr_simulation room)"
    using Suc.prems(2,3,5) less by (subst state_after_Suc) auto
  ultimately have state: "state_after ops (rr_delta room) log s0 a = Some (rr_simulation room1)"
    using t(2) Suc.prems(3) by simp
  have "commands_of log (rr_history room1)"
    using Suc.prems(7) unfolding commands_of_def t(5) by (auto simp: map_of_adjust)
  moreover have "snapshots_of ops (rr_delta room) s0 log (Suc a) (rr_history room1)"
    unfolding snapshots_of_def
  proof (intro allI impI)
    fix x y assume x: "map_of (rr_history room1) x = Some y" "unat x < Suc a"
    show "\<exists>s. state_after ops (rr_delta room) log s0 (unat x) = Some s \<and>
        so_snapshot ops s (tick_at (rr_delta room) x) = Inr (tr_snapshot y)"
    proof (cases "x = ?n")
      case True
      with x state t(1,3,5) n show ?thesis by (auto simp: map_of_adjust)
    next
      case False
      then have "unat x \<noteq> a" using n by (metis word_unat_eq_iff)
      with False x t(5) Suc.prems(8) show ?thesis by (auto simp: map_of_adjust snapshots_of_def)
    qed
  qed
  moreover have "bt_wf (rr_history room1)"
    using Suc.prems(9) unfolding t(5) by (simp add: bt_wf_def)
  moreover have "states_fit ops (rc_max_snapshot_bytes (rr_config room)) (rr_delta room) s0 log (Suc a)"
    using Suc.prems(10) state t(4) by (simp add: states_fit_Suc)
  ultimately have "state_after ops (rr_delta room) log s0 (b - 1) = Some (rr_simulation room') \<and>
    states_fit ops (rc_max_snapshot_bytes (rr_config room)) (rr_delta room) s0 log b \<and>
    commands_of log (rr_history room') \<and> snapshots_of ops (rr_delta room) s0 log b (rr_history room') \<and>
    bt_wf (rr_history room') \<and> dom (map_of (rr_history room')) = dom (map_of (rr_history room1)) \<and>
    same_frame room1 room' \<and> rr_pending room' = rr_pending room1 \<and> rr_current room' = rr_current room1"
    using Suc.hyps(1) [of "Suc a" room1] Suc.hyps(2) rest state Suc.prems(5,6) less
    unfolding delta by simp
  moreover have "dom (map_of (rr_history room1)) = dom (map_of (rr_history room))"
    unfolding t(5) by simp
  ultimately show ?case
    using t(6-8) by (simp add: same_frame_def)
qed

lemma distinct_mset_subset:
  assumes "distinct xs" "mset ys \<subseteq># mset xs"
  shows "distinct ys"
proof -
  obtain zs where "mset xs = mset (ys @ zs)"
    using assms(2) by (metis ex_mset mset_append mset_subset_eq_exists_conv)
  with assms(1) have "distinct (ys @ zs)" using mset_eq_imp_distinct_iff by blast
  then show ?thesis by simp
qed

lemma commands_inv_take:
  assumes inv: "commands_inv sent log pending sequences"
    and sub: "mset (concat (log @ [cs]) @ map sd_command pending') \<subseteq># mset (concat log @ map sd_command pending)"
    and pending: "set pending' \<subseteq> set pending" and sequences: "sequences' = sequences"
    and due: "\<forall>c \<in> set cs. \<exists>x \<in> set pending. sd_command x = c \<and> unat (sd_target x) \<le> Suc (length log)"
  shows "commands_inv sent (log @ [cs]) pending' sequences'"
proof -
  have "image_mset command_key (mset (concat (log @ [cs]) @ map sd_command pending')) \<subseteq>#
      image_mset command_key (mset (concat log @ map sd_command pending))"
    using sub by (rule image_mset_subseteq_mono)
  then have "mset (map command_key (concat (log @ [cs]) @ map sd_command pending')) \<subseteq>#
      mset (map command_key (concat log @ map sd_command pending))"
    by (simp only: mset_map)
  moreover have "distinct (map command_key (concat log @ map sd_command pending))"
    using inv unfolding commands_inv_def by blast
  ultimately have "distinct (map command_key (concat (log @ [cs]) @ map sd_command pending'))"
    by (rule distinct_mset_subset [rotated])
  moreover have "set (concat (log @ [cs]) @ map sd_command pending') \<subseteq> set (concat log @ map sd_command pending)"
    using set_mset_mono [OF sub] by (simp only: set_mset_mset)
  moreover have "\<exists>t. \<lparr>sb_target = t, sb_command = c\<rparr> \<in> sent \<and> unat t \<le> Suc i"
    if "i < length (log @ [cs])" "c \<in> set ((log @ [cs]) ! i)" for i c
  proof (cases "i < length log")
    case True
    with that inv show ?thesis by (simp add: commands_inv_def nth_append)
  next
    case False
    with that have "i = length log" "c \<in> set cs" by (simp_all add: nth_append)
    with due inv show ?thesis unfolding commands_inv_def by fastforce
  qed
  ultimately show ?thesis
    using inv pending sequences unfolding commands_inv_def by blast
qed

lemma publish_tick_proj:
  assumes "\<And>r x. f (r\<lparr>rr_snapshots := x\<rparr>) = f r" "\<And>r x. f (r\<lparr>rr_publisher := x\<rparr>) = f r"
    and "\<And>r g. f (bump g r) = f r" "\<And>r g. f (observe env g r) = f r"
  shows "f (publish_tick env n sn h room) = f room"
proof (cases "re_publisher env")
  case None
  with assms show ?thesis by (simp add: publish_tick_def Let_def)
next
  case (Some ops)
  let ?room = "observe env (\<lambda>ops ob. ob_snapshot ops ob (realtime_tick room n) sn h) (room\<lparr>rr_snapshots := Some sn\<rparr>)"
  obtain result pu where published: "pb_publish ops (rr_publisher ?room)
      \<lparr>snap_room_id = rr_id ?room, snap_tick = n, snap_elapsed = tk_elapsed (realtime_tick room n),
       snap_state = sn, snap_state_hash = h\<rparr> = (result, pu)" by fastforce
  show ?thesis
  proof (cases result)
    case None
    with Some published assms show ?thesis by (simp add: publish_tick_def Let_def)
  next
    case (Some r)
    with \<open>re_publisher env = Some ops\<close> published assms show ?thesis
      by (cases r) (simp_all add: publish_tick_def Let_def)
  qed
qed

lemma publish_tick_simps [simp]:
  "rr_simulation (publish_tick env n sn h room) = rr_simulation room"
  "rr_queue (publish_tick env n sn h room) = rr_queue room"
  "rr_pending (publish_tick env n sn h room) = rr_pending room"
  "rr_history (publish_tick env n sn h room) = rr_history room"
  "rr_sequences (publish_tick env n sn h room) = rr_sequences room"
  "rr_initialized (publish_tick env n sn h room) = rr_initialized room"
  "rr_current (publish_tick env n sn h room) = rr_current room"
  "rr_finalized (publish_tick env n sn h room) = rr_finalized room"
  "rr_config (publish_tick env n sn h room) = rr_config room"
  "rr_delta (publish_tick env n sn h room) = rr_delta room"
  "rr_running (publish_tick env n sn h room) = rr_running room"
  "rr_order (publish_tick env n sn h room) = rr_order room"
  by ((rule publish_tick_proj [where f = rr_simulation]; simp),
    (rule publish_tick_proj [where f = rr_queue]; simp),
    (rule publish_tick_proj [where f = rr_pending]; simp),
    (rule publish_tick_proj [where f = rr_history]; simp),
    (rule publish_tick_proj [where f = rr_sequences]; simp),
    (rule publish_tick_proj [where f = rr_initialized]; simp),
    (rule publish_tick_proj [where f = rr_current]; simp),
    (rule publish_tick_proj [where f = rr_finalized]; simp),
    (rule publish_tick_proj [where f = rr_config]; simp),
    (rule publish_tick_proj [where f = rr_delta]; simp),
    (rule publish_tick_proj [where f = rr_running]; simp),
    (rule publish_tick_proj [where f = rr_order]; simp))

subsection \<open>What the room relies on\<close>

locale lawful_simulation =
  fixes ops :: "('s, 'c, 'n) simulation_ops"
  assumes restore_snapshot:
      "so_snapshot ops s t = Inr n \<Longrightarrow> so_restore ops s' t n = (Inr u, s'') \<Longrightarrow> s'' = s"
    and refused: "so_apply ops s c = (Inl e, s') \<Longrightarrow> s' = s"
begin

lemma restore_checkpoint_state:
  assumes "re_simulation env = ops" "restore_checkpoint env base room = (Inr u, room')"
    and "snapshots_of ops (rr_delta room) s0 log bound (rr_history room)" "unat base < bound"
  shows "state_after ops (rr_delta room) log s0 (unat base) = Some (rr_simulation room') \<and>
    room' = room\<lparr>rr_simulation := rr_simulation room'\<rparr> \<and> base \<in> dom (map_of (rr_history room))"
proof -
  obtain r where r: "map_of (rr_history room) base = Some r"
    using assms(2) by (auto simp: restore_checkpoint_def split: option.splits)
  then obtain s where s: "state_after ops (rr_delta room) log s0 (unat base) = Some s"
    "so_snapshot ops s (tick_at (rr_delta room) base) = Inr (tr_snapshot r)"
    using assms(3,4) unfolding snapshots_of_def by blast
  obtain s' where restored: "so_restore ops (rr_simulation room) (tick_at (rr_delta room) base) (tr_snapshot r) =
      (Inr (), s')" "room' = room\<lparr>rr_simulation := s'\<rparr>"
    using assms(1,2) r
    by (auto simp: restore_checkpoint_def Let_def realtime_tick_at split: sum.splits if_splits prod.splits)
  with restore_snapshot [OF s(2)] s(1) r show ?thesis by auto
qed

lemma resimulate_explains:
  assumes env: "re_simulation env = ops"
    and drained: "drain_inv ops s0 sent log log' (Some from) room0 room"
    and len: "length log = unat (rr_current room)"
    and result: "realtime_resimulate env from (rr_current room) room = (Inr u, room')"
  shows "from - 1 \<in> dom (map_of (rr_history room)) \<and>
    run_log ops (rr_delta room) 1 log' s0 = Some (rr_simulation room') \<and>
    commands_of log' (rr_history room') \<and>
    snapshots_of ops (rr_delta room) s0 log' (Suc (length log')) (rr_history room') \<and>
    states_fit ops (rc_max_snapshot_bytes (rr_config room)) (rr_delta room) s0 log' (Suc (length log')) \<and>
    bt_wf (rr_history room') \<and> dom (map_of (rr_history room')) = dom (map_of (rr_history room)) \<and>
    same_frame room room' \<and> rr_pending room' = rr_pending room \<and> rr_current room' = rr_current room"
proof -
  have from_pos: "from \<noteq> 0" "from \<le> rr_current room" "take (unat from - 1) log' = take (unat from - 1) log"
    and len': "length log' = length log"
    using drained by (auto simp: drain_inv_def)
  have base: "checked_sub from 1 = Some (from - 1)" "unat (from - 1) = unat from - 1"
    using from_pos by (simp_all add: checked_sub_def unat_pred word_le_nat_alt unat_gt_0 Suc_le_eq)
  obtain room1 where restored: "restore_checkpoint env (from - 1) room = (Inr (), room1)"
    using result base by (auto simp: realtime_resimulate_def split: prod.splits sum.splits)
  obtain room2 where ticks: "resimulate_ticks env (tick_range from (rr_current room)) room1 = (Inr (), room2)"
    and fields: "rr_simulation room' = rr_simulation room2" "rr_history room' = rr_history room2"
      "same_frame room2 room'" "rr_pending room' = rr_pending room2" "rr_current room' = rr_current room2"
    using result base restored
    by (auto simp: realtime_resimulate_def Let_def same_frame_def split: prod.splits sum.splits option.splits)
  have bound: "unat (from - 1) < Suc (length log)"
    using from_pos(2) len base by (simp add: word_le_nat_alt)
  have snaps: "snapshots_of ops (rr_delta room) s0 log (Suc (length log)) (rr_history room)"
    using drained by (auto simp: drain_inv_def)
  define s1 where "s1 = rr_simulation room1"
  have checkpoint: "state_after ops (rr_delta room) log s0 (unat from - 1) = Some s1"
    "room1 = room\<lparr>rr_simulation := s1\<rparr>" "from - 1 \<in> dom (map_of (rr_history room))"
    using restore_checkpoint_state [OF env restored snaps bound] base by (simp_all add: s1_def)
  have "state_after ops (rr_delta room1) log' s0 (unat from - 1) = Some (rr_simulation room1)"
    using checkpoint(1) state_after_cong [OF from_pos(3), of ops "rr_delta room" s0] by (simp add: checkpoint(2))
  moreover have "snapshots_of ops (rr_delta room1) s0 log' (unat from) (rr_history room1)"
    unfolding snapshots_of_def
  proof (intro allI impI)
    fix n x assume n: "map_of (rr_history room1) n = Some x" "unat n < unat from"
    then have "take (unat n) log' = take (unat n) log"
      using arg_cong [OF from_pos(3), of "take (unat n)"] by (simp add: min_absorb1)
    moreover have "unat n < Suc (length log)"
      using n from_pos(2) len by (simp add: word_le_nat_alt)
    ultimately show "\<exists>s. state_after ops (rr_delta room1) log' s0 (unat n) = Some s \<and>
        so_snapshot ops s (tick_at (rr_delta room1) n) = Inr (tr_snapshot x)"
      using n snaps state_after_cong [of "unat n" log' log ops "rr_delta room" s0] unfolding checkpoint(2) snapshots_of_def by auto
  qed
  moreover have "commands_of log' (rr_history room1)" "bt_wf (rr_history room1)"
    using drained by (auto simp: drain_inv_def checkpoint(2))
  moreover have "0 < unat from" "unat from \<le> Suc (unat (rr_current room))" "length log' < 2 ^ 64"
    using from_pos len len' unat_lt2p [of "rr_current room"]
    by (simp_all add: unat_gt_0 word_le_nat_alt)
  moreover have "states_fit ops (rc_max_snapshot_bytes (rr_config room1)) (rr_delta room1) s0 log' (unat from)"
  proof -
    have "states_fit ops (rc_max_snapshot_bytes (rr_config room)) (rr_delta room) s0 log (Suc (length log))"
      using drained by (auto simp: drain_inv_def)
    moreover have "unat from \<le> Suc (length log)" using from_pos(2) len by (simp add: word_le_nat_alt)
    ultimately have "states_fit ops (rc_max_snapshot_bytes (rr_config room)) (rr_delta room) s0 log (unat from)"
      by (rule states_fit_mono)
    then show ?thesis by (simp add: checkpoint(2) states_fit_cong [OF from_pos(3)])
  qed
  ultimately have "state_after ops (rr_delta room1) log' s0 (Suc (unat (rr_current room)) - 1) = Some (rr_simulation room2) \<and>
    states_fit ops (rc_max_snapshot_bytes (rr_config room1)) (rr_delta room1) s0 log' (Suc (unat (rr_current room))) \<and>
    commands_of log' (rr_history room2) \<and>
    snapshots_of ops (rr_delta room1) s0 log' (Suc (unat (rr_current room))) (rr_history room2) \<and>
    bt_wf (rr_history room2) \<and> dom (map_of (rr_history room2)) = dom (map_of (rr_history room1)) \<and>
    same_frame room1 room2 \<and> rr_pending room2 = rr_pending room1 \<and> rr_current room2 = rr_current room1"
    using resimulate_ticks_run [OF ticks [unfolded tick_range_def], of log' s0] env len len' by simp
  then show ?thesis
    using fields checkpoint(3) len len' state_after_all [of log' "unat (rr_current room)" ops "rr_delta room" s0]
    by (simp add: checkpoint(2) same_frame_def)
qed

lemma take_commands_run:
  assumes env: "re_simulation env = ops" and "take_commands env number limit acc room = (commands, room')"
  shows "\<exists>new. commands = acc @ new \<and>
    run_commands ops new (rr_simulation room) = Some (rr_simulation room') \<and>
    (\<forall>c \<in> set new. \<exists>x \<in> set (rr_pending room). sd_command x = c \<and> sd_target x \<le> number) \<and>
    mset (new @ map sd_command (rr_pending room')) \<subseteq># mset (map sd_command (rr_pending room)) \<and>
    set (rr_pending room') \<subseteq> set (rr_pending room) \<and>
    same_frame room room' \<and> rr_current room' = rr_current room \<and> rr_history room' = rr_history room"
  using assms(2)
proof (induction limit arbitrary: acc room)
  case (Suc limit)
  show ?case
  proof (cases "rr_pending room")
    case (Cons item rest)
    show ?thesis
    proof (cases "number < sd_target item")
      case due: False
      let ?c = "sd_command item"
      let ?room = "observe env (\<lambda>obs ob. ob_command obs ob number ?c) (room\<lparr>rr_pending := rest\<rparr>)"
      obtain r s where step: "so_apply ops (rr_simulation room) ?c = (r, s)" by fastforce
      show ?thesis
      proof (cases r)
        case (Inl e)
        then have s: "s = rr_simulation room" using refused step by simp
        have "take_commands env number limit acc (bump ct_rejected_update (?room\<lparr>rr_simulation := s\<rparr>)) = (commands, room')"
          using Suc.prems Cons due step Inl env by (simp add: Let_def)
        from Suc.IH [OF this] obtain new where new: "commands = acc @ new"
          "run_commands ops new s = Some (rr_simulation room')"
          "\<forall>c \<in> set new. \<exists>x \<in> set rest. sd_command x = c \<and> sd_target x \<le> number"
          "mset (new @ map sd_command (rr_pending room')) \<subseteq># mset (map sd_command rest)"
          "set (rr_pending room') \<subseteq> set rest" "same_frame room room'"
          "rr_current room' = rr_current room" "rr_history room' = rr_history room"
          by (auto simp: same_frame_def)
        have "mset (map sd_command rest) \<subseteq># mset (map sd_command (rr_pending room))"
          using Cons by simp
        then have "mset (new @ map sd_command (rr_pending room')) \<subseteq># mset (map sd_command (rr_pending room))"
          using new(4) by (rule subset_mset.order_trans [rotated])
        with new Cons s show ?thesis by (intro exI [of _ new]) auto
      next
        case (Inr u)
        have "take_commands env number limit (acc @ [?c]) (bump ct_applied_update (?room\<lparr>rr_simulation := s\<rparr>)) =
            (commands, room')"
          using Suc.prems Cons due step Inr env by (simp add: Let_def)
        from Suc.IH [OF this] obtain new where new: "commands = (acc @ [?c]) @ new"
          "run_commands ops new s = Some (rr_simulation room')"
          "\<forall>c \<in> set new. \<exists>x \<in> set rest. sd_command x = c \<and> sd_target x \<le> number"
          "mset (new @ map sd_command (rr_pending room')) \<subseteq># mset (map sd_command rest)"
          "set (rr_pending room') \<subseteq> set rest" "same_frame room room'"
          "rr_current room' = rr_current room" "rr_history room' = rr_history room"
          by (auto simp: same_frame_def)
        have "mset ((?c # new) @ map sd_command (rr_pending room')) \<subseteq># mset (map sd_command (rr_pending room))"
          using new(4) Cons by simp
        with new Cons step Inr due show ?thesis
          by (intro exI [of _ "?c # new"]) auto
      qed
    qed (use Suc Cons in simp)
  qed (use Suc in simp)
qed simp

lemma take_commands_due:
  assumes env: "re_simulation env = ops" and "take_commands env number limit acc room = (commands, room')"
  shows "commands = acc @ accepted ops (map sd_command (take limit (takeWhile (\<lambda>x. sd_target x \<le> number) (rr_pending room))))
      (rr_simulation room) \<and>
    rr_pending room' = drop (length (take limit (takeWhile (\<lambda>x. sd_target x \<le> number) (rr_pending room)))) (rr_pending room)"
  using assms(2)
proof (induction limit arbitrary: acc room)
  case (Suc limit)
  show ?case
  proof (cases "rr_pending room")
    case (Cons item rest)
    show ?thesis
    proof (cases "number < sd_target item")
      case due: False
      let ?c = "sd_command item"
      let ?room = "observe env (\<lambda>obs ob. ob_command obs ob number ?c) (room\<lparr>rr_pending := rest\<rparr>)"
      obtain r s where step: "so_apply ops (rr_simulation room) ?c = (r, s)" by fastforce
      show ?thesis
      proof (cases r)
        case (Inl e)
        then have "s = rr_simulation room" using refused step by simp
        moreover have "take_commands env number limit acc (bump ct_rejected_update (?room\<lparr>rr_simulation := s\<rparr>)) = (commands, room')"
          using Suc.prems Cons due step Inl env by (simp add: Let_def)
        ultimately show ?thesis using Suc.IH Cons due step Inl by (fastforce simp: not_less)
      next
        case (Inr u)
        have "take_commands env number limit (acc @ [?c]) (bump ct_applied_update (?room\<lparr>rr_simulation := s\<rparr>)) =
            (commands, room')"
          using Suc.prems Cons due step Inr env by (simp add: Let_def)
        from Suc.IH [OF this] show ?thesis using Cons due step Inr by (simp add: not_less)
      qed
    qed (use Suc.prems Cons in \<open>simp add: not_le [symmetric]\<close>)
  qed (use Suc.prems in simp)
qed simp

text \<open>A tick extends the log by the commands it took.\<close>

lemma simulate_tick_explains:
  assumes env: "re_simulation env = ops"
    and result: "simulate_tick env number room = (Inr (n, h), room')"
    and number: "unat number = Suc (length log)" "length log = unat (rr_current room)"
    and state: "run_log ops (rr_delta room) 1 log s0 = Some (rr_simulation room)"
    and wf: "bt_wf (rr_history room)" and cmds: "commands_of log (rr_history room)"
    and snaps: "snapshots_of ops (rr_delta room) s0 log (Suc (length log)) (rr_history room)"
    and fits: "states_fit ops (rc_max_snapshot_bytes (rr_config room)) (rr_delta room) s0 log (Suc (length log))"
    and inv: "commands_inv sent log (rr_pending room) (rr_sequences room)"
    and below: "\<forall>k \<in> dom (map_of (rr_history room)). k < number"
  obtains cs where "cs = accepted ops (map sd_command (take (rc_max_commands_per_tick (rr_config room))
      (takeWhile (\<lambda>x. sd_target x \<le> number) (rr_pending room)))) (rr_simulation room)"
    "rr_pending room' = drop (length (take (rc_max_commands_per_tick (rr_config room))
      (takeWhile (\<lambda>x. sd_target x \<le> number) (rr_pending room)))) (rr_pending room)"
    "rr_current room' = number" "same_frame room room'"
    "run_log ops (rr_delta room) 1 (log @ [cs]) s0 = Some (rr_simulation room')"
    "bt_wf (rr_history room')" "dom (map_of (rr_history room')) = insert number (dom (map_of (rr_history room)))"
    "commands_of (log @ [cs]) (rr_history room')"
    "snapshots_of ops (rr_delta room) s0 (log @ [cs]) (Suc (length (log @ [cs]))) (rr_history room')"
    "states_fit ops (rc_max_snapshot_bytes (rr_config room)) (rr_delta room) s0 (log @ [cs]) (Suc (length (log @ [cs])))"
    "commands_inv sent (log @ [cs]) (rr_pending room') (rr_sequences room')"
proof -
  let ?t = "tick_at (rr_delta room) number"
  obtain cs room1 where taken: "take_commands env number (rc_max_commands_per_tick (rr_config room)) [] room = (cs, room1)"
    by fastforce
  have run: "run_commands ops cs (rr_simulation room) = Some (rr_simulation room1)"
    "\<forall>c \<in> set cs. \<exists>x \<in> set (rr_pending room). sd_command x = c \<and> sd_target x \<le> number"
    "mset (cs @ map sd_command (rr_pending room1)) \<subseteq># mset (map sd_command (rr_pending room))"
    "set (rr_pending room1) \<subseteq> set (rr_pending room)"
    "same_frame room room1" "rr_history room1 = rr_history room"
    using take_commands_run [OF env taken] by auto
  obtain s where step: "so_step ops (rr_simulation room1) ?t = (Inr (), s)"
    using result taken env
    by (auto simp: simulate_tick_def realtime_tick_at Let_def split: prod.splits sum.splits)
  have config1: "rr_config room1 = rr_config room" using run(5) by (simp add: same_frame_def)
  have captured: "so_snapshot ops s ?t = Inr n \<and> state_fits ops (rc_max_snapshot_bytes (rr_config room)) s ?t \<and> rr_simulation room' = s \<and> rr_current room' = number \<and>
      rr_pending room' = rr_pending room1 \<and> same_frame room1 room' \<and>
      rr_history room' = bt_insert number \<lparr>tr_commands = cs, tr_snapshot = n, tr_hash = h\<rparr> (rr_history room1)"
    using result taken env step config1
    by (auto simp: simulate_tick_def realtime_tick_at same_frame_def Let_def dest!: realtime_capture_Inr
        split: prod.splits sum.splits)
  have of_nat: "of_nat (Suc (length log)) = number" using number(1) by (metis of_nat_unat ucast_id)
  have "run_log ops (rr_delta room) 1 (log @ [cs]) s0 = Some (rr_simulation room')"
    using state run(1) step captured of_nat by (simp add: run_log_append run_tick_def)
  moreover have "bt_wf (rr_history room')"
    using wf run(6) captured by (simp add: bt.map_laws)
  moreover have lookup: "map_of (rr_history room') =
      (map_of (rr_history room))(number \<mapsto> \<lparr>tr_commands = cs, tr_snapshot = n, tr_hash = h\<rparr>)"
    using wf run(6) captured by (simp add: bt_get_insert)
  moreover have "commands_of (log @ [cs]) (rr_history room')"
    unfolding commands_of_def
  proof (intro allI impI)
    fix k x assume k: "map_of (rr_history room') k = Some x"
    show "tr_commands x = log_at (log @ [cs]) k"
    proof (cases "k = number")
      case True
      with number(1) have "k \<noteq> 0" "unat k - 1 = length log" by auto
      with True k lookup show ?thesis by (auto simp: log_at_def)
    next
      case False
      with k lookup have old: "map_of (rr_history room) k = Some x" by simp
      with below have "unat k < Suc (length log)" using number(1) by (auto simp: word_less_nat_alt)
      moreover have "unat k - 1 < length log" if "k \<noteq> 0"
        using that \<open>unat k < Suc (length log)\<close> unat_gt_0 [of k] by linarith
      moreover have "tr_commands x = log_at log k" using old cmds by (simp add: commands_of_def)
      ultimately show ?thesis by (cases "k = 0") (simp_all add: log_at_def nth_append)
    qed
  qed
  moreover have "snapshots_of ops (rr_delta room) s0 (log @ [cs]) (Suc (length (log @ [cs]))) (rr_history room')"
    unfolding snapshots_of_def
  proof (intro allI impI)
    fix k x assume k: "map_of (rr_history room') k = Some x"
    show "\<exists>s. state_after ops (rr_delta room) (log @ [cs]) s0 (unat k) = Some s \<and>
        so_snapshot ops s (tick_at (rr_delta room) k) = Inr (tr_snapshot x)"
    proof (cases "k = number")
      case True
      with k lookup have "tr_snapshot x = n" by auto
      with True calculation(1) captured number(1) show ?thesis
        by (auto simp: state_after_all)
    next
      case False
      with k lookup have old: "map_of (rr_history room) k = Some x" by simp
      with below have "unat k < Suc (length log)" using number(1) by (auto simp: word_less_nat_alt)
      then have "state_after ops (rr_delta room) (log @ [cs]) s0 (unat k) = state_after ops (rr_delta room) log s0 (unat k)"
        by (intro state_after_cong) simp
      with old snaps \<open>unat k < Suc (length log)\<close> show ?thesis by (simp add: snapshots_of_def)
    qed
  qed
  moreover have "states_fit ops (rc_max_snapshot_bytes (rr_config room)) (rr_delta room) s0 (log @ [cs]) (Suc (length (log @ [cs])))"
  proof -
    have "state_after ops (rr_delta room) (log @ [cs]) s0 (Suc (length log)) = Some s"
      using calculation(1) captured by (simp add: state_after_all)
    moreover have "states_fit ops (rc_max_snapshot_bytes (rr_config room)) (rr_delta room) s0 (log @ [cs]) (Suc (length log))"
      using fits by (subst states_fit_cong [of _ _ log]) simp_all
    ultimately show ?thesis using captured of_nat by (simp add: states_fit_Suc [of _ _ _ _ _ "Suc (length log)"] del: of_nat_Suc)
  qed
  moreover have "commands_inv sent (log @ [cs]) (rr_pending room') (rr_sequences room')"
  proof (rule commands_inv_take [OF inv])
    show "mset (concat (log @ [cs]) @ map sd_command (rr_pending room')) \<subseteq>#
        mset (concat log @ map sd_command (rr_pending room))"
      using run(3) captured by (simp add: add.assoc)
    show "set (rr_pending room') \<subseteq> set (rr_pending room)" using run(4) captured by simp
    show "rr_sequences room' = rr_sequences room" using run(5) captured by (simp add: same_frame_def)
    show "\<forall>c \<in> set cs. \<exists>x \<in> set (rr_pending room). sd_command x = c \<and> unat (sd_target x) \<le> Suc (length log)"
      using run(2) number(1) by (metis word_le_nat_alt)
  qed
  moreover have "same_frame room room'" using run(5) captured by (simp add: same_frame_def)
  ultimately show thesis
    using that [of cs] captured take_commands_due [OF env taken] by (auto simp: run(6))
qed

lemma initialize_inv:
  assumes env: "re_simulation env = ops" and inv: "room_inv ops s0 sent log room"
    and result: "realtime_initialize env room = (Inr u, room')"
  shows "room_inv ops s0 sent log room' \<and> rr_initialized room' \<and> rr_current room' = rr_current room \<and>
    rr_finalized room' = rr_finalized room \<and> rr_config room' = rr_config room \<and>
    rr_delta room' = rr_delta room \<and> rr_running room' = rr_running room \<and>
    rr_order room' = rr_order room \<and> rr_queue room' = rr_queue room \<and> (follows ref room \<longrightarrow> follows ref room')"
proof (cases "rr_initialized room")
  case True
  with inv result show ?thesis by (simp add: realtime_initialize_def)
next
  case False
  obtain n h room1 where captured: "realtime_capture env room (tick_at (rr_delta room) 0) = (Inr (n, h), room1)"
    and room': "room' = room1\<lparr>rr_history := bt_insert 0 \<lparr>tr_commands = [], tr_snapshot = n, tr_hash = h\<rparr>
      (rr_history room1), rr_initialized := True\<rparr>"
    using result False
    by (auto simp: realtime_initialize_def realtime_tick_at split: prod.splits sum.splits)
  note snap = realtime_capture_Inr [OF captured]
  have zero: "rr_current room = 0" "rr_finalized room = 0" "bt_wf (rr_history room)"
    "map_of (rr_history room) = Map.empty"
    using inv False by (auto simp: room_inv_def)
  have lookup: "map_of (rr_history room') = [0 \<mapsto> \<lparr>tr_commands = [], tr_snapshot = n, tr_hash = h\<rparr>]"
    using snap zero by (simp add: room' bt_get_insert)
  have "log = []" and state: "rr_simulation room = s0"
    using inv zero by (auto simp: room_inv_def)
  have "commands_of log (rr_history room')"
    by (auto simp: commands_of_def lookup log_at_def split: if_splits)
  moreover have "snapshots_of ops (rr_delta room) s0 log (Suc (length log)) (rr_history room')"
    using snap env state by (auto simp: snapshots_of_def lookup state_after_def \<open>log = []\<close> split: if_splits)
  moreover have "states_fit ops (rc_max_snapshot_bytes (rr_config room)) (rr_delta room) s0 log (Suc (length log))"
    using snap env state by (auto simp: states_fit_def state_after_def \<open>log = []\<close>)
  moreover have "bt_wf (rr_history room')" "dom (map_of (rr_history room')) = {0}"
    using snap zero by (simp_all add: room' bt_wf_def lookup)
  moreover have "rr_queue room' = rr_queue room" "rr_simulation room' = rr_simulation room"
    "rr_current room' = rr_current room" "rr_finalized room' = rr_finalized room"
    "rr_config room' = rr_config room" "rr_delta room' = rr_delta room" "rr_initialized room'"
    "rr_pending room' = rr_pending room" "rr_sequences room' = rr_sequences room"
    "rr_running room' = rr_running room" "rr_order room' = rr_order room"
    using snap by (simp_all add: room')
  ultimately show ?thesis
    using inv zero \<open>log = []\<close> state by (auto simp: room_inv_def follows_def)
qed

lemma finalize_inv:
  assumes current: "rr_current room = number" and initialized: "rr_initialized room"
    and final: "rr_finalized room = sat_sub (number - 1) (rc_rollback_window_ticks (rr_config room))"
    and number: "number \<noteq> 0" "length log = unat number"
    and domain: "dom (map_of (rr_history room)) = insert number {rr_finalized room..number - 1}"
    and inv: "set (rr_queue room) \<subseteq> sent" "run_log ops (rr_delta room) 1 log s0 = Some (rr_simulation room)"
      "bt_wf (rr_history room)" "commands_of log (rr_history room)"
      "snapshots_of ops (rr_delta room) s0 log (Suc (length log)) (rr_history room)"
      "commands_inv sent log (rr_pending room) (rr_sequences room)"
      "states_fit ops (rc_max_snapshot_bytes (rr_config room)) (rr_delta room) s0 log (Suc (length log))"
  shows "room_inv ops s0 sent log (finalize_tick number room)"
proof -
  let ?w = "rc_rollback_window_ticks (rr_config room)"
  let ?through = "sat_sub number ?w"
  have pos: "0 < unat number" "unat (number - 1) = unat number - 1"
    using number by (simp_all add: unat_gt_0 unat_pred)
  have le: "rr_finalized room \<le> ?through" "?through \<le> number"
    using pos by (simp_all add: final word_le_nat_alt unat_sat_sub)
  have fields: "rr_finalized (finalize_tick number room) = ?through"
    "rr_history (finalize_tick number room) = map_retain (\<lambda>n _. ?through \<le> n) (rr_history room)"
    "rr_simulation (finalize_tick number room) = rr_simulation room"
    "rr_queue (finalize_tick number room) = rr_queue room"
    "rr_pending (finalize_tick number room) = rr_pending room"
    "rr_sequences (finalize_tick number room) = rr_sequences room"
    "rr_initialized (finalize_tick number room) = rr_initialized room"
    "rr_current (finalize_tick number room) = rr_current room"
    "rr_config (finalize_tick number room) = rr_config room"
    "rr_delta (finalize_tick number room) = rr_delta room"
    using le by (auto simp: finalize_tick_def Let_def)
  have lookup: "map_of (map_retain (\<lambda>n _. ?through \<le> n) (rr_history room)) k =
      (if ?through \<le> k then map_of (rr_history room) k else None)" for k
    using bt_wf_distinct [OF inv(3)] by (auto simp: map_of_retain split: option.splits)
  have "dom (map_of (map_retain (\<lambda>n _. ?through \<le> n) (rr_history room))) = {?through..number}"
  proof -
    have "k \<le> number \<longleftrightarrow> k = number \<or> k \<le> number - 1" for k
      using pos unat_gt_0 [of k] by (auto simp: word_le_nat_alt intro: word_eqI_unat)
    then have "k \<in> {?through..number} \<longleftrightarrow> ?through \<le> k \<and> k \<in> dom (map_of (rr_history room))" for k
      using order_trans [OF le(1), of k] unfolding domain by auto
    moreover have "k \<in> dom (map_of (map_retain (\<lambda>n _. ?through \<le> n) (rr_history room))) \<longleftrightarrow>
        ?through \<le> k \<and> k \<in> dom (map_of (rr_history room))" for k
      by (simp add: domIff lookup)
    ultimately show ?thesis by (intro set_eqI) (simp only:)
  qed
  moreover have "commands_of log (map_retain (\<lambda>n _. ?through \<le> n) (rr_history room))"
    using inv(4) by (auto simp: commands_of_def lookup split: if_splits)
  moreover have "snapshots_of ops (rr_delta room) s0 log (Suc (length log)) (map_retain (\<lambda>n _. ?through \<le> n) (rr_history room))"
    using inv(5) by (auto simp: snapshots_of_def lookup split: if_splits)
  ultimately show ?thesis
    using inv current initialized number unfolding room_inv_def fields
    by (simp add: bt_wf_retain)
qed

lemma drain_fold_dom:
  "dom (map_of (rr_history (snd (foldl drain_one acc xs)))) = dom (map_of (rr_history (snd acc)))"
proof (induction xs arbitrary: acc)
  case (Cons x xs)
  have "dom (map_of (rr_history (snd (drain_one acc x)))) = dom (map_of (rr_history (snd acc)))"
    by (auto simp: drain_one_def Let_def accept_sequence_def split: prod.splits option.splits)
  with Cons.IH [of "drain_one acc x"] show ?case by simp
qed simp

lemma rollback_too_far:
  assumes "realtime_resimulate env v n room = (Inr u, room')"
  shows "v - 1 \<in> dom (map_of (rr_history room)) \<and> v \<noteq> 0"
  using assms
  by (auto simp: realtime_resimulate_def restore_checkpoint_def checked_sub_def word_le_nat_alt unat_gt_0
      split: option.splits if_splits prod.splits sum.splits)

lemma ref_due_pending:
  assumes "follows ref room" "unat number = Suc (length (rf_log ref))"
  shows "ref_due config ref = map (\<lambda>x. (sd_target x, sd_command x))
    (take (rc_max_commands_per_tick config) (takeWhile (\<lambda>x. sd_target x \<le> number) (rr_pending room)))"
  using assms by (simp add: ref_due_def follows_def takeWhile_map take_map comp_def word_le_nat_alt)

lemma advance_inner_inv:
  fixes nanos :: u64
  assumes env: "re_simulation env = ops" and inv: "room_inv ops s0 sent (rf_log ref) room"
    and follows: "follows ref room"
    and sent: "\<forall>x \<in> sent. sb_target x \<noteq> 0" and small: "Suc (unat (rr_current room)) < 2 ^ 64"
      "unat (rr_order room) + length (rr_queue room) < 2 ^ 64"
    and result: "realtime_advance_inner env room = (Inr u, room')"
  defines "ref' \<equiv> ref_event ops (rr_config room) (rr_delta room) s0 (Advance nanos) ref"
  shows "room_inv ops s0 sent (rf_log ref') room' \<and> follows ref' room' \<and>
    take (unat (rr_finalized room)) (rf_log ref') = take (unat (rr_finalized room)) (rf_log ref) \<and>
    unat (rr_current room') = Suc (unat (rr_current room)) \<and> rr_finalized room \<le> rr_finalized room' \<and>
    rr_config room' = rr_config room \<and> rr_delta room' = rr_delta room \<and> rr_queue room' = [] \<and>
    unat (rr_order room') \<le> unat (rr_order room) + length (rr_queue room)"
proof -
  define log where "log = rf_log ref"
  note inv = inv [folded log_def]
  obtain room1 where start: "realtime_initialize env room = (Inr (), room1)"
    using result by (auto simp: realtime_advance_inner_def split: prod.splits sum.splits)
  note one = initialize_inv [OF env inv start, of ref]
  obtain late room2 where drained: "realtime_drain room1 = (late, room2)" by fastforce
  have fold: "foldl drain_one (None, room1\<lparr>rr_queue := []\<rparr>) (rr_queue room) = (late, room2)"
    using drained one by (simp add: realtime_drain_def)
  let ?number = "rr_current room + 1"
  obtain room3 n h room4 where resim: "(case late of None \<Rightarrow> (Inr (), room2)
      | Some from \<Rightarrow> realtime_resimulate env from (rr_current room2) room2) = (Inr (), room3)"
    and tick: "simulate_tick env (rr_current room2 + 1) room3 = (Inr (n, h), room4)"
    and finish: "room' = finalize_tick (rr_current room2 + 1) (publish_tick env (rr_current room2 + 1) n h room4)"
    using result start drained
    by (auto simp: realtime_advance_inner_def Let_def split: prod.splits sum.splits)
  have len: "length log = unat (rr_current room)" using inv by (simp add: room_inv_def)
  have fin: "rr_finalized room = sat_sub (rr_current room) (rc_rollback_window_ticks (rr_config room))"
    using inv by (simp add: room_inv_def)
  have window: "dom (map_of (rr_history room1)) = {rr_finalized room1..rr_current room1}"
    using one by (auto simp: room_inv_def)
  define ref1 where "ref1 = fold (ref_receive (rr_config room) (unat (rr_finalized room))) (rr_queue room) (ref\<lparr>rf_inbox := []\<rparr>)"
  have "drain_inv ops s0 sent log (rf_log (ref\<lparr>rf_inbox := []\<rparr>)) None room1 (room1\<lparr>rr_queue := []\<rparr>)"
    using one unfolding room_inv_def drain_inv_def log_def by auto
  moreover have "follows (ref\<lparr>rf_inbox := []\<rparr>) (room1\<lparr>rr_queue := []\<rparr>)"
  proof -
    have "follows ref room1" using one follows by blast
    then show ?thesis by (simp add: follows_def)
  qed
  moreover have "set (rr_queue room) \<subseteq> sent" using inv by (simp add: room_inv_def)
  ultimately have "(\<exists>v. late = Some v \<and> v \<le> rr_finalized room) \<or>
      drain_inv ops s0 sent log (rf_log ref1) late room1 room2 \<and> follows ref1 room2 \<and>
      unat (rr_order room2) \<le> unat (rr_order room) + length (rr_queue room)"
    using drain_fold_inv [of ops s0 sent log "ref\<lparr>rf_inbox := []\<rparr>" None room1 "room1\<lparr>rr_queue := []\<rparr>" "rr_queue room"]
      len one sent window small(2) fold by (simp add: ref1_def)
  moreover have "\<not> (\<exists>v. late = Some v \<and> v \<le> rr_finalized room)"
  proof
    assume "\<exists>v. late = Some v \<and> v \<le> rr_finalized room"
    then obtain v where v: "late = Some v" "v \<le> rr_finalized room" by blast
    then have "v - 1 \<in> dom (map_of (rr_history room2))" "v \<noteq> 0"
      using resim rollback_too_far [of env v "rr_current room2" room2] by auto
    moreover have "dom (map_of (rr_history room2)) = {rr_finalized room..rr_current room}"
      using drain_fold_dom [of "(None, room1\<lparr>rr_queue := []\<rparr>)" "rr_queue room"] window one fold by simp
    ultimately have "unat (rr_finalized room) \<le> unat v - 1" "0 < unat v"
      by (simp_all add: word_le_nat_alt unat_pred unat_gt_0)
    with v(2) show False by (simp add: word_le_nat_alt)
  qed
  ultimately have d: "drain_inv ops s0 sent log (rf_log ref1) late room1 room2"
    and follows2: "follows ref1 room2" and order2: "unat (rr_order room2) \<le> unat (rr_order room) + length (rr_queue room)"
    by blast+
  define log1 where "log1 = rf_log ref1"
  note d = d [folded log1_def]
  have same2: "rr_current room2 = rr_current room" "rr_finalized room2 = rr_finalized room"
    "rr_config room2 = rr_config room" "rr_initialized room2" "rr_delta room2 = rr_delta room"
    "rr_queue room2 = []" "length log1 = length log"
    using d one by (auto simp: drain_inv_def)
  have dom2: "dom (map_of (rr_history room2)) = {rr_finalized room..rr_current room}"
    using d one by (auto simp: drain_inv_def room_inv_def)
  have room': "room' = finalize_tick ?number (publish_tick env ?number n h room4)"
    and tick: "simulate_tick env ?number room3 = (Inr (n, h), room4)"
    using finish tick same2 by simp_all
  have three: "run_log ops (rr_delta room2) 1 log1 s0 = Some (rr_simulation room3) \<and>
      commands_of log1 (rr_history room3) \<and>
      snapshots_of ops (rr_delta room2) s0 log1 (Suc (length log1)) (rr_history room3) \<and>
      states_fit ops (rc_max_snapshot_bytes (rr_config room2)) (rr_delta room2) s0 log1 (Suc (length log1)) \<and>
      bt_wf (rr_history room3) \<and> dom (map_of (rr_history room3)) = dom (map_of (rr_history room2)) \<and>
      same_frame room2 room3 \<and> rr_pending room3 = rr_pending room2 \<and> rr_current room3 = rr_current room2 \<and>
      take (unat (rr_finalized room)) log1 = take (unat (rr_finalized room)) log"
  proof (cases late)
    case None
    with d resim one show ?thesis by (auto simp: drain_inv_def room_inv_def)
  next
    case (Some v)
    have "length log = unat (rr_current room2)" using len same2 by simp
    note r = resimulate_explains [OF env d [unfolded Some] this, of "()" room3]
    have r': "realtime_resimulate env v (rr_current room2) room2 = (Inr (), room3)"
      using resim Some by simp
    have "rr_finalized room \<le> v - 1" using r [OF r'] dom2 by auto
    moreover have prefix: "take (unat v - 1) log1 = take (unat v - 1) log" "v \<noteq> 0"
      using d Some by (auto simp: drain_inv_def)
    ultimately have "unat (rr_finalized room) \<le> unat v - 1"
      by (simp add: word_le_nat_alt unat_pred)
    then have "take (unat (rr_finalized room)) log1 = take (unat (rr_finalized room)) log"
      using arg_cong [OF prefix(1), of "take (unat (rr_finalized room))"] by (simp add: min_absorb1)
    with r [OF r'] show ?thesis by blast
  qed
  have number: "unat ?number = Suc (unat (rr_current room))"
    using small by (simp add: unat_word_ariths)
  have below: "\<forall>k \<in> dom (map_of (rr_history room3)). k < ?number"
    using three dom2 number by (auto simp: word_less_nat_alt word_le_nat_alt)
  have "commands_inv sent log1 (rr_pending room3) (rr_sequences room3)"
    using three d by (simp add: drain_inv_def same_frame_def)
  note cmds3 = this
  have same3: "unat ?number = Suc (length log1)" "length log1 = unat (rr_current room3)" "rr_delta room3 = rr_delta room2"
    using number len same2 three by (simp_all add: same_frame_def)
  have log3: "run_log ops (rr_delta room3) 1 log1 s0 = Some (rr_simulation room3)" "bt_wf (rr_history room3)"
    "commands_of log1 (rr_history room3)"
    "snapshots_of ops (rr_delta room3) s0 log1 (Suc (length log1)) (rr_history room3)"
    "states_fit ops (rc_max_snapshot_bytes (rr_config room3)) (rr_delta room3) s0 log1 (Suc (length log1))"
    using three same3(3) by (simp_all add: same_frame_def)
  obtain cs where taken: "cs = accepted ops (map sd_command (take (rc_max_commands_per_tick (rr_config room3))
      (takeWhile (\<lambda>x. sd_target x \<le> ?number) (rr_pending room3)))) (rr_simulation room3)"
    "rr_pending room4 = drop (length (take (rc_max_commands_per_tick (rr_config room3))
      (takeWhile (\<lambda>x. sd_target x \<le> ?number) (rr_pending room3)))) (rr_pending room3)"
    and cs: "rr_current room4 = ?number" "same_frame room3 room4"
    "run_log ops (rr_delta room3) 1 (log1 @ [cs]) s0 = Some (rr_simulation room4)"
    "bt_wf (rr_history room4)" "dom (map_of (rr_history room4)) = insert ?number (dom (map_of (rr_history room3)))"
    "commands_of (log1 @ [cs]) (rr_history room4)"
    "snapshots_of ops (rr_delta room3) s0 (log1 @ [cs]) (Suc (length (log1 @ [cs]))) (rr_history room4)"
    "states_fit ops (rc_max_snapshot_bytes (rr_config room3)) (rr_delta room3) s0 (log1 @ [cs]) (Suc (length (log1 @ [cs])))"
    "commands_inv sent (log1 @ [cs]) (rr_pending room4) (rr_sequences room4)"
    by (rule simulate_tick_explains [OF env tick same3(1,2) log3 cmds3 below])
  have frame: "rr_finalized room4 = rr_finalized room" "rr_config room4 = rr_config room"
    "rr_delta room4 = rr_delta room3" "rr_initialized room4" "rr_queue room4 = []" "rr_delta room3 = rr_delta room"
    "rr_config room3 = rr_config room" "rr_order room4 = rr_order room2" "rr_sequences room4 = rr_sequences room2"
    using cs(2) three same2 by (auto simp: same_frame_def)
  have due: "ref_due (rr_config room) ref1 = map (\<lambda>x. (sd_target x, sd_command x))
      (take (rc_max_commands_per_tick (rr_config room)) (takeWhile (\<lambda>x. sd_target x \<le> ?number) (rr_pending room3)))"
    using ref_due_pending [OF follows2, of ?number] number len same2 three by (simp add: log1_def)
  have "unat (rr_finalized room) = length (rf_log ref) - unat (rc_rollback_window_ticks (rr_config room))"
    using len fin by (simp add: log_def unat_sat_sub)
  then have "ref' = ref_tick ops (rr_config room) (rr_delta room) s0 ref1"
    using follows by (simp add: ref'_def ref1_def follows_def)
  then have ref': "ref' = ref1\<lparr>rf_log := log1 @ [cs], rf_waiting := drop (length (ref_due (rr_config room) ref1)) (rf_waiting ref1)\<rparr>"
    using three same2(5) taken(1) frame(7) unfolding ref_tick_def
    by (simp add: log1_def due comp_def)
  have "room_inv ops s0 sent (log1 @ [cs]) room'"
    unfolding room'
    by (rule finalize_inv) (use cs frame fin number len same2 three dom2 in auto)
  moreover have "take (unat (rr_finalized room)) (log1 @ [cs]) = take (unat (rr_finalized room)) log"
  proof -
    have "rr_finalized room \<le> rr_current room" unfolding fin by (rule sat_sub_le)
    then have "unat (rr_finalized room) \<le> length log1"
      using len same2 by (simp add: word_le_nat_alt)
    with three show ?thesis by simp
  qed
  moreover have fields: "rr_current room' = ?number" "rr_config room' = rr_config room" "rr_delta room' = rr_delta room"
    "rr_queue room' = []" "rr_order room' = rr_order room2" "rr_pending room' = rr_pending room4"
    "rr_sequences room' = rr_sequences room2"
    unfolding room' using cs(1) frame by (simp_all add: finalize_tick_def Let_def)
  moreover have "rr_finalized room \<le> rr_finalized room'"
    using \<open>room_inv ops s0 sent (log1 @ [cs]) room'\<close> fields fin number
    by (simp add: room_inv_def word_le_nat_alt unat_sat_sub)
  moreover have "follows ref' room'"
  proof -
    have "set (rr_pending room') \<subseteq> set (rr_pending room2)"
      using fields taken(2) three by (auto dest: in_set_dropD)
    then show ?thesis
      using follows2 fields same2(6) taken(2) three frame(7)
      by (auto simp: follows_def ref' due drop_map)
  qed
  ultimately show ?thesis using number order2 by (simp add: ref' log_def)
qed

lemma room_inv_counters [simp]:
  "room_inv ops s0 sent log (room\<lparr>rr_counters := c\<rparr>) = room_inv ops s0 sent log room"
  by (simp add: room_inv_def)

lemma room_inv_queue:
  "room_inv ops s0 sent log room \<Longrightarrow> set q \<subseteq> sent \<Longrightarrow> room_inv ops s0 sent log (room\<lparr>rr_queue := q\<rparr>)"
  by (auto simp: room_inv_def)

lemma advance_inv:
  assumes env: "re_simulation env = ops" and inv: "room_inv ops s0 sent (rf_log ref) room" and follows: "follows ref room"
    and sent: "\<forall>x \<in> sent. sb_target x \<noteq> 0" and small: "Suc (unat (rr_current room)) < 2 ^ 64"
      "unat (rr_order room) + length (rr_queue room) < 2 ^ 64"
    and result: "realtime_advance env nanos room = (Inr u, room')"
  defines "ref' \<equiv> ref_event ops (rr_config room) (rr_delta room) s0 (Advance nanos) ref"
  shows "room_inv ops s0 sent (rf_log ref') room' \<and> follows ref' room' \<and>
    take (unat (rr_finalized room)) (rf_log ref') = take (unat (rr_finalized room)) (rf_log ref) \<and>
    unat (rr_current room') = Suc (unat (rr_current room)) \<and> rr_finalized room \<le> rr_finalized room' \<and>
    rr_config room' = rr_config room \<and> rr_delta room' = rr_delta room \<and> rr_queue room' = [] \<and>
    unat (rr_order room') \<le> unat (rr_order room) + length (rr_queue room)"
proof -
  obtain room1 where inner: "realtime_advance_inner env room = (Inr u, room1)"
    and room': "\<exists>c. room' = room1\<lparr>rr_counters := c\<rparr>"
    using result
    by (auto simp: realtime_advance_def realtime_advance_one_def Let_def split: if_splits prod.splits)
  have "follows ref' (room1\<lparr>rr_counters := c\<rparr>) = follows ref' room1" for c by (simp add: follows_def)
  then show ?thesis
    using advance_inner_inv [OF env inv follows sent small inner, of nanos] room' unfolding ref'_def by auto
qed

lemma room_play_inv:
  assumes "re_simulation env = ops" "room_inv ops s0 sent (rf_log ref) room" "follows ref room"
    and "\<forall>x \<in> sent. sb_target x \<noteq> 0" "sent_by events \<subseteq> sent"
    and "unat (rr_current room) + length events < 2 ^ 64"
    and "unat (rr_order room) + length (rr_queue room) + length events < 2 ^ 64"
    and "room_play env events room = Some room'"
  shows "let ref' = fold (ref_event ops (rr_config room) (rr_delta room) s0) events ref
    in room_inv ops s0 sent (rf_log ref') room' \<and> follows ref' room' \<and>
      take (unat (rr_finalized room)) (rf_log ref') = take (unat (rr_finalized room)) (rf_log ref) \<and>
      unat (rr_current room') \<le> unat (rr_current room) + length events \<and>
      unat (rr_order room') + length (rr_queue room') \<le> unat (rr_order room) + length (rr_queue room) + length events \<and>
      rr_config room' = rr_config room \<and> rr_delta room' = rr_delta room"
  using assms
proof (induction env events room arbitrary: ref rule: room_play.induct)
  case (2 env target c events room)
  let ?room = "case realtime_send room target c of None \<Rightarrow> room | Some r \<Rightarrow> r"
  let ?ref = "ref_event ops (rr_config room) (rr_delta room) s0 (Send target c) ref"
  have "\<lparr>sb_target = target, sb_command = c\<rparr> \<in> sent"
    using "2.prems"(5) by (auto simp: sent_by_def)
  with "2.prems"(2) have inv: "room_inv ops s0 sent (rf_log ?ref) ?room"
    by (auto simp: realtime_send_def bump_def room_inv_def [of _ _ _ _ room] intro!: room_inv_queue)
  have follows: "follows ?ref ?room" using "2.prems"(3) by (simp add: realtime_send_def follows_def)
  have same: "rr_finalized ?room = rr_finalized room" "rr_current ?room = rr_current room" "rr_config ?room = rr_config room"
    "rr_delta ?room = rr_delta room" "rr_order ?room = rr_order room" "rf_log ?ref = rf_log ref"
    "length (rr_queue ?room) \<le> Suc (length (rr_queue room))"
    by (simp_all add: realtime_send_def)
  have "sent_by events \<subseteq> sent" using "2.prems"(5) by (auto simp: sent_by_def)
  from "2.IH" [OF "2.prems"(1) inv follows "2.prems"(4) this] "2.prems"(6-8) same show ?case
    by (simp add: Let_def)
next
  case (3 env nanos events room)
  obtain u room1 where step: "realtime_advance env nanos room = (Inr u, room1)"
    and rest: "room_play env events room1 = Some room'"
    using "3.prems"(8) by (auto split: prod.splits sum.splits)
  have small: "Suc (unat (rr_current room)) < 2 ^ 64" "unat (rr_order room) + length (rr_queue room) < 2 ^ 64"
    using "3.prems"(6,7) by simp_all
  let ?ref = "ref_event ops (rr_config room) (rr_delta room) s0 (Advance nanos) ref"
  note one = advance_inv [OF "3.prems"(1-4) small step]
  have sub: "sent_by events \<subseteq> sent" using "3.prems"(5) by (auto simp: sent_by_def)
  have inv: "room_inv ops s0 sent (rf_log ?ref) room1" and follows: "follows ?ref room1" using one by blast+
  have bounds: "unat (rr_current room1) + length events < 2 ^ 64"
    "unat (rr_order room1) + length (rr_queue room1) + length events < 2 ^ 64"
    using one "3.prems"(6,7) by simp_all
  note two = "3.IH" [OF step [symmetric] refl "3.prems"(1) inv follows "3.prems"(4) sub bounds rest, unfolded Let_def]
  let ?ref' = "fold (ref_event ops (rr_config room) (rr_delta room) s0) events ?ref"
  have "take (unat (rr_finalized room)) (rf_log ?ref') = take (unat (rr_finalized room)) (rf_log ref)"
    using arg_cong [of _ _ "take (unat (rr_finalized room))", OF two [THEN conjunct2, THEN conjunct2, THEN conjunct1]] one
    by (simp add: min_absorb1 word_le_nat_alt)
  with two one show ?case by (simp add: Let_def)
qed simp

end

subsection \<open>The simulation of the code's own tests\<close>

text \<open>A counter that commands add to and that every tick increments.\<close>

definition le_bytes :: "int \<Rightarrow> bytes" where
  "le_bytes i = map (\<lambda>k. of_int (i div 256 ^ k)) [0..<8]"

definition adder :: "(int, int, int) simulation_ops" where
  "adder = \<lparr>so_apply = (\<lambda>i c. (Inr (), i + cm_value c)), so_step = (\<lambda>i _. (Inr (), i + 1)),
     so_snapshot = (\<lambda>i _. Inr i), so_encode = (\<lambda>_ i. Inr (le_bytes i)),
     so_restore = (\<lambda>_ _ i. (Inr (), i))\<rparr>"

interpretation adder: lawful_simulation adder
  by unfold_locales (simp_all add: adder_def)

text \<open>The scenario of the test \<open>rolls_back_late_input\<close>: a command for tick 1 arrives after tick 2.\<close>

definition adder_env :: "(int, int, int, unit, unit, unit) room_env" where
  "adder_env = \<lparr>re_digest = (\<lambda>_. ()), re_simulation = adder, re_observer = None, re_publisher = None\<rparr>"

definition adder_config :: "u64 \<Rightarrow> realtime_config" where
  "adder_config window = \<lparr>rc_tick_rate = 30, rc_input_delay_ticks = 0, rc_max_future_input_ticks = 600,
     rc_command_capacity = 8, rc_max_pending_commands = 8, rc_max_commands_per_tick = 8,
     rc_snapshot_interval = 1, rc_rollback_window_ticks = window, rc_max_snapshot_bytes = 16,
     rc_publish_timeout = 1\<rparr>"

definition adder_room :: "realtime_config \<Rightarrow> (int, int, int, unit, unit, unit) realtime_room" where
  "adder_room config = \<lparr>rr_id = ''r'', rr_config = config, rr_delta = 0, rr_simulation = 0,
     rr_queue = [], rr_pending = [], rr_history = [], rr_sequences = [], rr_order = 0,
     rr_initialized = False, rr_snapshots = None, rr_finalizations = None, rr_current = 0,
     rr_finalized = 0, rr_running = False, rr_counters = room_counters_default, rr_observer = (),
     rr_publisher = ()\<rparr>"

definition adder_command :: "int \<Rightarrow> int \<Rightarrow> int command" where
  "adder_command user n = \<lparr>cm_player = \<lparr>pk_region_id = 1, pk_realm_id = 1, pk_user_id = user\<rparr>,
     cm_sequence = 1, cm_value = n\<rparr>"

lemma adder_room_new:
  "realtime_room_new (\<lambda>_. 0) ''r'' (adder_config 3) 0 () () = Inr (adder_room (adder_config 3))"
  by code_simp

lemma adder_runs:
  "map_option rr_simulation (room_play adder_env [Send 1 (adder_command 1 2), Advance 0, Advance 0]
     (adder_room (adder_config 3))) = Some 4"
  "map_option rr_simulation (room_play adder_env [Send 1 (adder_command 1 2), Advance 0, Advance 0,
      Send 1 (adder_command 2 5), Advance 0] (adder_room (adder_config 3))) = Some 10"
  by code_simp+

lemma room_play_append:
  "room_play env (xs @ ys) room = Option.bind (room_play env xs room) (room_play env ys)"
  by (induction env xs room rule: room_play.induct) (auto split: prod.splits sum.splits)

subsection \<open>Properties\<close>

lemma room_inv_new:
  "realtime_room_new delta_of i config s0 ob pu = Inr room \<Longrightarrow> room_inv ops s0 sent [] room"
  by (auto simp: realtime_room_new_def room_inv_def commands_of_def snapshots_of_def commands_inv_def
      bt_wf_def hm_wf_def sat_sub_def split: sum.splits if_splits)

lemma room_inv_explains: "room_inv ops s0 sent log room \<Longrightarrow> explains ops s0 sent log room"
  unfolding room_inv_def explains_def commands_of_def commands_inv_def
  by (auto split: if_splits)

lemma room_inv_mono: "room_inv ops s0 sent log room \<Longrightarrow> sent \<subseteq> sent' \<Longrightarrow> room_inv ops s0 sent' log room"
  unfolding room_inv_def commands_inv_def by blast

text \<open>A room that was played from the start, and the reference.\<close>

lemma played_room:
  assumes "lawful_simulation (re_simulation env)"
    and "realtime_room_new delta_of i config s0 ob pu = Inr start" "room_play env events start = Some room"
    and "length events < 2 ^ 64" "\<forall>x \<in> sent_by events. sb_target x \<noteq> 0"
  defines "ref \<equiv> ref_play (re_simulation env) config (delta_of (rc_tick_rate config)) s0 events"
  shows "room_inv (re_simulation env) s0 (sent_by events) (rf_log ref) room" "follows ref room"
    "rr_config room = config" "rr_delta room = delta_of (rc_tick_rate config)"
    "unat (rr_current room) \<le> length events" "unat (rr_order room) + length (rr_queue room) \<le> length events"
proof -
  have start: "rr_current start = 0" "rr_order start = 0" "rr_queue start = []" "rr_config start = config"
    "rr_delta start = delta_of (rc_tick_rate config)" "follows ref_start start"
    using assms(2) by (auto simp: realtime_room_new_def follows_def ref_start_def split: sum.splits if_splits)
  have "room_inv (re_simulation env) s0 (sent_by events) (rf_log ref_start) start"
    using room_inv_new [OF assms(2)] by (simp add: ref_start_def)
  from lawful_simulation.room_play_inv [OF assms(1) refl this start(6) assms(5) subset_refl _ _ assms(3)]
  show "room_inv (re_simulation env) s0 (sent_by events) (rf_log ref) room" "follows ref room"
    "rr_config room = config" "rr_delta room = delta_of (rc_tick_rate config)"
    "unat (rr_current room) \<le> length events" "unat (rr_order room) + length (rr_queue room) \<le> length events"
    using start assms(4) by (simp_all add: ref_def ref_play_def Let_def)
qed



end
