(* ===== verification/Realtime_Failures.thy ===== *)
theory Realtime_Failures
  imports Realtime_Rollback
begin

text \<open>What a failing tick leaves behind in a \<open>Room\<close> of \<open>realtime.rs\<close>: a command that waited
too long in \<open>submit_at\<close> stops a running room for good, and a late command that the simulation
refuses leaves the simulation at an earlier tick than the room.\<close>

subsection \<open>How a room stops\<close>

text \<open>No step of a tick touches the \<open>running\<close> flag.\<close>

lemma realtime_capture_running: "rr_running (snd (realtime_capture env room t)) = rr_running room"
  by (simp add: realtime_capture_def split: sum.split)

lemma apply_all_running: "rr_running (snd (apply_all env cs room)) = rr_running room"
  by (induction cs arbitrary: room) (auto split: prod.split sum.split)

lemma resimulate_tick_running: "rr_running (snd (resimulate_tick env n room)) = rr_running room"
proof (cases "map_of (rr_history room) n")
  case (Some r)
  obtain q room1 where a: "apply_all env (tr_commands r) room = (q, room1)" by fastforce
  then have run: "rr_running room1 = rr_running room" using apply_all_running [of env "tr_commands r" room] by simp
  show ?thesis
  proof (cases q)
    case (Inr u)
    obtain q2 s where b: "so_step (re_simulation env) (rr_simulation room1) (realtime_tick room1 n) = (q2, s)" by fastforce
    show ?thesis
    proof (cases q2)
      case (Inr u2)
      obtain q3 room2 where "realtime_capture env (room1\<lparr>rr_simulation := s\<rparr>) (realtime_tick room1 n) = (q3, room2)"
        by fastforce
      moreover from this have "rr_running room2 = rr_running room"
        using realtime_capture_running [of env "room1\<lparr>rr_simulation := s\<rparr>" "realtime_tick room1 n"] run by simp
      ultimately show ?thesis
        using Some a b Inr \<open>q = Inr u\<close> by (auto simp: resimulate_tick_def Let_def split: sum.split)
    qed (use Some a b Inr run in \<open>simp add: resimulate_tick_def Let_def\<close>)
  qed (use Some a run in \<open>simp add: resimulate_tick_def\<close>)
qed (simp add: resimulate_tick_def)

lemma resimulate_ticks_running: "rr_running (snd (resimulate_ticks env ns room)) = rr_running room"
proof (induction ns arbitrary: room)
  case (Cons n ns)
  obtain q room1 where "resimulate_tick env n room = (q, room1)" by fastforce
  with Cons [of room1] resimulate_tick_running [of env n room] show ?case
    by (cases q) simp_all
qed simp

lemma take_commands_running: "rr_running (snd (take_commands env n k acc room)) = rr_running room"
proof (induction k arbitrary: acc room)
  case (Suc k)
  show ?case
  proof (cases "rr_pending room")
    case (Cons x xs)
    let ?room = "observe env (\<lambda>ops ob. ob_command ops ob n (sd_command x)) (room\<lparr>rr_pending := xs\<rparr>)"
    obtain q s where "so_apply (re_simulation env) (rr_simulation room) (sd_command x) = (q, s)" by fastforce
    with Cons Suc show ?thesis by (cases q) (simp_all add: Let_def)
  qed simp
qed simp

lemma restore_checkpoint_running:
  "restore_checkpoint env base room = (q, room') \<Longrightarrow> rr_running room' = rr_running room"
  by (auto simp: restore_checkpoint_def Let_def split: option.splits sum.splits if_splits prod.splits)

lemma realtime_resimulate_running:
  assumes "realtime_resimulate env a b room = (q, room')"
  shows "rr_running room' = rr_running room"
proof (cases "checked_sub a 1")
  case (Some base)
  obtain q1 room1 where one: "restore_checkpoint env base room = (q1, room1)" by fastforce
  obtain q2 room2 where two: "resimulate_ticks env (tick_range a b) room1 = (q2, room2)" by fastforce
  have "rr_running room1 = rr_running room" "rr_running room2 = rr_running room1"
    using restore_checkpoint_running [OF one] resimulate_ticks_running [of env "tick_range a b" room1] two by simp_all
  with assms Some one two show ?thesis
    by (cases q1; cases q2) (auto simp: realtime_resimulate_def Let_def split: option.splits)
qed (use assms in \<open>simp add: realtime_resimulate_def\<close>)

lemma simulate_tick_running:
  assumes "simulate_tick env n room = (q, room')"
  shows "rr_running room' = rr_running room"
proof -
  obtain cs room1 where one: "take_commands env n (rc_max_commands_per_tick (rr_config room)) [] room = (cs, room1)"
    by fastforce
  then have run: "rr_running room1 = rr_running room"
    using take_commands_running [of env n "rc_max_commands_per_tick (rr_config room)" "[]" room] by simp
  let ?t = "realtime_tick room n"
  obtain q1 s where two: "so_step (re_simulation env) (rr_simulation room1) ?t = (q1, s)" by fastforce
  let ?room = "observe env (\<lambda>ops ob. ob_tick ops ob ?t) (room1\<lparr>rr_simulation := s\<rparr>)"
  obtain q2 room2 where three: "realtime_capture env ?room ?t = (q2, room2)" by fastforce
  then have "rr_running room2 = rr_running room1"
    using realtime_capture_running [of env ?room ?t] by simp
  with assms one two three run show ?thesis
    by (cases q1; cases q2) (auto simp: simulate_tick_def Let_def)
qed

lemma drain_one_running: "rr_running (snd (drain_one (late, room) x)) = rr_running room"
  by (auto simp: drain_one_def Let_def accept_sequence_def split: option.split)

lemma drain_fold_running: "rr_running (snd (foldl drain_one (late, room) xs)) = rr_running room"
proof (induction xs arbitrary: late room)
  case (Cons x xs)
  then show ?case using drain_one_running [of late room x] by (cases "drain_one (late, room) x") simp
qed simp

lemma realtime_drain_running: "rr_running (snd (realtime_drain room)) = rr_running room"
  by (simp add: realtime_drain_def drain_fold_running)

lemma realtime_initialize_running:
  "realtime_initialize env room = (q, room') \<Longrightarrow> rr_running room' = rr_running room"
  using realtime_capture_running [of env room "realtime_tick room 0"]
  by (auto simp: realtime_initialize_def split: if_splits prod.splits sum.splits)

lemma finalize_tick_running [simp]: "rr_running (finalize_tick n room) = rr_running room"
  by (simp add: finalize_tick_def Let_def)

lemma realtime_advance_inner_running:
  assumes "realtime_advance_inner env room = (q, room')"
  shows "rr_running room' = rr_running room"
proof -
  obtain q1 room1 where one: "realtime_initialize env room = (q1, room1)" by fastforce
  obtain late room2 where two: "realtime_drain room1 = (late, room2)" by fastforce
  obtain q3 room3 where three: "(case late of None \<Rightarrow> (Inr (), room2)
      | Some v \<Rightarrow> realtime_resimulate env v (rr_current room2) room2) = (q3, room3)" by fastforce
  obtain q4 room4 where four: "simulate_tick env (rr_current room2 + 1) room3 = (q4, room4)" by fastforce
  have "rr_running room1 = rr_running room" "rr_running room2 = rr_running room1"
    "rr_running room4 = rr_running room3"
    using realtime_initialize_running [OF one] realtime_drain_running [of room1] two
      simulate_tick_running [OF four] by simp_all
  moreover have "rr_running room3 = rr_running room2"
    using three by (cases late) (auto dest: realtime_resimulate_running)
  ultimately show ?thesis
    using assms one two three four
    by (cases q1; cases q3; cases q4) (auto simp: realtime_advance_inner_def Let_def)
qed

lemma realtime_advance_one_running:
  "realtime_advance_one env nanos room = (q, room') \<Longrightarrow> rr_running room' = rr_running room"
  using realtime_advance_inner_running [of env room]
  by (auto simp: realtime_advance_one_def Let_def split: prod.splits if_splits)

lemma realtime_run_loop_error:
  "realtime_run_loop env events room = (Some (Inl e), room') \<Longrightarrow> rr_running room' = rr_running room"
proof (induction env events room rule: realtime_run_loop.induct)
  case (3 env nanos events room)
  obtain q room1 where one: "realtime_advance_one env nanos room = (q, room1)" by fastforce
  with 3 realtime_advance_one_running [OF one] show ?case by (cases q) auto
qed auto

lemma stale_advance_fails:
  assumes inv: "room_inv ops s0 sent log room"
    and queue: "rr_queue room = [\<lparr>sb_target = t, sb_command = c\<rparr>]"
    and stale: "t = rr_finalized room" "t \<noteq> 0"
    and fresh: "(case map_of (rr_sequences room) (cm_player c) of None \<Rightarrow> 0 | Some n \<Rightarrow> n) < cm_sequence c"
    and space: "length (log_at log t) < rc_max_commands_per_tick (rr_config room)"
  shows "fst (realtime_advance_inner env room) = Inl (core_error.InvalidConfig ''rollback window'')"
proof -
  have current: "t \<le> rr_current room" using inv stale by (simp add: room_inv_def)
  then have "rr_current room \<noteq> 0" using stale by auto
  then have init: "rr_initialized room" using inv by (auto simp: room_inv_def)
  then have dom: "dom (map_of (rr_history room)) = {t..rr_current room}"
    using inv stale by (simp add: room_inv_def)
  then obtain r where r: "map_of (rr_history room) t = Some r" using current by fastforce
  have "tr_commands r = log_at log t" using inv r by (simp add: room_inv_def commands_of_def)
  with space have "length (tr_commands r) < rc_max_commands_per_tick (rr_config room)" by simp
  then have drained: "\<exists>room2. realtime_drain room = (Some t, room2) \<and> rr_current room2 = rr_current room \<and>
      map_of (rr_history room2) (t - 1) = map_of (map_adjust t (\<lambda>r. r\<lparr>tr_commands := tr_commands r @ [c]\<rparr>)
        (rr_history room)) (t - 1)"
    using r fresh current
    by (simp add: realtime_drain_def queue drain_one_def Let_def accept_sequence_def not_less [symmetric])
  have before: "t - 1 < t" using stale by (simp add: word_less_nat_alt unat_pred unat_gt_0)
  then have "t - 1 \<notin> dom (map_of (rr_history room))" using dom by auto
  with before drained obtain room2 where two: "realtime_drain room = (Some t, room2)"
    "rr_current room2 = rr_current room" "map_of (rr_history room2) (t - 1) = None"
    by (auto simp: map_of_adjust domIff)
  have "checked_sub t 1 = Some (t - 1)"
    using stale by (simp add: checked_sub_def word_le_nat_alt unat_gt_0 Suc_le_eq)
  with two init show ?thesis
    by (simp add: realtime_advance_inner_def realtime_initialize_def realtime_resimulate_def
        restore_checkpoint_def)
qed

text \<open>C36. One command that waited too long stops a running room for good. A command may be
validated, wait for a place in the channel while the room advances, and enter it when its tick
has become the finalized one. If it is then alone in the channel, its sequence number is new for its player and the record
of the finalized tick is not full, the next tick fails, \<open>run\<close>
returns the error with the room still marked as running, and from then on every call
of \<open>advance\<close> and \<open>run\<close> is refused. This holds for every simulation that a room may rely on, one whose
snapshots restore its state and which a refused command does not change, and after any run in which no tick failed.\<close>

theorem realtime_stale_command_stops_room:
  assumes "lawful_simulation (re_simulation env)"
    and "realtime_room_new delta_of i config s0 ob pu = Inr start"
    and "room_play env events start = Some room" "length events < 2 ^ 64"
    and "\<forall>x \<in> sent_by events. sb_target x \<noteq> 0"
    and "rr_queue room = []" "\<not> rr_running room" "rr_finalized room \<noteq> 0"
    and "(case map_of (rr_sequences room) (cm_player c) of None \<Rightarrow> 0 | Some n \<Rightarrow> n) < cm_sequence c"
    and "\<forall>r. map_of (rr_history room) (rr_finalized room) = Some r \<longrightarrow>
      length (tr_commands r) < rc_max_commands_per_tick (rr_config room)"
    and "realtime_send room (rr_finalized room) c = Some room1"
  shows "\<exists>room2. realtime_run env (TimerTick nanos # later) room1 =
      (Some (Inl (core_error.InvalidConfig ''rollback window'')), room2) \<and>
    (\<forall>n. realtime_advance env n room2 = (Inl (core_error.InvalidConfig ''room is running''), room2)) \<and>
    (\<forall>events. realtime_run env events room2 =
       (Some (Inl (core_error.InvalidConfig ''room already running'')), room2))"
proof -
  let ?ops = "re_simulation env" and ?t = "rr_finalized room"
  let ?sent = "insert \<lparr>sb_target = ?t, sb_command = c\<rparr> (sent_by events)"
  obtain log where log: "room_inv ?ops s0 (sent_by events) log room"
    using played_room(1) [OF assms(1-5)] by blast
  define room0 where "room0 = room1\<lparr>rr_running := True\<rparr>"
  obtain k where room0: "room0 = room\<lparr>rr_queue := [\<lparr>sb_target = ?t, sb_command = c\<rparr>], rr_counters := k, rr_running := True\<rparr>"
    using assms(6,11) by (auto simp: room0_def realtime_send_def bump_def split: if_splits)
  have "room_inv ?ops s0 ?sent log room" using room_inv_mono [OF log, of ?sent] by auto
  then have inv: "room_inv ?ops s0 ?sent log room0" unfolding room0 by (auto simp: room_inv_def)
  have le: "?t \<le> rr_current room" using log by (simp add: room_inv_def)
  moreover have "rr_current room \<noteq> 0" using le assms(8) by auto
  ultimately have "?t \<le> rr_current room" "rr_initialized room" using log by (auto simp: room_inv_def)
  then have "?t \<in> dom (map_of (rr_history room))" using log by (auto simp: room_inv_def)
  then have space: "length (log_at log ?t) < rc_max_commands_per_tick (rr_config room)"
    using assms(10) log by (auto simp: room_inv_def commands_of_def)
  have fails: "fst (realtime_advance_inner env room0) = Inl (core_error.InvalidConfig ''rollback window'')"
    by (rule stale_advance_fails [OF inv, of ?t c]) (use assms(8,9) space in \<open>simp_all add: room0\<close>)
  obtain q room2 where one: "realtime_advance_one env nanos room0 = (q, room2)" by fastforce
  then have q: "q = Inl (core_error.InvalidConfig ''rollback window'')"
    using fails by (auto simp: realtime_advance_one_def Let_def split: prod.splits)
  have running: "rr_running room2" using realtime_advance_one_running [OF one] by (simp add: room0)
  have "\<not> rr_running room1" using assms(7,11) by (auto simp: realtime_send_def bump_def split: if_splits)
  then have "realtime_run env (TimerTick nanos # later) room1 =
      (Some (Inl (core_error.InvalidConfig ''rollback window'')), room2)"
    using one q by (simp add: realtime_run_def room0_def)
  with running show ?thesis by (auto simp: realtime_advance_def realtime_run_def)
qed

text \<open>With rollback switched off, a command for tick 1 is validated at tick 0 and arrives after it.\<close>

lemma adder_room_new_plain:
  "realtime_room_new (\<lambda>_. 0) ''r'' (adder_config 0) 0 () () = Inr (adder_room (adder_config 0))"
  by code_simp

definition adder_stale :: "(int, int, int, unit, unit, unit) realtime_room" where
  "adder_stale = the (room_play adder_env [Advance 0] (adder_room (adder_config 0)))"

theorem realtime_stale_command_stops_room_witness:
  "realtime_validate (adder_room (adder_config 0)) 1 (adder_command 1 2) = Inr () \<and>
   (\<exists>room2. realtime_run adder_env [TimerTick 0] (the (realtime_send adder_stale 1 (adder_command 1 2))) =
      (Some (Inl (core_error.InvalidConfig ''rollback window'')), room2) \<and>
      fst (realtime_advance adder_env 0 room2) = Inl (core_error.InvalidConfig ''room is running''))"
proof
  show "realtime_validate (adder_room (adder_config 0)) 1 (adder_command 1 2) = Inr ()" by code_simp
  have law: "lawful_simulation (re_simulation adder_env)"
    using adder.lawful_simulation_axioms by (simp add: adder_env_def)
  have "case room_play adder_env [Advance 0] (adder_room (adder_config 0)) of
      None \<Rightarrow> False
    | Some r \<Rightarrow> rr_queue r = [] \<and> \<not> rr_running r \<and> rr_finalized r = 1 \<and>
        map_of (rr_sequences r) (cm_player (adder_command 1 2)) = None \<and>
        map_option (length \<circ> tr_commands) (map_of (rr_history r) 1) = Some 0 \<and>
        rc_max_commands_per_tick (rr_config r) = 8 \<and> realtime_send r 1 (adder_command 1 2) \<noteq> None"
    by code_simp
  then have play: "room_play adder_env [Advance 0] (adder_room (adder_config 0)) = Some adder_stale"
    and facts: "rr_queue adder_stale = []" "\<not> rr_running adder_stale" "rr_finalized adder_stale = 1"
    "map_of (rr_sequences adder_stale) (cm_player (adder_command 1 2)) = None"
    "map_option (length \<circ> tr_commands) (map_of (rr_history adder_stale) 1) = Some 0"
    "rc_max_commands_per_tick (rr_config adder_stale) = 8"
    "realtime_send adder_stale 1 (adder_command 1 2) \<noteq> None"
    by (simp_all add: adder_stale_def split: option.splits)
  show "\<exists>room2. realtime_run adder_env [TimerTick 0] (the (realtime_send adder_stale 1 (adder_command 1 2))) =
      (Some (Inl (core_error.InvalidConfig ''rollback window'')), room2) \<and>
      fst (realtime_advance adder_env 0 room2) = Inl (core_error.InvalidConfig ''room is running'')"
    using realtime_stale_command_stops_room [OF law adder_room_new_plain play, of "adder_command 1 2"
        "the (realtime_send adder_stale 1 (adder_command 1 2))" 0 "[]"] facts
    by (auto simp: sent_by_def adder_command_def)
qed

text \<open>The same counter with one rule: it refuses to be lowered.\<close>

definition rising :: "(int, int, int) simulation_ops" where
  "rising = \<lparr>so_apply = (\<lambda>i c. if cm_value c < 0 then (Inl (core_error.InvalidConfig ''value''), i)
       else (Inr (), i + cm_value c)),
     so_step = so_step adder, so_snapshot = so_snapshot adder, so_encode = so_encode adder,
     so_restore = so_restore adder\<rparr>"

definition rising_env :: "(int, int, int, unit, unit, unit) room_env" where
  "rising_env = \<lparr>re_digest = (\<lambda>_. ()), re_simulation = rising, re_observer = None, re_publisher = None\<rparr>"

interpretation rising: lawful_simulation rising
  by unfold_locales (auto simp: rising_def adder_def split: if_splits)

text \<open>A late command that the simulation refuses makes its rollback fail after the checkpoint
was restored: the room still says tick 3, the simulation is back before tick 1. The next tick
succeeds and goes on from there, two increments short of a straight run.\<close>

lemma realtime_failed_rollback_desync:
  "case room_play rising_env [Advance 0, Advance 0, Advance 0, Send 1 (adder_command 1 (- 1))]
      (adder_room (adder_config 3)) of
     None \<Rightarrow> False
   | Some room \<Rightarrow>
       (rr_simulation room, rr_current room) = (3, 3) \<and>
       (case realtime_advance rising_env 0 room of (failed, room1) \<Rightarrow>
          failed = Inl (core_error.InvalidConfig ''value'') \<and> (rr_simulation room1, rr_current room1) = (0, 3) \<and>
          (case realtime_advance rising_env 0 room1 of (ticked, room2) \<Rightarrow>
             ticked = Inr () \<and> (rr_simulation room2, rr_current room2) = (1, 4)))"
  by code_simp

end
