(* ===== verification/Replay_Log.thy ===== *)
theory Replay_Log
  imports Session Frame_Codec
begin

section \<open>Replay logs\<close>

text \<open>
  Model of \<open>crates/elura-core/src/replay.rs\<close>: a log of a room's commands, ticks and checkpoints,
  written as blocks of a length, a JSON text and a checksum. The reader and the writer work on
  any \<open>Write\<close> and \<open>Read\<close>, given by the functions of \<open>byte_sink\<close> and \<open>byte_source\<close>;
  what is relied on of them are the locales \<open>lawful_sink\<close> and \<open>lawful_source\<close>, which
  \<open>Vec<u8>\<close> and \<open>&[u8]\<close> satisfy. JSON and the digest are parameters.
\<close>

unbundle bit_operations_syntax

subsection \<open>Data\<close>

record 'w byte_sink =
  sk_write_all :: "'w \<Rightarrow> bytes \<Rightarrow> (io_error + unit) \<times> 'w"
  sk_flush :: "'w \<Rightarrow> (io_error + unit) \<times> 'w"

record 'r byte_source =
  sc_read_exact :: "'r \<Rightarrow> usize \<Rightarrow> (io_error + bytes) \<times> 'r"

record 'a serde_json =
  sj_to_vec :: "'a \<Rightarrow> string + bytes"
  sj_from_slice :: "bytes \<Rightarrow> string + 'a"

record 'm replay_header =
  rh_room_id :: string
  rh_tick_rate :: u32
  rh_input_delay_ticks :: u64
  rh_rollback_window_ticks :: u64
  rh_created_unix_ms :: u64
  rh_metadata :: 'm

datatype ('c, 'h) replay_record =
    RecCommand u64 player_key u64 'c
  | RecTick u64
  | RecCheckpoint u64 bytes 'h

fun replay_record_tick :: "('c, 'h) replay_record \<Rightarrow> u64" where
  "replay_record_tick (RecCommand tick player sequence command) = tick"
| "replay_record_tick (RecTick tick) = tick"
| "replay_record_tick (RecCheckpoint tick state state_hash) = tick"

record 'w replay_writer =
  rw_out :: 'w
  rw_last :: u64

record ('r, 'm) replay_reader =
  ry_input :: 'r
  ry_header :: "'m replay_header"
  ry_last :: u64

definition REPLAY_MAGIC :: bytes where
  "REPLAY_MAGIC = string_bytes ''HZNREP04''"

definition REPLAY_MAX :: usize where
  "REPLAY_MAX = 16777216"

subsection \<open>Blocks\<close>

text \<open>One of the eight rounds, the round of a byte, and the checksum.\<close>

definition crc_bit :: "u32 \<Rightarrow> u32" where
  "crc_bit c = drop_bit 1 c XOR (0xedb88320 AND (0 - (c AND 1)))"

definition crc_byte :: "u32 \<Rightarrow> u8 \<Rightarrow> u32" where
  "crc_byte c x = (crc_bit ^^ 8) (c XOR ucast x)"

definition crc :: "bytes \<Rightarrow> u32" where
  "crc b = NOT (foldl crc_byte (- 1) b)"

definition u32_to_be_bytes :: "u32 \<Rightarrow> bytes" where
  "u32_to_be_bytes w = be_put 4 (unat w)"

definition u32_from_be_bytes :: "bytes \<Rightarrow> u32" where
  "u32_from_be_bytes bs = of_nat (be_val bs)"

definition block_write :: "'w byte_sink \<Rightarrow> 'w \<Rightarrow> bytes \<Rightarrow> (core_error + unit) \<times> 'w" where
  "block_write W w b =
     (if b = [] \<or> REPLAY_MAX < length b then (Inl (InvalidFrame ''replay block''), w)
      else case sk_write_all W w (u32_to_be_bytes (of_nat (length b))) of
        (Inl e, w) \<Rightarrow> (Inl (Io e), w)
      | (Inr _, w) \<Rightarrow>
          (case sk_write_all W w b of
             (Inl e, w) \<Rightarrow> (Inl (Io e), w)
           | (Inr _, w) \<Rightarrow>
               (case sk_write_all W w (u32_to_be_bytes (crc b)) of
                  (Inl e, w) \<Rightarrow> (Inl (Io e), w)
                | (Inr _, w) \<Rightarrow> (Inr (), w))))"

fun io_error_kind_of :: "io_error \<Rightarrow> io_error_kind" where
  "io_error_kind_of (IoMessage kind _) = kind"
| "io_error_kind_of (IoWrapped kind _) = kind"

definition block_read :: "'r byte_source \<Rightarrow> 'r \<Rightarrow> bool \<Rightarrow> (core_error + bytes option) \<times> 'r" where
  "block_read R r eof =
     (case sc_read_exact R r 4 of
        (Inl e, r) \<Rightarrow>
          (if eof \<and> io_error_kind_of e = UnexpectedEof then Inr None else Inl (Io e), r)
      | (Inr n, r) \<Rightarrow>
          (let n = unat (u32_from_be_bytes n)
           in if n = 0 \<or> REPLAY_MAX < n then (Inl (InvalidFrame ''replay block''), r)
              else case sc_read_exact R r n of
                (Inl e, r) \<Rightarrow> (Inl (Io e), r)
              | (Inr b, r) \<Rightarrow>
                  (case sc_read_exact R r 4 of
                     (Inl e, r) \<Rightarrow> (Inl (Io e), r)
                   | (Inr c, r) \<Rightarrow>
                       if crc b \<noteq> u32_from_be_bytes c then (Inl (InvalidFrame ''replay crc''), r)
                       else (Inr (Some b), r))))"

subsection \<open>Writer\<close>

definition replay_writer_new ::
    "'w byte_sink \<Rightarrow> 'm replay_header serde_json \<Rightarrow> 'w \<Rightarrow> 'm replay_header \<Rightarrow>
     core_error + 'w replay_writer" where
  "replay_writer_new W J out header =
     (if rh_room_id header = [] \<or> rh_tick_rate header < 1 \<or> 240 < rh_tick_rate header
      then Inl (core_error.InvalidConfig ''replay header'')
      else case sk_write_all W out REPLAY_MAGIC of
        (Inl e, _) \<Rightarrow> Inl (Io e)
      | (Inr _, out) \<Rightarrow>
          (case sj_to_vec J header of
             Inl e \<Rightarrow> Inl (Serialization e)
           | Inr b \<Rightarrow>
               (case block_write W out b of
                  (Inl e, _) \<Rightarrow> Inl e
                | (Inr _, out) \<Rightarrow> Inr \<lparr>rw_out = out, rw_last = 0\<rparr>)))"

text \<open>The two checks that writer and reader share; \<open>StateHash::matches\<close> compares with the digest.\<close>

definition state_hash_matches :: "(bytes \<Rightarrow> 'h) \<Rightarrow> 'h \<Rightarrow> bytes \<Rightarrow> bool" where
  "state_hash_matches digest h value \<longleftrightarrow> h = digest value"

definition replay_record_check ::
    "(bytes \<Rightarrow> 'h) \<Rightarrow> u64 \<Rightarrow> ('c, 'h) replay_record \<Rightarrow> core_error + unit" where
  "replay_record_check digest last_tick r =
     (if replay_record_tick r = 0 \<or> replay_record_tick r < last_tick then Inl (InvalidFrame ''replay order'')
      else case r of
        RecCheckpoint _ state state_hash \<Rightarrow>
          if \<not> state_hash_matches digest state_hash state then Inl (InvalidFrame ''checkpoint hash'')
          else Inr ()
      | _ \<Rightarrow> Inr ())"

definition replay_writer_record ::
    "'w byte_sink \<Rightarrow> (bytes \<Rightarrow> 'h) \<Rightarrow> ('c, 'h) replay_record serde_json \<Rightarrow> 'w replay_writer \<Rightarrow>
     ('c, 'h) replay_record \<Rightarrow> (core_error + unit) \<times> 'w replay_writer" where
  "replay_writer_record W digest J w r =
     (case replay_record_check digest (rw_last w) r of
        Inl e \<Rightarrow> (Inl e, w)
      | Inr _ \<Rightarrow>
          (case sj_to_vec J r of
             Inl e \<Rightarrow> (Inl (Serialization e), w)
           | Inr b \<Rightarrow>
               (case block_write W (rw_out w) b of
                  (Inl e, out) \<Rightarrow> (Inl e, w\<lparr>rw_out := out\<rparr>)
                | (Inr _, out) \<Rightarrow> (Inr (), w\<lparr>rw_out := out, rw_last := replay_record_tick r\<rparr>))))"

definition replay_writer_finish :: "'w byte_sink \<Rightarrow> 'w replay_writer \<Rightarrow> core_error + 'w" where
  "replay_writer_finish W w =
     (case sk_flush W (rw_out w) of (Inl e, _) \<Rightarrow> Inl (Io e) | (Inr _, out) \<Rightarrow> Inr out)"

subsection \<open>Reader\<close>

definition replay_reader_new ::
    "'r byte_source \<Rightarrow> 'm replay_header serde_json \<Rightarrow> 'r \<Rightarrow> core_error + ('r, 'm) replay_reader" where
  "replay_reader_new R J input =
     (case sc_read_exact R input 8 of
        (Inl e, _) \<Rightarrow> Inl (Io e)
      | (Inr magic, input) \<Rightarrow>
          if magic \<noteq> REPLAY_MAGIC then Inl (InvalidFrame ''replay format'')
          else case block_read R input False of
            (Inl e, _) \<Rightarrow> Inl e
          | (Inr None, _) \<Rightarrow> Inl (InvalidFrame ''missing replay header'')
          | (Inr (Some b), input) \<Rightarrow>
              (case sj_from_slice J b of
                 Inl e \<Rightarrow> Inl (Serialization e)
               | Inr header \<Rightarrow> Inr \<lparr>ry_input = input, ry_header = header, ry_last = 0\<rparr>))"

definition replay_reader_read_next ::
    "'r byte_source \<Rightarrow> (bytes \<Rightarrow> 'h) \<Rightarrow> ('c, 'h) replay_record serde_json \<Rightarrow> ('r, 'm) replay_reader \<Rightarrow>
     (core_error + ('c, 'h) replay_record option) \<times> ('r, 'm) replay_reader" where
  "replay_reader_read_next R digest J y =
     (case block_read R (ry_input y) True of
        (Inl e, input) \<Rightarrow> (Inl e, y\<lparr>ry_input := input\<rparr>)
      | (Inr None, input) \<Rightarrow> (Inr None, y\<lparr>ry_input := input\<rparr>)
      | (Inr (Some b), input) \<Rightarrow>
          (let y = y\<lparr>ry_input := input\<rparr>
           in case sj_from_slice J b of
                Inl e \<Rightarrow> (Inl (Serialization e), y)
              | Inr r \<Rightarrow>
                  (case replay_record_check digest (ry_last y) r of
                     Inl e \<Rightarrow> (Inl e, y)
                   | Inr _ \<Rightarrow> (Inr (Some r), y\<lparr>ry_last := replay_record_tick r\<rparr>))))"

subsection \<open>Whole logs\<close>

fun replay_write_all ::
    "'w byte_sink \<Rightarrow> (bytes \<Rightarrow> 'h) \<Rightarrow> ('c, 'h) replay_record serde_json \<Rightarrow> ('c, 'h) replay_record list \<Rightarrow>
     'w replay_writer \<Rightarrow> (core_error + unit) \<times> 'w replay_writer" where
  "replay_write_all W digest J [] w = (Inr (), w)"
| "replay_write_all W digest J (r # rs) w =
     (case replay_writer_record W digest J w r of
        (Inl e, w) \<Rightarrow> (Inl e, w)
      | (Inr _, w) \<Rightarrow> replay_write_all W digest J rs w)"

text \<open>Reading to the end: the records before the end or the error, and the error; \<open>None\<close> when the
source never ends.\<close>

partial_function (option) replay_read_all ::
    "'r byte_source \<Rightarrow> (bytes \<Rightarrow> 'h) \<Rightarrow> ('c, 'h) replay_record serde_json \<Rightarrow> ('r, 'm) replay_reader \<Rightarrow>
     (('c, 'h) replay_record list \<times> core_error option) option" where
  [code]: "replay_read_all R digest J y =
     (case replay_reader_read_next R digest J y of
        (Inl e, _) \<Rightarrow> Some ([], Some e)
      | (Inr None, _) \<Rightarrow> Some ([], None)
      | (Inr (Some r), y) \<Rightarrow>
          Option.bind (replay_read_all R digest J y) (\<lambda>(rs, e). Some (r # rs, e)))"

subsection \<open>What the log relies on\<close>

locale lawful_sink =
  fixes W :: "'w byte_sink" and written :: "'w \<Rightarrow> bytes"
  assumes write_all: "sk_write_all W w b = (Inr u, w') \<Longrightarrow> written w' = written w @ b"
    and flush: "sk_flush W w = (Inr u, w') \<Longrightarrow> written w' = written w"

locale lawful_source =
  fixes R :: "'r byte_source" and remaining :: "'r \<Rightarrow> bytes"
  assumes read_full: "n \<le> length (remaining r) \<Longrightarrow>
      \<exists>r'. sc_read_exact R r n = (Inr (take n (remaining r)), r') \<and> remaining r' = drop n (remaining r)"
    and read_short: "length (remaining r) < n \<Longrightarrow>
      \<exists>e r'. sc_read_exact R r n = (Inl e, r') \<and> io_error_kind_of e = UnexpectedEof"

definition vec_sink :: "bytes byte_sink" where
  "vec_sink = \<lparr>sk_write_all = (\<lambda>w b. (Inr (), w @ b)), sk_flush = (\<lambda>w. (Inr (), w))\<rparr>"

definition slice_source :: "bytes byte_source" where
  "slice_source = \<lparr>sc_read_exact = (\<lambda>r n.
     if length r < n then (Inl (IoMessage UnexpectedEof ''failed to fill whole buffer''), [])
     else (Inr (take n r), drop n r))\<rparr>"

interpretation vec: lawful_sink vec_sink id
  by unfold_locales (auto simp: vec_sink_def)

interpretation slice: lawful_source slice_source id
  by unfold_locales (auto simp: slice_source_def)

subsection \<open>The checksum\<close>

lemma crc_bit_alt: "crc_bit c = (if bit c 0 then drop_bit 1 c XOR 0xedb88320 else drop_bit 1 c)"
proof -
  have "c AND 1 = (if bit c 0 then 1 else 0)" by (simp add: and_one_eq bit_0 mod_2_eq_odd)
  then show ?thesis by (simp add: crc_bit_def)
qed

lemma crc_bit_xor: "crc_bit (a XOR b) = crc_bit a XOR crc_bit b"
  by (auto simp: crc_bit_alt bit_xor_iff drop_bit_xor ac_simps)

lemma poly_top: "bit (0xedb88320 :: u32) 31"
  by simp

lemma crc_bit_top: "bit (crc_bit c) 31 \<longleftrightarrow> bit c 0"
  using bit_imp_le_length [of c 32] by (auto simp: crc_bit_alt bit_xor_iff bit_drop_bit_eq)

lemma xor_cancel: "a XOR p = b XOR p \<longleftrightarrow> a = (b :: 'a::len word)"
proof
  assume "a XOR p = b XOR p"
  then have "(a XOR p) XOR p = (b XOR p) XOR p" by simp
  then show "a = b" by (simp add: xor.assoc)
qed simp

lemma crc_bit_inj: "inj crc_bit"
proof (rule injI)
  fix a b :: u32
  assume eq: "crc_bit a = crc_bit b"
  then have zero: "bit a 0 = bit b 0" using crc_bit_top by metis
  then have "drop_bit 1 a = drop_bit 1 b"
    using eq by (auto simp: crc_bit_alt xor_cancel split: if_splits)
  then have "bit a (Suc n) = bit b (Suc n)" for n
    using bit_drop_bit_eq [of 1 a] bit_drop_bit_eq [of 1 b] by (metis comp_apply plus_1_eq_Suc)
  with zero have "bit a n = bit b n" for n by (cases n) auto
  then show "a = b" by (intro bit_eqI)
qed

lemma crc_bits_inj: "inj (crc_bit ^^ n)"
  by (rule inj_fn [OF crc_bit_inj])

lemma crc_bits_xor: "(crc_bit ^^ n) (a XOR b) = (crc_bit ^^ n) a XOR (crc_bit ^^ n) b"
  by (induction n) (simp_all add: crc_bit_xor)

lemma crc_bit_double: "\<not> bit w 31 \<Longrightarrow> crc_bit (2 * w) = w"
  by (rule bit_eqI) (auto simp: crc_bit_alt bit_double_iff bit_drop_bit_eq less_Suc_eq numeral_eq_Suc)

lemma crc_bits_shift: "take_bit (32 - n) w = w \<Longrightarrow> n \<le> 32 \<Longrightarrow> (crc_bit ^^ n) (push_bit n w) = w"
proof (induction n)
  case (Suc n)
  have "\<not> bit (take_bit (32 - Suc n) w) (31 - n)" by (simp add: bit_take_bit_iff)
  then have "\<not> bit w (31 - n)" using Suc.prems(1) by simp
  then have "\<not> bit (push_bit n w) 31" using Suc.prems(2) by (simp add: bit_push_bit_iff)
  then have "crc_bit (2 * push_bit n w) = push_bit n w" by (rule crc_bit_double)
  then have "crc_bit (push_bit (Suc n) w) = push_bit n w" by (simp add: push_bit_eq_mult ac_simps)
  moreover have "take_bit (32 - n) w = w"
    using arg_cong [OF Suc.prems(1), of "take_bit (32 - n)"] Suc.prems(1) by (simp add: take_bit_take_bit)
  ultimately show ?case using Suc by (simp add: funpow_swap1)
qed simp

text \<open>Up to four bytes enter the checksum as one word.\<close>

primrec le_word :: "bytes \<Rightarrow> u32" where
  "le_word [] = 0"
| "le_word (x # xs) = ucast x XOR push_bit 8 (le_word xs)"

lemma byte_bits: "bit (ucast (x :: u8) :: u32) n \<Longrightarrow> n < 8"
  using bit_imp_le_length [of x n] by (simp add: bit_ucast_iff)

lemma le_word_bits: "bit (le_word xs) n \<Longrightarrow> n < 8 * length xs"
proof (induction xs arbitrary: n)
  case (Cons x xs)
  then have "bit (ucast x :: u32) n \<or> 8 \<le> n \<and> bit (le_word xs) (n - 8)"
    by (auto simp: bit_xor_iff bit_push_bit_iff)
  then show ?case using byte_bits [of x n] Cons.IH [of "n - 8"] by auto
qed simp

lemma le_word_take: "length xs \<le> 3 \<Longrightarrow> take_bit 24 (le_word xs) = le_word xs"
  by (rule bit_eqI) (auto simp: bit_take_bit_iff dest: le_word_bits)

lemma le_word_inj: "length xs = length ys \<Longrightarrow> length xs \<le> 4 \<Longrightarrow> le_word xs = le_word ys \<Longrightarrow> xs = ys"
proof (induction xs ys rule: list_induct2)
  case (Cons x xs y ys)
  have head: "take_bit 8 (le_word (z # zs)) = ucast z" for z :: u8 and zs
    by (rule bit_eqI) (auto simp: bit_take_bit_iff bit_xor_iff bit_push_bit_iff dest: byte_bits)
  have tail: "drop_bit 8 (le_word (z # zs)) = le_word zs" if "length zs \<le> 3" for z :: u8 and zs
    using that
    by (intro bit_eqI) (auto simp: bit_drop_bit_eq bit_xor_iff bit_push_bit_iff dest: byte_bits le_word_bits
        bit_imp_le_length)
  have "(ucast x :: u32) = ucast y" using head [of x xs] head [of y ys] arg_cong [OF Cons.prems(2), of "take_bit 8"]
    by (simp del: le_word.simps)
  then have eq: "bit (ucast x :: u32) n = bit (ucast y :: u32) n" for n by simp
  have "bit x n = bit y n" if "n < 8" for n using eq [of n] that by (simp add: bit_ucast_iff)
  then have "x = y" by (intro bit_eqI) simp
  moreover have "le_word xs = le_word ys"
    using tail [of xs x] tail [of ys y] arg_cong [OF Cons.prems(2), of "drop_bit 8"] Cons.prems(1) Cons.hyps
    by (simp del: le_word.simps)
  ultimately show ?case using Cons by simp
qed simp

lemma crc_word: "length xs \<le> 4 \<Longrightarrow> foldl crc_byte c xs = (crc_bit ^^ (8 * length xs)) (c XOR le_word xs)"
proof (induction xs arbitrary: c)
  case (Cons x xs)
  have "take_bit (32 - 8) (le_word xs) = le_word xs" using le_word_take Cons.prems by simp
  then have shift: "(crc_bit ^^ 8) (push_bit 8 (le_word xs)) = le_word xs" by (rule crc_bits_shift) simp
  have "foldl crc_byte c (x # xs) = (crc_bit ^^ (8 * length xs)) (crc_byte c x XOR le_word xs)"
    using Cons by simp
  also have "crc_byte c x XOR le_word xs = (crc_bit ^^ 8) ((c XOR ucast x) XOR push_bit 8 (le_word xs))"
    by (simp only: crc_byte_def crc_bits_xor [of 8 "c XOR ucast x"] shift)
  finally show ?case
    by (simp add: funpow_add [of "8 * length xs" 8, simplified add.commute [of "8 * length xs"]] xor.assoc del: funpow.simps)
qed simp

text \<open>The checksum sees every change that is confined to four consecutive bytes.\<close>

lemma crc_fold_inj: "foldl crc_byte a xs = foldl crc_byte b xs \<longleftrightarrow> a = b"
proof (induction xs arbitrary: a b)
  case (Cons x xs)
  have "crc_byte a x = crc_byte b x \<longleftrightarrow> a = b"
    using crc_bits_inj [of 8] by (simp add: crc_byte_def inj_eq xor_cancel)
  then show ?case using Cons by simp
qed simp

lemma crc_burst:
  assumes "length xs = length ys" "length xs \<le> 4" "xs \<noteq> ys"
  shows "crc (us @ xs @ vs) \<noteq> crc (us @ ys @ vs)"
proof
  let ?c = "foldl crc_byte (- 1) us"
  assume "crc (us @ xs @ vs) = crc (us @ ys @ vs)"
  then have "foldl crc_byte ?c xs = foldl crc_byte ?c ys" by (simp add: crc_def crc_fold_inj)
  then have "?c XOR le_word xs = ?c XOR le_word ys"
    using assms(1,2) crc_bits_inj [of "8 * length ys"] by (simp add: crc_word inj_eq)
  then have "le_word xs = le_word ys" using xor_cancel [of "le_word xs" ?c] by (simp add: xor.commute)
  then show False using le_word_inj assms by blast
qed

subsection \<open>Writing and reading\<close>

definition replay_block :: "bytes \<Rightarrow> bytes" where
  "replay_block b = u32_to_be_bytes (of_nat (length b)) @ b @ u32_to_be_bytes (crc b)"

definition block_ok :: "bytes \<Rightarrow> bool" where
  "block_ok b \<longleftrightarrow> b \<noteq> [] \<and> length b \<le> REPLAY_MAX"

text \<open>The records pass the checks of the writer and have these JSON texts.\<close>

fun encodes ::
    "(bytes \<Rightarrow> 'h) \<Rightarrow> ('c, 'h) replay_record serde_json \<Rightarrow> u64 \<Rightarrow> ('c, 'h) replay_record list \<Rightarrow>
     bytes list \<Rightarrow> bool" where
  "encodes digest J last_tick [] bs \<longleftrightarrow> bs = []"
| "encodes digest J last_tick (r # rs) bs \<longleftrightarrow>
     (case bs of
        [] \<Rightarrow> False
      | b # bs \<Rightarrow> replay_record_check digest last_tick r = Inr () \<and> sj_to_vec J r = Inr b \<and> block_ok b
          \<and> encodes digest J (replay_record_tick r) rs bs)"

definition json_inverse :: "'a serde_json \<Rightarrow> 'a \<Rightarrow> bool" where
  "json_inverse J x \<longleftrightarrow> (\<forall>b. sj_to_vec J x = Inr b \<longrightarrow> sj_from_slice J b = Inr x)"

lemma u32_be [simp]: "u32_from_be_bytes (u32_to_be_bytes w) = w" "length (u32_to_be_bytes w) = 4"
  by (simp_all add: u32_from_be_bytes_def u32_to_be_bytes_def be_get_put)

lemma replay_block_length [simp]: "length (replay_block b) = 8 + length b"
  by (simp add: replay_block_def)

lemma block_ok_length: "block_ok b \<Longrightarrow> unat (of_nat (length b) :: u32) = length b"
  by (simp add: block_ok_def REPLAY_MAX_def unat_of_nat)

context lawful_sink
begin

lemma block_write_written:
  "block_write W w b = (Inr u, w') \<Longrightarrow> written w' = written w @ replay_block b \<and> block_ok b"
  by (auto simp: block_write_def replay_block_def block_ok_def dest!: write_all split: prod.splits sum.splits if_splits)

lemma record_written:
  assumes "replay_writer_record W digest J w r = (Inr u, w')"
  shows "\<exists>b. replay_record_check digest (rw_last w) r = Inr () \<and> sj_to_vec J r = Inr b \<and> block_ok b \<and>
    written (rw_out w') = written (rw_out w) @ replay_block b \<and> rw_last w' = replay_record_tick r"
  using assms
  by (auto simp: replay_writer_record_def dest!: block_write_written split: prod.splits sum.splits)

lemma write_all_written:
  "replay_write_all W digest J rs w = (Inr u, w') \<Longrightarrow>
     \<exists>bs. encodes digest J (rw_last w) rs bs \<and>
       written (rw_out w') = written (rw_out w) @ concat (map replay_block bs)"
proof (induction rs arbitrary: w)
  case (Cons r rs)
  obtain q w1 where one: "replay_writer_record W digest J w r = (q, w1)" by fastforce
  with Cons.prems obtain v where rest: "q = Inr v" "replay_write_all W digest J rs w1 = (Inr u, w')"
    by (cases q) auto
  obtain b where b: "replay_record_check digest (rw_last w) r = Inr ()" "sj_to_vec J r = Inr b" "block_ok b"
    "written (rw_out w1) = written (rw_out w) @ replay_block b" "rw_last w1 = replay_record_tick r"
    using record_written one rest(1) by blast
  obtain bs where "encodes digest J (rw_last w1) rs bs"
    "written (rw_out w') = written (rw_out w1) @ concat (map replay_block bs)"
    using Cons.IH [OF rest(2)] by blast
  with b show ?case by (intro exI [of _ "b # bs"]) simp
qed simp

lemma new_written:
  assumes "replay_writer_new W J out header = Inr w"
  shows "\<exists>b. sj_to_vec J header = Inr b \<and> block_ok b \<and>
    written (rw_out w) = written out @ REPLAY_MAGIC @ replay_block b \<and> rw_last w = 0"
  using assms
  by (auto simp: replay_writer_new_def dest!: write_all block_write_written split: if_splits prod.splits sum.splits)

lemma finish_written: "replay_writer_finish W w = Inr out \<Longrightarrow> written out = written (rw_out w)"
  by (auto simp: replay_writer_finish_def dest!: flush split: prod.splits sum.splits)

end

context lawful_source
begin

lemma read_append:
  assumes "remaining r = xs @ ys" "length xs = n"
  shows "\<exists>r'. sc_read_exact R r n = (Inr xs, r') \<and> remaining r' = ys"
  using read_full [of n r] assms by auto

lemma block_read_parts:
  assumes rem: "remaining r = u32_to_be_bytes (of_nat (length b)) @ b @ c @ rest" and ok: "block_ok b"
    and c: "length c = 4"
  shows "\<exists>r'. block_read R r eof =
      (if crc b \<noteq> u32_from_be_bytes c then Inl (InvalidFrame ''replay crc'') else Inr (Some b), r') \<and>
    remaining r' = rest"
proof -
  obtain r1 where r1: "sc_read_exact R r 4 = (Inr (u32_to_be_bytes (of_nat (length b))), r1)"
    "remaining r1 = b @ c @ rest" using read_append [OF rem] by auto
  obtain r2 where r2: "sc_read_exact R r1 (length b) = (Inr b, r2)" "remaining r2 = c @ rest"
    using read_append [OF r1(2)] by auto
  obtain r3 where r3: "sc_read_exact R r2 4 = (Inr c, r3)" "remaining r3 = rest"
    using read_append [OF r2(2) c] by auto
  show ?thesis
    using ok r1(1) r2(1) r3 by (simp add: block_read_def block_ok_length Let_def) (simp add: block_ok_def)
qed

lemma block_read_block:
  "remaining r = replay_block b @ rest \<Longrightarrow> block_ok b \<Longrightarrow>
     \<exists>r'. block_read R r eof = (Inr (Some b), r') \<and> remaining r' = rest"
  using block_read_parts [of r b "u32_to_be_bytes (crc b)" rest eof] by (simp add: replay_block_def)

lemma block_read_cut:
  assumes rem: "remaining r = take k (replay_block b)" and ok: "block_ok b" and k: "k < 8 + length b"
  shows "\<exists>e r'. block_read R r True = (if k < 4 then Inr None else Inl (Io e), r') \<and>
    io_error_kind_of e = UnexpectedEof"
proof -
  let ?n = "u32_to_be_bytes (of_nat (length b))"
  have len: "length (remaining r) = k" using rem k by simp
  consider "k < 4" | "4 \<le> k" "k < 4 + length b" | "4 + length b \<le> k" by linarith
  then show ?thesis
  proof cases
    case 1
    then show ?thesis using read_short [of r 4] len by (auto simp: block_read_def)
  next
    case 2
    have short: "k - 4 < length b" using 2 by arith
    have "remaining r = ?n @ take (k - 4) b" using rem 2 by (simp add: replay_block_def)
    then obtain r1 where r1: "sc_read_exact R r 4 = (Inr ?n, r1)" "remaining r1 = take (k - 4) b"
      using read_append [of r ?n] by auto
    moreover obtain e r2 where "sc_read_exact R r1 (length b) = (Inl e, r2)" "io_error_kind_of e = UnexpectedEof"
      using read_short [of r1 "length b"] r1(2) short by auto
    ultimately show ?thesis
      using 2 ok by (auto simp: block_read_def block_ok_length Let_def) (auto simp: block_ok_def)
  next
    case 3
    have short: "k - (4 + length b) < 4" using 3 k by arith
    from 3 have "remaining r = ?n @ b @ take (k - 4 - length b) (u32_to_be_bytes (crc b))"
      using rem by (simp add: replay_block_def)
    then obtain r1 where r1: "sc_read_exact R r 4 = (Inr ?n, r1)"
      "remaining r1 = b @ take (k - 4 - length b) (u32_to_be_bytes (crc b))"
      using read_append [of r ?n] by auto
    then obtain r2 where r2: "sc_read_exact R r1 (length b) = (Inr b, r2)"
      "remaining r2 = take (k - 4 - length b) (u32_to_be_bytes (crc b))"
      using read_append [of r1 b] by auto
    moreover obtain e r3 where "sc_read_exact R r2 4 = (Inl e, r3)" "io_error_kind_of e = UnexpectedEof"
      using read_short [of r2 4] r2(2) short by auto
    ultimately show ?thesis
      using 3 r1(1) ok by (auto simp: block_read_def block_ok_length Let_def) (auto simp: block_ok_def)
  qed
qed

lemma reader_opens:
  assumes "remaining input = REPLAY_MAGIC @ replay_block b @ rest" "block_ok b" "sj_from_slice J b = Inr header"
  shows "\<exists>y. replay_reader_new R J input = Inr y \<and> ry_header y = header \<and> ry_last y = 0 \<and>
    remaining (ry_input y) = rest"
proof -
  obtain r1 where r1: "sc_read_exact R input 8 = (Inr REPLAY_MAGIC, r1)" "remaining r1 = replay_block b @ rest"
    using read_append [OF assms(1), of 8] by (auto simp: REPLAY_MAGIC_def string_bytes_def)
  obtain r2 where "block_read R r1 False = (Inr (Some b), r2)" "remaining r2 = rest"
    using block_read_block [OF r1(2) assms(2)] by blast
  with r1(1) assms(3) show ?thesis by (simp add: replay_reader_new_def)
qed

lemma read_records:
  fixes y :: "('r, 'm) replay_reader"
  shows "encodes digest J (ry_last y) rs bs \<Longrightarrow> \<forall>r \<in> set rs. json_inverse J r \<Longrightarrow>
     remaining (ry_input y) = concat (map replay_block bs) @ rest \<Longrightarrow>
     \<exists>y' :: ('r, 'm) replay_reader. remaining (ry_input y') = rest \<and> ry_last y' = last (ry_last y # map replay_record_tick rs) \<and>
       replay_read_all R digest J y =
         Option.bind (replay_read_all R digest J y') (\<lambda>(rs', e). Some (rs @ rs', e))"
proof (induction rs arbitrary: y bs)
  case Nil
  then show ?case by (intro exI [of _ y]) auto
next
  case (Cons r rs)
  then obtain b bs' where bs: "bs = b # bs'" "replay_record_check digest (ry_last y) r = Inr ()"
    "sj_to_vec J r = Inr b" "block_ok b" "encodes digest J (replay_record_tick r) rs bs'"
    by (auto split: list.splits)
  have "sj_from_slice J b = Inr r" using Cons.prems(2) bs(3) by (simp add: json_inverse_def)
  moreover obtain r1 where r1: "block_read R (ry_input y) True = (Inr (Some b), r1)"
    "remaining r1 = concat (map replay_block bs') @ rest"
    using block_read_block [of "ry_input y" b "concat (map replay_block bs') @ rest"] Cons.prems(3) bs by auto
  define y1 where "y1 = y\<lparr>ry_input := r1, ry_last := replay_record_tick r\<rparr>"
  ultimately have step: "replay_reader_read_next R digest J y = (Inr (Some r), y1)"
    using r1(1) bs(2) by (simp add: replay_reader_read_next_def Let_def)
  obtain y' :: "('r, 'm) replay_reader" where y': "remaining (ry_input y') = rest" "ry_last y' = last (ry_last y1 # map replay_record_tick rs)"
    "replay_read_all R digest J y1 = Option.bind (replay_read_all R digest J y') (\<lambda>(rs', e). Some (rs @ rs', e))"
    using Cons.IH [of y1 bs'] bs(5) r1(2) Cons.prems(2) by (auto simp: y1_def)
  have "replay_read_all R digest J y =
      Option.bind (replay_read_all R digest J y1) (\<lambda>(rs, e). Some (r # rs, e))"
    using step by (subst replay_read_all.simps) simp
  then show ?case
    using y' by (intro exI [of _ y'])
      (auto simp: y1_def split: Option.bind_splits)
qed

lemma read_records_then:
  fixes y :: "('r, 'm) replay_reader"
  assumes "encodes digest J (ry_last y) rs bs" "\<forall>r \<in> set rs. json_inverse J r"
    and "remaining (ry_input y) = concat (map replay_block bs) @ rest"
    and "\<And>y' :: ('r, 'm) replay_reader. remaining (ry_input y') = rest \<Longrightarrow>
      replay_read_all R digest J y' = Some (rs', e)"
  shows "replay_read_all R digest J y = Some (rs @ rs', e)"
  using read_records [OF assms(1-3)] assms(4) by auto

lemma read_end:
  assumes "remaining (ry_input y) = []"
  shows "replay_read_all R digest J y = Some ([], None)"
proof -
  obtain e r where "sc_read_exact R (ry_input y) 4 = (Inl e, r)" "io_error_kind_of e = UnexpectedEof"
    using read_short [of "ry_input y" 4] assms by auto
  then show ?thesis
    by (subst replay_read_all.simps) (simp add: replay_reader_read_next_def block_read_def)
qed

lemma read_damaged:
  assumes rem: "remaining (ry_input y) = u32_to_be_bytes (of_nat (length b)) @ b @ c @ rest" and "block_ok b"
    and "length c = 4" and "crc b \<noteq> u32_from_be_bytes c"
  shows "replay_read_all R digest J y = Some ([], Some (InvalidFrame ''replay crc''))"
  using block_read_parts [OF assms(1-3), of True] assms(4)
  by (subst replay_read_all.simps) (auto simp: replay_reader_read_next_def)

lemma read_cut:
  assumes "remaining (ry_input y) = take k (replay_block b)" "block_ok b" "k < 8 + length b"
  shows "\<exists>e. replay_read_all R digest J y = Some ([], if k < 4 then None else Some (Io e)) \<and>
    io_error_kind_of e = UnexpectedEof"
  using block_read_cut [OF assms]
  by (subst replay_read_all.simps) (auto simp: replay_reader_read_next_def)

lemma block_read_consumes:
  assumes "block_read R r eof = (Inr (Some b), r')"
  shows "length (remaining r') < length (remaining r)"
proof -
  have shorter: "length (remaining r2) = length (remaining r1) - n \<and> n \<le> length (remaining r1)"
    if "sc_read_exact R r1 n = (Inr x, r2)" for n x r1 r2
    using read_full [of n r1] read_short [of r1 n] that by (cases "n \<le> length (remaining r1)") auto
  show ?thesis
    using assms by (auto simp: block_read_def Let_def dest!: shorter split: prod.splits sum.splits if_splits)
qed

lemma read_all_returns: "\<exists>rs e. replay_read_all R digest J y = Some (rs, e)"
proof (induction "length (remaining (ry_input y))" arbitrary: y rule: less_induct)
  case less
  obtain q y1 where next1: "replay_reader_read_next R digest J y = (q, y1)" by fastforce
  show ?case
  proof (cases "\<exists>r. q = Inr (Some r)")
    case True
    then obtain r where r: "q = Inr (Some r)" by blast
    with next1 have "length (remaining (ry_input y1)) < length (remaining (ry_input y))"
      by (auto simp: replay_reader_read_next_def Let_def dest!: block_read_consumes
          split: prod.splits sum.splits option.splits)
    from less [OF this] next1 r show ?thesis by (subst replay_read_all.simps) auto
  next
    case False
    with next1 show ?thesis by (subst replay_read_all.simps) (auto split: sum.splits option.splits)
  qed
qed

end

subsection \<open>Properties\<close>

context lawful_sink
begin

lemma write_all_cut:
  "replay_write_all W digest J rs w = (Inr u, w') \<Longrightarrow> length (written (rw_out w)) \<le> k \<Longrightarrow>
   k \<le> length (written (rw_out w')) \<Longrightarrow>
   \<exists>rs1 rs2 w1 bs1. rs = rs1 @ rs2 \<and> replay_write_all W digest J rs1 w = (Inr (), w1) \<and>
     encodes digest J (rw_last w) rs1 bs1 \<and>
     written (rw_out w1) = written (rw_out w) @ concat (map replay_block bs1) \<and>
     length (written (rw_out w1)) \<le> k \<and>
     (rs2 = [] \<and> take k (written (rw_out w')) = written (rw_out w1) \<and> k = length (written (rw_out w1)) \<or>
      (\<exists>r rs3 w2 b. rs2 = r # rs3 \<and> replay_writer_record W digest J w1 r = (Inr (), w2) \<and>
        k < length (written (rw_out w2)) \<and> block_ok b \<and> k < length (written (rw_out w1)) + 8 + length b \<and>
        take k (written (rw_out w')) =
          written (rw_out w1) @ take (k - length (written (rw_out w1))) (replay_block b)))"
proof (induction rs arbitrary: w)
  case Nil
  then show ?case by (intro exI [of _ "[]"] exI [of _ w]) auto
next
  case (Cons r rs)
  obtain q w2 where one: "replay_writer_record W digest J w r = (q, w2)" by fastforce
  with Cons.prems obtain v where rest: "q = Inr v" "replay_write_all W digest J rs w2 = (Inr u, w')"
    by (cases q) auto
  obtain b where b: "replay_record_check digest (rw_last w) r = Inr ()" "sj_to_vec J r = Inr b" "block_ok b"
    "written (rw_out w2) = written (rw_out w) @ replay_block b" "rw_last w2 = replay_record_tick r"
    using record_written one rest(1) by blast
  show ?case
  proof (cases "length (written (rw_out w2)) \<le> k")
    case True
    obtain rs1 rs2 w1 bs1 where *: "rs = rs1 @ rs2" "replay_write_all W digest J rs1 w2 = (Inr (), w1)"
      "encodes digest J (rw_last w2) rs1 bs1"
      "written (rw_out w1) = written (rw_out w2) @ concat (map replay_block bs1)"
      "length (written (rw_out w1)) \<le> k"
      "rs2 = [] \<and> take k (written (rw_out w')) = written (rw_out w1) \<and> k = length (written (rw_out w1)) \<or>
       (\<exists>r rs3 w2 b. rs2 = r # rs3 \<and> replay_writer_record W digest J w1 r = (Inr (), w2) \<and>
        k < length (written (rw_out w2)) \<and> block_ok b \<and> k < length (written (rw_out w1)) + 8 + length b \<and>
        take k (written (rw_out w')) =
          written (rw_out w1) @ take (k - length (written (rw_out w1))) (replay_block b))"
      using Cons.IH [OF rest(2) True Cons.prems(3)] by blast
    have "replay_write_all W digest J (r # rs1) w = (Inr (), w1)" using one rest(1) *(2) by simp
    moreover have "encodes digest J (rw_last w) (r # rs1) (b # bs1)" using b *(3) by simp
    moreover have "written (rw_out w1) = written (rw_out w) @ concat (map replay_block (b # bs1))"
      using *(4) b(4) by simp
    moreover have "r # rs = (r # rs1) @ rs2" using *(1) by simp
    ultimately show ?thesis using *(5,6) by blast
  next
    case False
    obtain bs where "written (rw_out w') = written (rw_out w2) @ concat (map replay_block bs)"
      using write_all_written [OF rest(2)] by blast
    then have "take k (written (rw_out w')) =
        written (rw_out w) @ take (k - length (written (rw_out w))) (replay_block b)"
      using False Cons.prems(2) b(4) by simp
    then show ?thesis using False Cons.prems(2) b(3,4) one rest(1)
      by (intro exI [of _ "[]"] exI [of _ "r # rs"] exI [of _ w] conjI disjI2 exI [of _ r] exI [of _ rs]
          exI [of _ w2] exI [of _ b]) auto
  qed
qed

end

text \<open>C37. A replay log can be read back: whatever sink it was written to and whatever source it is
read from, a log whose header and records were all accepted by the writer opens with the same
header and gives exactly these records, then its end.\<close>

theorem replay_log_roundtrip:
  assumes "lawful_sink W written" "lawful_source R remaining" "written out = []"
    and "replay_writer_new W JH out header = Inr w" "json_inverse JH header"
    and "replay_write_all W digest J rs w = (Inr u, w')" "\<forall>r \<in> set rs. json_inverse J r"
    and "replay_writer_finish W w' = Inr out'" "remaining input = written out'"
  shows "\<exists>y. replay_reader_new R JH input = Inr y \<and> ry_header y = header \<and>
    replay_read_all R digest J y = Some (rs, None)"
proof -
  obtain b where b: "sj_to_vec JH header = Inr b" "block_ok b"
    "written (rw_out w) = REPLAY_MAGIC @ replay_block b" "rw_last w = 0"
    using lawful_sink.new_written [OF assms(1,4)] assms(3) by auto
  obtain bs where bs: "encodes digest J 0 rs bs"
    "written (rw_out w') = written (rw_out w) @ concat (map replay_block bs)"
    using lawful_sink.write_all_written [OF assms(1,6)] b(4) by auto
  have "remaining input = REPLAY_MAGIC @ replay_block b @ concat (map replay_block bs)"
    using lawful_sink.finish_written [OF assms(1,8)] assms(9) b(3) bs(2) by simp
  then obtain y where y: "replay_reader_new R JH input = Inr y" "ry_header y = header" "ry_last y = 0"
    "remaining (ry_input y) = concat (map replay_block bs) @ []"
    using lawful_source.reader_opens [OF assms(2) _ b(2)] assms(5) b(1) by (force simp: json_inverse_def)
  have "encodes digest J (ry_last y) rs bs" using bs(1) y(3) by simp
  then have "replay_read_all R digest J y = Some (rs @ [], None)"
    by (rule lawful_source.read_records_then [OF assms(2) _ assms(7) y(4) lawful_source.read_end [OF assms(2)]])
  then show ?thesis using y(1,2) by simp
qed

text \<open>C38. A damaged log is recognised. Whatever happens to up to four consecutive bytes of
the JSON of a record, and whatever follows it, the reader gives the records before it and then
reports the checksum.\<close>

theorem replay_log_damage_detected:
  assumes "lawful_sink W written" "lawful_source R remaining" "written out = []"
    and "replay_writer_new W JH out header = Inr w" "json_inverse JH header"
    and "replay_write_all W digest J rs w = (Inr u, w1)" "\<forall>r \<in> set rs. json_inverse J r"
    and "replay_writer_record W digest J w1 r = (Inr v, w2)"
    and "written (rw_out w2) = written (rw_out w1) @ len @ us @ xs @ vs @ check" "length len = 4" "length check = 4"
    and "length ys = length xs" "length xs \<le> 4" "ys \<noteq> xs"
    and "remaining input = written (rw_out w1) @ len @ us @ ys @ vs @ check @ rest"
  shows "\<exists>y. replay_reader_new R JH input = Inr y \<and>
    replay_read_all R digest J y = Some (rs, Some (InvalidFrame ''replay crc''))"
proof -
  obtain b where b: "sj_to_vec JH header = Inr b" "block_ok b"
    "written (rw_out w) = REPLAY_MAGIC @ replay_block b" "rw_last w = 0"
    using lawful_sink.new_written [OF assms(1,4)] assms(3) by auto
  obtain bs where bs: "encodes digest J 0 rs bs"
    "written (rw_out w1) = written (rw_out w) @ concat (map replay_block bs)"
    using lawful_sink.write_all_written [OF assms(1,6)] b(4) by auto
  obtain c where c: "block_ok c" "written (rw_out w2) = written (rw_out w1) @ replay_block c"
    using lawful_sink.record_written [OF assms(1,8)] by blast
  then have parts: "len @ (us @ xs @ vs) @ check = replay_block c" using assms(9) by simp
  then have len: "len = u32_to_be_bytes (of_nat (length c))" "(us @ xs @ vs) @ check = c @ u32_to_be_bytes (crc c)"
    using assms(10) by (auto simp: replay_block_def append_eq_append_conv)
  have payload: "us @ xs @ vs = c" "check = u32_to_be_bytes (crc c)"
    using iffD1 [OF append_eq_append_conv len(2)] assms(11) by simp_all
  let ?c = "us @ ys @ vs"
  have same: "length ?c = length c" using payload(1) assms(12) by auto
  have ok: "block_ok ?c" using c(1) same by (cases ?c) (auto simp: block_ok_def)
  have crc: "crc ?c \<noteq> u32_from_be_bytes check"
    using crc_burst [of ys xs us vs] assms(12-14) payload by auto
  have "remaining input = REPLAY_MAGIC @ replay_block b @
      concat (map replay_block bs) @ u32_to_be_bytes (of_nat (length ?c)) @ ?c @ check @ rest"
    using assms(15) b(3) bs(2) len(1) same by simp
  then obtain y where y: "replay_reader_new R JH input = Inr y" "ry_last y = 0"
    "remaining (ry_input y) = concat (map replay_block bs) @ u32_to_be_bytes (of_nat (length ?c)) @ ?c @ check @ rest"
    using lawful_source.reader_opens [OF assms(2) _ b(2)] assms(5) b(1) by (force simp: json_inverse_def)
  have "encodes digest J (ry_last y) rs bs" using bs(1) y(2) by simp
  then have "replay_read_all R digest J y = Some (rs @ [], Some (InvalidFrame ''replay crc''))"
    by (rule lawful_source.read_records_then [OF assms(2) _ assms(7) y(3)
          lawful_source.read_damaged [OF assms(2) _ ok assms(11) crc]])
  then show ?thesis using y(1) by simp
qed

text \<open>C39. A log that was cut off anywhere after its header opens and gives exactly the records
whose blocks are complete in what is left: all of them, or all those before the first record whose
block, as the writer wrote it, ends after the cut. Then the reader reports an unexpected end of the
input exactly when four or more bytes of the next block are left: a log cut off in the length of a
block reads like a finished one. As for the round trip, the JSON of the header and of the records is
read back as what it was written from.\<close>

theorem replay_log_truncated:
  assumes "lawful_sink W written" "lawful_source R remaining" "written out = []"
    and "replay_writer_new W JH out header = Inr w" "json_inverse JH header"
    and "replay_write_all W digest J rs w = (Inr u, w')" "\<forall>r \<in> set rs. json_inverse J r"
    and "length (written (rw_out w)) \<le> k" "k \<le> length (written (rw_out w'))"
    and "remaining input = take k (written (rw_out w'))"
  shows "\<exists>y rs1 rs2 w1 e. replay_reader_new R JH input = Inr y \<and> rs = rs1 @ rs2 \<and>
    replay_write_all W digest J rs1 w = (Inr (), w1) \<and> length (written (rw_out w1)) \<le> k \<and>
    (case rs2 of
       [] \<Rightarrow> k = length (written (rw_out w1))
     | r # _ \<Rightarrow> \<exists>w2. replay_writer_record W digest J w1 r = (Inr (), w2) \<and> k < length (written (rw_out w2))) \<and>
    replay_read_all R digest J y = Some (rs1, e) \<and>
    (e = None \<longleftrightarrow> k < length (written (rw_out w1)) + 4) \<and>
    (\<forall>x. e = Some x \<longrightarrow> (\<exists>i. x = Io i \<and> io_error_kind_of i = UnexpectedEof))"
proof -
  obtain b where b: "sj_to_vec JH header = Inr b" "block_ok b"
    "written (rw_out w) = REPLAY_MAGIC @ replay_block b" "rw_last w = 0"
    using lawful_sink.new_written [OF assms(1,4)] assms(3) by auto
  obtain rs1 rs2 w1 bs1 where rs: "rs = rs1 @ rs2" "replay_write_all W digest J rs1 w = (Inr (), w1)"
    and bs: "encodes digest J 0 rs1 bs1"
      "written (rw_out w1) = written (rw_out w) @ concat (map replay_block bs1)"
      "length (written (rw_out w1)) \<le> k"
    and cut: "rs2 = [] \<and> take k (written (rw_out w')) = written (rw_out w1) \<and> k = length (written (rw_out w1)) \<or>
      (\<exists>r rs3 w2 c. rs2 = r # rs3 \<and> replay_writer_record W digest J w1 r = (Inr (), w2) \<and>
        k < length (written (rw_out w2)) \<and> block_ok c \<and> k < length (written (rw_out w1)) + 8 + length c \<and>
        take k (written (rw_out w')) =
          written (rw_out w1) @ take (k - length (written (rw_out w1))) (replay_block c))"
    using lawful_sink.write_all_cut [OF assms(1,6,8,9), unfolded b(4)] by blast
  let ?j = "k - length (written (rw_out w1))"
  from cut have exact: "case rs2 of [] \<Rightarrow> k = length (written (rw_out w1))
     | r # _ \<Rightarrow> \<exists>w2. replay_writer_record W digest J w1 r = (Inr (), w2) \<and> k < length (written (rw_out w2))"
    by auto
  obtain t where t: "remaining input = REPLAY_MAGIC @ replay_block b @ concat (map replay_block bs1) @ t"
    and rest: "t = [] \<and> ?j = 0 \<or> (\<exists>c. block_ok c \<and> ?j < 8 + length c \<and> t = take ?j (replay_block c))"
    using cut
  proof
    assume "rs2 = [] \<and> take k (written (rw_out w')) = written (rw_out w1) \<and> k = length (written (rw_out w1))"
    then have "?j = 0" "remaining input = written (rw_out w1)" using assms(10) by auto
    then show ?thesis using that [of "[]"] b(3) bs(2) by simp
  next
    assume "\<exists>r rs3 w2 c. rs2 = r # rs3 \<and> replay_writer_record W digest J w1 r = (Inr (), w2) \<and>
      k < length (written (rw_out w2)) \<and> block_ok c \<and> k < length (written (rw_out w1)) + 8 + length c \<and>
      take k (written (rw_out w')) = written (rw_out w1) @ take ?j (replay_block c)"
    then obtain c where c: "block_ok c" "k < length (written (rw_out w1)) + 8 + length c"
      "take k (written (rw_out w')) = written (rw_out w1) @ take ?j (replay_block c)" by blast
    have "?j < 8 + length c" using c(2) bs(3) by arith
    then show ?thesis using that [of "take ?j (replay_block c)"] assms(10) b(3) bs(2) c(1,3) by auto
  qed
  obtain y where y: "replay_reader_new R JH input = Inr y" "ry_last y = 0"
    "remaining (ry_input y) = concat (map replay_block bs1) @ t"
    using lawful_source.reader_opens [OF assms(2) t b(2)] assms(5) b(1) by (force simp: json_inverse_def)
  obtain y' :: "('b, 'c) replay_reader" where y': "remaining (ry_input y') = t"
    "replay_read_all R digest J y = Option.bind (replay_read_all R digest J y') (\<lambda>(rs', e). Some (rs1 @ rs', e))"
    using lawful_source.read_records [OF assms(2) _ _ y(3), of digest J rs1] bs(1) y(2) assms(7) rs(1) by auto
  have "\<exists>e. replay_read_all R digest J y' = Some ([], e) \<and> (e = None \<longleftrightarrow> ?j < 4) \<and>
      (\<forall>x. e = Some x \<longrightarrow> (\<exists>i. x = Io i \<and> io_error_kind_of i = UnexpectedEof))"
    using rest
  proof
    assume "t = [] \<and> ?j = 0"
    then show ?thesis using lawful_source.read_end [OF assms(2), of y'] y'(1) by simp
  next
    assume "\<exists>c. block_ok c \<and> ?j < 8 + length c \<and> t = take ?j (replay_block c)"
    then obtain c where c: "block_ok c" "?j < 8 + length c" "t = take ?j (replay_block c)" by blast
    then show ?thesis using lawful_source.read_cut [OF assms(2) _ c(1,2), of y' digest J] y'(1) by fastforce
  qed
  then obtain e where e: "replay_read_all R digest J y' = Some ([], e)" "e = None \<longleftrightarrow> ?j < 4"
    "\<forall>x. e = Some x \<longrightarrow> (\<exists>i. x = Io i \<and> io_error_kind_of i = UnexpectedEof)" by blast
  have "replay_read_all R digest J y = Some (rs1, e)" using y'(2) e(1) by simp
  moreover have "e = None \<longleftrightarrow> k < length (written (rw_out w1)) + 4" using e(2) bs(3) by auto
  ultimately show ?thesis
    using rs bs(3) y(1) e(3) exact by (intro exI [of _ y] exI [of _ rs1] exI [of _ rs2] exI [of _ w1] exI [of _ e]) blast
qed

subsection \<open>An example\<close>

lemma vec_block_write: "block_ok b \<Longrightarrow> block_write vec_sink w b = (Inr (), w @ replay_block b)"
  by (simp add: block_write_def block_ok_def vec_sink_def replay_block_def)

text \<open>A log with one tick; its JSON stands for itself.\<close>

definition log_demo_header :: "unit replay_header" where
  "log_demo_header = \<lparr>rh_room_id = ''r'', rh_tick_rate = 30, rh_input_delay_ticks = 0,
     rh_rollback_window_ticks = 0, rh_created_unix_ms = 1, rh_metadata = ()\<rparr>"

definition log_demo_header_json :: "unit replay_header serde_json" where
  "log_demo_header_json = \<lparr>sj_to_vec = (\<lambda>h. if h = log_demo_header then Inr [104] else Inl ''header''),
     sj_from_slice = (\<lambda>_. Inr log_demo_header)\<rparr>"

definition log_demo_json :: "(int, bytes) replay_record serde_json" where
  "log_demo_json = \<lparr>sj_to_vec = (\<lambda>r. case r of RecTick t \<Rightarrow> Inr [ucast t] | _ \<Rightarrow> Inl ''record''),
     sj_from_slice = (\<lambda>b. Inr (RecTick (ucast (hd b))))\<rparr>"

definition log_demo_writer :: "bytes replay_writer" where
  "log_demo_writer = \<lparr>rw_out = REPLAY_MAGIC @ replay_block [104], rw_last = 0\<rparr>"

definition log_demo_done :: "bytes replay_writer" where
  "log_demo_done = \<lparr>rw_out = rw_out log_demo_writer @ replay_block [1], rw_last = 1\<rparr>"

lemma log_demo_inverse:
  "json_inverse log_demo_header_json log_demo_header" "json_inverse log_demo_json (RecTick 1)"
  by (auto simp: json_inverse_def log_demo_header_json_def log_demo_json_def)

lemma log_demo_new: "replay_writer_new vec_sink log_demo_header_json [] log_demo_header = Inr log_demo_writer"
proof -
  have "block_ok [104]" by (simp add: block_ok_def REPLAY_MAX_def)
  from vec_block_write [OF this] show ?thesis
    by (simp add: replay_writer_new_def log_demo_header_json_def log_demo_writer_def)
      (simp add: log_demo_header_def vec_sink_def)
qed

lemma log_demo_record: "replay_writer_record vec_sink id log_demo_json log_demo_writer (RecTick 1) = (Inr (), log_demo_done)"
proof -
  have "block_ok [1]" by (simp add: block_ok_def REPLAY_MAX_def)
  from vec_block_write [OF this] show ?thesis
    by (simp add: replay_writer_record_def replay_record_check_def log_demo_json_def log_demo_writer_def log_demo_done_def)
qed

theorem replay_log_roundtrip_witness:
  "\<exists>y. replay_reader_new slice_source log_demo_header_json (rw_out log_demo_done) = Inr y \<and>
    ry_header y = log_demo_header \<and>
    replay_read_all slice_source id log_demo_json y = Some ([RecTick 1], None)"
  by (rule replay_log_roundtrip [OF vec.lawful_sink_axioms slice.lawful_source_axioms _ log_demo_new
        log_demo_inverse(1), where w' = log_demo_done and u = "()" and out' = "rw_out log_demo_done"])
    (use log_demo_record log_demo_inverse(2) in \<open>simp_all add: replay_writer_finish_def vec_sink_def\<close>)

theorem replay_log_damage_detected_witness:
  "\<exists>y. replay_reader_new slice_source log_demo_header_json (rw_out log_demo_writer @
      u32_to_be_bytes 1 @ [2] @ u32_to_be_bytes (crc [1])) = Inr y \<and>
    replay_read_all slice_source id log_demo_json y = Some ([], Some (InvalidFrame ''replay crc''))"
  by (rule replay_log_damage_detected [OF vec.lawful_sink_axioms slice.lawful_source_axioms _ log_demo_new
        log_demo_inverse(1) _ _ log_demo_record, where rs = "[]" and len = "u32_to_be_bytes 1" and
        check = "u32_to_be_bytes (crc [1])" and us = "[]" and xs = "[1]" and ys = "[2]" and vs = "[]" and rest = "[]"])
    (simp_all add: log_demo_writer_def log_demo_done_def replay_block_def)

definition log_demo_longer :: "bytes replay_writer" where
  "log_demo_longer = \<lparr>rw_out = rw_out log_demo_done @ replay_block [2], rw_last = 2\<rparr>"

lemma log_demo_longer_record:
  "replay_writer_record vec_sink id log_demo_json log_demo_done (RecTick 2) = (Inr (), log_demo_longer)"
proof -
  have "block_ok [2]" by (simp add: block_ok_def REPLAY_MAX_def)
  from vec_block_write [OF this] show ?thesis
    by (simp add: replay_writer_record_def replay_record_check_def log_demo_json_def log_demo_longer_def log_demo_done_def)
qed

text \<open>Two ticks, cut off in the length of the second block: the first is read and no error reported.\<close>

theorem replay_log_truncated_witness:
  "\<exists>y. replay_reader_new slice_source log_demo_header_json
      (take (length (rw_out log_demo_done) + 3) (rw_out log_demo_longer)) = Inr y \<and>
    replay_read_all slice_source id log_demo_json y = Some ([RecTick 1], None)"
proof -
  let ?k = "length (rw_out log_demo_done) + 3" and ?rs = "[RecTick 1, RecTick 2] :: (int, bytes) replay_record list"
  have len: "length (rw_out log_demo_done) = length (rw_out log_demo_writer) + 9"
    "length (rw_out log_demo_longer) = length (rw_out log_demo_done) + 9"
    by (simp_all add: log_demo_done_def log_demo_longer_def)
  have wrote: "replay_write_all vec_sink id log_demo_json ?rs log_demo_writer = (Inr (), log_demo_longer)"
    using log_demo_record log_demo_longer_record by simp
  have inverse: "\<forall>r \<in> set ?rs. json_inverse log_demo_json r"
    by (simp add: json_inverse_def log_demo_json_def)
  have "id [] = []" "length (id (rw_out log_demo_writer)) \<le> ?k" "?k \<le> length (id (rw_out log_demo_longer))"
    "id (take ?k (rw_out log_demo_longer)) = take ?k (id (rw_out log_demo_longer))"
    using len by simp_all
  note cut = replay_log_truncated [OF vec.lawful_sink_axioms slice.lawful_source_axioms this(1) log_demo_new
      log_demo_inverse(1) wrote inverse this(2-4)]
  then obtain y rs1 rs2 w1 e where open1: "replay_reader_new slice_source log_demo_header_json
      (take ?k (rw_out log_demo_longer)) = Inr y" and rs: "?rs = rs1 @ rs2"
    and w1: "replay_write_all vec_sink id log_demo_json rs1 log_demo_writer = (Inr (), w1)"
    "length (id (rw_out w1)) \<le> ?k"
    and most: "case rs2 of [] \<Rightarrow> ?k = length (id (rw_out w1))
     | r # _ \<Rightarrow> \<exists>w2. replay_writer_record vec_sink id log_demo_json w1 r = (Inr (), w2) \<and> ?k < length (id (rw_out w2))"
    and read: "replay_read_all slice_source id log_demo_json y = Some (rs1, e)"
    "e = None \<longleftrightarrow> ?k < length (id (rw_out w1)) + 4"
    by (elim exE conjE) (rule that; assumption)
  from rs consider "rs1 = []" "rs2 = ?rs" | "rs1 = [RecTick 1]" | "rs1 = ?rs"
    by (auto simp: Cons_eq_append_conv)
  then have "rs1 = [RecTick 1] \<and> w1 = log_demo_done"
    using w1 most log_demo_record log_demo_longer_record len by cases auto
  with open1 read show ?thesis by auto
qed

end
