(* ===== verification/Replay_Player.thy ===== *)
theory Replay_Player
  imports Replay_Log Realtime_Rollback
begin

section \<open>Playing replays\<close>

text \<open>
  Model of \<open>crates/elura-core/src/realtime/replay_player.rs\<close>: a log is read record by record and
  played into a driver, the interface \<open>ReplayDriver\<close> that a room implements. A recording that keeps
  to the limits of the room is reproduced; what happens to other recordings is at the end.
\<close>

subsection \<open>Player and driver\<close>

record replay_stats =
  rps_commands_submitted :: u64
  rps_ticks_advanced :: u64
  rps_checkpoints_verified :: u64

definition replay_stats_default :: replay_stats where
  "replay_stats_default = \<lparr>rps_commands_submitted = 0, rps_ticks_advanced = 0, rps_checkpoints_verified = 0\<rparr>"

text \<open>The methods of a driver; \<open>submit_at\<close> is \<open>None\<close> when it waits, which is for ever, since only the
player advances the driver.\<close>

record ('d, 'c) replay_driver =
  dv_room_id :: "'d \<Rightarrow> string"
  dv_current_tick :: "'d \<Rightarrow> u64"
  dv_tick_rate :: "'d \<Rightarrow> u32"
  dv_input_delay_ticks :: "'d \<Rightarrow> u64"
  dv_rollback_window_ticks :: "'d \<Rightarrow> u64"
  dv_submit_at :: "'d \<Rightarrow> u64 \<Rightarrow> 'c command \<Rightarrow> ((core_error + unit) \<times> 'd) option"
  dv_advance :: "'d \<Rightarrow> (core_error + unit) \<times> 'd"
  dv_canonical_state :: "'d \<Rightarrow> core_error + bytes"

definition room_driver ::
    "('s, 'c, 'n, 'h, 'o, 'p) room_env \<Rightarrow> u64 \<Rightarrow> (('s, 'c, 'n, 'h, 'o, 'p) realtime_room, 'c) replay_driver" where
  "room_driver env nanos =
     \<lparr>dv_room_id = rr_id, dv_current_tick = rr_current, dv_tick_rate = (\<lambda>room. rc_tick_rate (rr_config room)),
      dv_input_delay_ticks = (\<lambda>room. rc_input_delay_ticks (rr_config room)),
      dv_rollback_window_ticks = (\<lambda>room. rc_rollback_window_ticks (rr_config room)),
      dv_submit_at = (\<lambda>room tick c. case realtime_submit_at room tick c of
          Inl e \<Rightarrow> Some (Inl e, room)
        | Inr None \<Rightarrow> None
        | Inr (Some room') \<Rightarrow> Some (Inr (), room')),
      dv_advance = realtime_advance env nanos, dv_canonical_state = realtime_canonical_state env\<rparr>"

text \<open>The body of the loop.\<close>

fun play_record ::
    "('d, 'c) replay_driver \<Rightarrow> (bytes \<Rightarrow> 'h) \<Rightarrow> ('c, 'h) replay_record \<Rightarrow> 'd \<Rightarrow> replay_stats \<Rightarrow>
     ((core_error + replay_stats) \<times> 'd) option" where
  "play_record D digest (RecCommand tick player sequence command) d stats =
     (case dv_submit_at D d tick \<lparr>cm_player = player, cm_sequence = sequence, cm_value = command\<rparr> of
        None \<Rightarrow> None
      | Some (Inl e, d) \<Rightarrow> Some (Inl e, d)
      | Some (Inr _, d) \<Rightarrow>
          Some (Inr (stats\<lparr>rps_commands_submitted := rps_commands_submitted stats + 1\<rparr>), d))"
| "play_record D digest (RecTick tick) d stats =
     (if tick \<noteq> dv_current_tick D d + 1 then Some (Inl (InvalidFrame ''replay Tick is out of order''), d)
      else case dv_advance D d of
        (Inl e, d) \<Rightarrow> Some (Inl e, d)
      | (Inr _, d) \<Rightarrow>
          if dv_current_tick D d \<noteq> tick then Some (Inl (InvalidFrame ''replay driver Tick mismatch''), d)
          else Some (Inr (stats\<lparr>rps_ticks_advanced := rps_ticks_advanced stats + 1\<rparr>), d))"
| "play_record D digest (RecCheckpoint tick state state_hash) d stats =
     (if dv_current_tick D d \<noteq> tick then Some (Inl (InvalidFrame ''replay checkpoint Tick mismatch''), d)
      else case dv_canonical_state D d of
        Inl e \<Rightarrow> Some (Inl e, d)
      | Inr canonical \<Rightarrow>
          if \<not> state_hash_matches digest state_hash canonical
          then Some (Inl (InvalidFrame ''replay checkpoint state mismatch''), d)
          else Some (Inr (stats\<lparr>rps_checkpoints_verified := rps_checkpoints_verified stats + 1\<rparr>), d))"

partial_function (option) play_loop ::
    "'r byte_source \<Rightarrow> (bytes \<Rightarrow> 'h) \<Rightarrow> ('c, 'h) replay_record serde_json \<Rightarrow> ('d, 'c) replay_driver \<Rightarrow>
     ('r, 'm) replay_reader \<Rightarrow> 'd \<Rightarrow> replay_stats \<Rightarrow>
     ((core_error + replay_stats) \<times> ('r, 'm) replay_reader \<times> 'd) option" where
  [code]: "play_loop R digest J D y d stats =
     (case replay_reader_read_next R digest J y of
        (Inl e, y) \<Rightarrow> Some (Inl e, y, d)
      | (Inr None, y) \<Rightarrow> Some (Inr stats, y, d)
      | (Inr (Some r), y) \<Rightarrow>
          Option.bind (play_record D digest r d stats) (\<lambda>(q, d).
            case q of
              Inl e \<Rightarrow> Some (Inl e, y, d)
            | Inr stats \<Rightarrow> play_loop R digest J D y d stats))"

definition play_replay ::
    "'r byte_source \<Rightarrow> (bytes \<Rightarrow> 'h) \<Rightarrow> ('c, 'h) replay_record serde_json \<Rightarrow> ('d, 'c) replay_driver \<Rightarrow>
     ('r, 'm) replay_reader \<Rightarrow> 'd \<Rightarrow> ((core_error + replay_stats) \<times> ('r, 'm) replay_reader \<times> 'd) option" where
  "play_replay R digest J D y d =
     (let header = ry_header y
      in if dv_room_id D d \<noteq> rh_room_id header \<or> dv_current_tick D d \<noteq> 0
            \<or> dv_tick_rate D d \<noteq> rh_tick_rate header
            \<or> dv_input_delay_ticks D d \<noteq> rh_input_delay_ticks header
            \<or> dv_rollback_window_ticks D d \<noteq> rh_rollback_window_ticks header
         then Some (Inl (core_error.InvalidConfig ''replay driver does not match header''), y, d)
         else play_loop R digest J D y d replay_stats_default)"

subsection \<open>Playing a list of records\<close>

fun play_all ::
    "('d, 'c) replay_driver \<Rightarrow> (bytes \<Rightarrow> 'h) \<Rightarrow> ('c, 'h) replay_record list \<Rightarrow> 'd \<Rightarrow> replay_stats \<Rightarrow>
     ((core_error + replay_stats) \<times> 'd) option" where
  "play_all D digest [] d stats = Some (Inr stats, d)"
| "play_all D digest (r # rs) d stats =
     (case play_record D digest r d stats of
        None \<Rightarrow> None
      | Some (Inl e, d) \<Rightarrow> Some (Inl e, d)
      | Some (Inr stats, d) \<Rightarrow> play_all D digest rs d stats)"

lemma play_all_append:
  "play_all D digest xs d stats = Some (Inr stats', d') \<Longrightarrow>
     play_all D digest (xs @ ys) d stats = play_all D digest ys d' stats'"
  by (induction xs arbitrary: d stats) (auto split: option.splits sum.splits prod.splits)

lemma play_loop_records:
  "replay_read_all R digest J y = Some (rs, e) \<Longrightarrow> play_all D digest rs d stats = Some (Inr stats', d') \<Longrightarrow>
     \<exists>y'. play_loop R digest J D y d stats = Some (case e of None \<Rightarrow> Inr stats' | Some e \<Rightarrow> Inl e, y', d')"
proof (induction rs arbitrary: y d stats)
  case Nil
  then show ?case
    by (subst play_loop.simps, subst (asm) replay_read_all.simps)
      (auto split: prod.splits sum.splits option.splits Option.bind_splits)
next
  case (Cons r rs)
  then obtain y1 where y1: "replay_reader_read_next R digest J y = (Inr (Some r), y1)"
    "replay_read_all R digest J y1 = Some (rs, e)"
    by (subst (asm) (2) replay_read_all.simps) (auto split: prod.splits sum.splits option.splits Option.bind_splits)
  obtain stats1 d1 where "play_record D digest r d stats = Some (Inr stats1, d1)"
    "play_all D digest rs d1 stats1 = Some (Inr stats', d')"
    using Cons.prems(2) by (auto split: option.splits prod.splits sum.splits)
  with Cons.IH [OF y1(2)] y1(1) show ?case by (subst play_loop.simps) auto
qed

context lawful_source
begin

lemma read_next_consumes:
  "replay_reader_read_next R digest J y = (Inr (Some r), y') \<Longrightarrow>
     length (remaining (ry_input y')) < length (remaining (ry_input y))"
  by (auto simp: replay_reader_read_next_def Let_def dest!: block_read_consumes
      split: prod.splits sum.splits option.splits)

lemma play_loop_returns:
  assumes "\<And>d t c. dv_submit_at D d t c \<noteq> None"
  shows "play_loop R digest J D y d stats \<noteq> None"
proof (induction "length (remaining (ry_input y))" arbitrary: y d stats rule: less_induct)
  case less
  obtain q y1 where next1: "replay_reader_read_next R digest J y = (q, y1)" by fastforce
  show ?case
  proof (cases "\<exists>r. q = Inr (Some r)")
    case True
    then obtain r where r: "q = Inr (Some r)" by blast
    have step: "play_record D digest r d stats \<noteq> None"
      using assms by (cases r) (auto split: option.splits prod.splits sum.splits)
    have "length (remaining (ry_input y1)) < length (remaining (ry_input y))"
      using read_next_consumes next1 r by blast
    from less [OF this] step next1 r show ?thesis
      by (subst play_loop.simps) (auto split: sum.splits)
  next
    case False
    with next1 show ?thesis by (subst play_loop.simps) (auto split: sum.splits option.splits)
  qed
qed

end

subsection \<open>A room as the driver\<close>

definition room_settings :: "('s, 'c, 'n, 'h, 'o, 'p) realtime_room \<Rightarrow> string \<times> realtime_config \<times> duration \<times> bool" where
  "room_settings room = (rr_id room, rr_config room, rr_delta room, rr_running room)"

text \<open>No player has used a sequence number of these commands, or a higher one.\<close>

definition fresh_commands :: "(player_key \<times> u64) list \<Rightarrow> 'c command list \<Rightarrow> bool" where
  "fresh_commands sequences cs \<longleftrightarrow>
     (\<forall>c \<in> set cs. (case map_of sequences (cm_player c) of None \<Rightarrow> 0 | Some n \<Rightarrow> n) < cm_sequence c)"

definition ascending_commands :: "'c command list \<Rightarrow> bool" where
  "ascending_commands = sorted_wrt (\<lambda>a b. cm_player a = cm_player b \<longrightarrow> cm_sequence a < cm_sequence b)"

definition command_record :: "u64 \<Rightarrow> 'c command \<Rightarrow> ('c, 'h) replay_record" where
  "command_record tick c = RecCommand tick (cm_player c) (cm_sequence c) (cm_value c)"

definition commands_valid :: "'c command list \<Rightarrow> bool" where
  "commands_valid cs \<longleftrightarrow> (\<forall>c \<in> set cs. \<not> isl (player_key_validate (cm_player c)) \<and> cm_sequence c \<noteq> 0)"

lemma submit_one:
  assumes "commands_valid [c]" "tick = rr_current room + 1" "tick \<noteq> 0"
    and "rc_max_future_input_ticks (rr_config room) \<noteq> 0"
  shows "play_record (room_driver env nanos) digest (command_record tick c) room stats =
    (if length (rr_queue room) < rc_command_capacity (rr_config room)
     then Some (Inr (stats\<lparr>rps_commands_submitted := rps_commands_submitted stats + 1\<rparr>),
       bump ct_accepted_update (room\<lparr>rr_queue := rr_queue room @ [\<lparr>sb_target = tick, sb_command = c\<rparr>]\<rparr>))
     else None)"
proof -
  have tick: "unat tick = Suc (unat (rr_current room))"
    using unatSuc [of "rr_current room"] assms(2,3) by (simp add: add.commute)
  then have "\<not> tick \<le> rr_current room" by (simp add: word_le_nat_alt)
  moreover have "tick \<le> sat_add (rr_current room) (rc_max_future_input_ticks (rr_config room))"
    using tick assms(4) unat_lt2p [of tick]
    by (simp add: word_le_nat_alt unat_sat_add unat_gt_0 Suc_le_eq del: unat_lt2p)
  ultimately have "realtime_validate room tick c = Inr ()"
    using assms(1,3) by (simp add: realtime_validate_def commands_valid_def not_less)
  then show ?thesis
    by (cases c) (simp add: command_record_def room_driver_def realtime_submit_at_def realtime_send_def)
qed

lemma submit_all:
  assumes "commands_valid cs" "tick = rr_current room + 1" "tick \<noteq> 0"
    and "rc_max_future_input_ticks (rr_config room) \<noteq> 0"
    and "length (rr_queue room) + length cs \<le> rc_command_capacity (rr_config room)"
  shows "\<exists>k. play_all (room_driver env nanos) digest (map (command_record tick) cs) room stats =
    Some (Inr (stats\<lparr>rps_commands_submitted := rps_commands_submitted stats + of_nat (length cs)\<rparr>),
      room\<lparr>rr_queue := rr_queue room @ map (\<lambda>c. \<lparr>sb_target = tick, sb_command = c\<rparr>) cs, rr_counters := k\<rparr>)"
  using assms
proof (induction cs arbitrary: room stats)
  case Nil
  then show ?case by (auto intro: exI [of _ "rr_counters room"])
next
  case (Cons c cs)
  let ?room = "bump ct_accepted_update (room\<lparr>rr_queue := rr_queue room @ [\<lparr>sb_target = tick, sb_command = c\<rparr>]\<rparr>)"
  let ?stats = "stats\<lparr>rps_commands_submitted := rps_commands_submitted stats + 1\<rparr>"
  have "play_record (room_driver env nanos) digest (command_record tick c) room stats = Some (Inr ?stats, ?room)"
    using submit_one [of c tick room] Cons.prems by (simp add: commands_valid_def)
  moreover obtain k where "play_all (room_driver env nanos) digest (map (command_record tick) cs) ?room ?stats =
    Some (Inr (?stats\<lparr>rps_commands_submitted := rps_commands_submitted ?stats + of_nat (length cs)\<rparr>),
      ?room\<lparr>rr_queue := rr_queue ?room @ map (\<lambda>c. \<lparr>sb_target = tick, sb_command = c\<rparr>) cs, rr_counters := k\<rparr>)"
    using Cons.IH [of ?room ?stats] Cons.prems by (auto simp: commands_valid_def)
  ultimately show ?case by (auto intro!: exI [of _ k] simp: bump_def add.assoc)
qed

text \<open>A tick with more commands than the channel holds.\<close>

lemma replay_waits_forever:
  assumes "commands_valid cs" "tick = rr_current room + 1" "tick \<noteq> 0"
    and "rc_max_future_input_ticks (rr_config room) \<noteq> 0" "rr_queue room = []"
    and "rc_command_capacity (rr_config room) < length cs"
  shows "play_all (room_driver env nanos) digest (map (command_record tick) cs @ rs) room stats = None"
proof -
  let ?n = "rc_command_capacity (rr_config room)"
  obtain k stats' where first: "play_all (room_driver env nanos) digest (map (command_record tick) (take ?n cs)) room stats =
      Some (Inr stats', room\<lparr>rr_queue := map (\<lambda>c. \<lparr>sb_target = tick, sb_command = c\<rparr>) (take ?n cs), rr_counters := k\<rparr>)"
    (is "_ = Some (_, ?room)")
    using submit_all [of "take ?n cs" tick room env nanos digest stats] assms
    by (auto simp: commands_valid_def dest: in_set_takeD)
  have split: "cs = take ?n cs @ cs ! ?n # drop (Suc ?n) cs" using assms(6) by (simp add: id_take_nth_drop)
  have "commands_valid [cs ! ?n]" using assms(1,6) by (simp add: commands_valid_def)
  then have "play_record (room_driver env nanos) digest (command_record tick (cs ! ?n)) ?room stats' = None"
    using submit_one [of "cs ! ?n" tick ?room] assms(2-6) by simp
  then show ?thesis
    by (subst split, simp only: map_append append_assoc play_all_append [OF first]) simp
qed

lemma insort_key_end: "(\<And>y. y \<in> set xs \<Longrightarrow> f y < f x) \<Longrightarrow> insort_key f x xs = xs @ [x]"
  for f :: "'a \<Rightarrow> 'b::linorder"
  by (induction xs) (auto simp: not_le [symmetric])

lemma room_settings_simps [simp]:
  "room_settings (room\<lparr>rr_counters := k\<rparr>) = room_settings room"
  "room_settings (room\<lparr>rr_pending := p\<rparr>) = room_settings room"
  "room_settings (room\<lparr>rr_queue := q\<rparr>) = room_settings room"
  "room_settings (room\<lparr>rr_order := ord\<rparr>) = room_settings room"
  "room_settings (room\<lparr>rr_sequences := ss\<rparr>) = room_settings room"
  "room_settings (room\<lparr>rr_simulation := s\<rparr>) = room_settings room"
  "room_settings (room\<lparr>rr_history := h\<rparr>) = room_settings room"
  "room_settings (room\<lparr>rr_initialized := i\<rparr>) = room_settings room"
  "room_settings (room\<lparr>rr_current := n\<rparr>) = room_settings room"
  "room_settings (bump f room) = room_settings room"
  by (simp_all add: room_settings_def bump_def)

lemma fresh_accept:
  assumes "ascending_commands (c # cs)" "fresh_commands sequences (c # cs)"
  shows "fresh_commands (hm_insert (cm_player c) (cm_sequence c) sequences) cs"
  using assms by (auto simp: fresh_commands_def ascending_commands_def hm_insert_def map_of_remove)

lemma drain_fresh:
  assumes "ascending_commands (cs @ later)" "fresh_commands (rr_sequences room) (cs @ later)"
    and "rr_current room < tick" "length (rr_pending room) + length cs \<le> rc_max_pending_commands (rr_config room)"
    and "\<forall>x \<in> set (rr_pending room). sd_target x = tick \<and> sd_order x \<le> rr_order room"
    and "unat (rr_order room) + length cs < 2 ^ 64"
  shows "\<exists>room'. foldl drain_one (late, room) (map (\<lambda>c. \<lparr>sb_target = tick, sb_command = c\<rparr>) cs) = (late, room') \<and>
    map sd_command (rr_pending room') = map sd_command (rr_pending room) @ cs \<and>
    (\<forall>x \<in> set (rr_pending room'). sd_target x = tick) \<and> fresh_commands (rr_sequences room') later \<and>
    unat (rr_order room') = unat (rr_order room) + length cs \<and> rr_simulation room' = rr_simulation room \<and>
    rr_queue room' = rr_queue room \<and> rr_current room' = rr_current room \<and> room_settings room' = room_settings room \<and>
    rr_initialized room' = rr_initialized room"
  using assms
proof (induction cs arbitrary: room)
  case (Cons c cs)
  let ?ord = "rr_order room + 1"
  let ?room = "(accept_sequence c (bump ct_received_update room))\<lparr>rr_order := ?ord,
    rr_pending := rr_pending room @ [\<lparr>sd_target = tick, sd_order = ?ord, sd_command = c\<rparr>]\<rparr>"
  have ord: "unat ?ord = Suc (unat (rr_order room))" using Cons.prems(6) by (simp add: unat_word_ariths)
  have "insort_key (\<lambda>x. (sd_target x, sd_order x)) \<lparr>sd_target = tick, sd_order = ?ord, sd_command = c\<rparr> (rr_pending room) =
      rr_pending room @ [\<lparr>sd_target = tick, sd_order = ?ord, sd_command = c\<rparr>]"
    using Cons.prems(5) ord by (intro insort_key_end) (auto simp: less_prod_def word_le_nat_alt word_less_nat_alt)
  moreover have "\<not> cm_sequence c \<le> (case map_of (rr_sequences room) (cm_player c) of None \<Rightarrow> 0 | Some n \<Rightarrow> n)"
    using Cons.prems(2) by (simp add: fresh_commands_def not_le)
  ultimately have step: "drain_one (late, room) \<lparr>sb_target = tick, sb_command = c\<rparr> = (late, ?room)"
    using Cons.prems(4) iffD2 [OF not_le Cons.prems(3)]
    by (simp add: drain_one_def Let_def accept_sequence_def bump_def)
  have "fresh_commands (rr_sequences ?room) (cs @ later)"
    using fresh_accept Cons.prems(1,2) by (simp add: accept_sequence_def)
  moreover have "ascending_commands (cs @ later)" using Cons.prems(1) by (simp add: ascending_commands_def)
  moreover have "\<forall>x \<in> set (rr_pending ?room). sd_target x = tick \<and> sd_order x \<le> rr_order ?room"
    using Cons.prems(5) ord le_SucI by (auto simp: accept_sequence_def word_le_nat_alt)
  ultimately obtain room' where "foldl drain_one (late, ?room) (map (\<lambda>c. \<lparr>sb_target = tick, sb_command = c\<rparr>) cs) = (late, room')"
    "map sd_command (rr_pending room') = map sd_command (rr_pending ?room) @ cs"
    "\<forall>x \<in> set (rr_pending room'). sd_target x = tick" "fresh_commands (rr_sequences room') later"
    "unat (rr_order room') = unat (rr_order ?room) + length cs" "rr_simulation room' = rr_simulation ?room"
    "rr_queue room' = rr_queue ?room" "rr_current room' = rr_current ?room" "room_settings room' = room_settings ?room"
    "rr_initialized room' = rr_initialized ?room"
    using Cons.IH [of ?room] Cons.prems(3,4,6) ord by (auto simp: accept_sequence_def)
  then show ?case using step ord by (auto simp: accept_sequence_def)
qed (auto simp: fresh_commands_def)

lemma take_commands_all:
  assumes "run_commands (re_simulation env) (map sd_command (rr_pending room)) (rr_simulation room) = Some s"
    and "\<forall>x \<in> set (rr_pending room). sd_target x \<le> number" "length (rr_pending room) \<le> limit"
  shows "\<exists>room'. take_commands env number limit acc room = (acc @ map sd_command (rr_pending room), room') \<and>
    rr_pending room' = [] \<and> rr_simulation room' = s \<and> rr_queue room' = rr_queue room \<and>
    rr_sequences room' = rr_sequences room \<and> rr_order room' = rr_order room \<and>
    rr_current room' = rr_current room \<and> room_settings room' = room_settings room \<and>
    rr_initialized room' = rr_initialized room"
  using assms
proof (induction "rr_pending room" arbitrary: room limit acc)
  case Nil
  then show ?case by (cases limit) auto
next
  case (Cons x xs)
  obtain k where limit: "limit = Suc k" using Cons.hyps(2) Cons.prems(3) by (cases limit) auto
  define c where "c = sd_command x"
  define room1 where "room1 = observe env (\<lambda>ops ob. ob_command ops ob number c) (room\<lparr>rr_pending := xs\<rparr>)"
  obtain u s1 where s1: "so_apply (re_simulation env) (rr_simulation room) c = (Inr u, s1)"
    "run_commands (re_simulation env) (map sd_command xs) s1 = Some s"
    using Cons.prems(1) Cons.hyps(2) [symmetric] by (auto simp: c_def split: prod.splits sum.splits)
  let ?room = "bump ct_applied_update (room1\<lparr>rr_simulation := s1\<rparr>)"
  have step: "take_commands env number limit acc room = take_commands env number k (acc @ [c]) ?room"
    using Cons.hyps(2) [symmetric] Cons.prems(2) s1(1) limit by (simp add: room1_def c_def not_less [symmetric] Let_def)
  have settings: "room_settings room1 = room_settings room"
    by (auto simp: room1_def room_settings_def observe_def bump_def split: option.splits prod.splits sum.splits)
  have same: "rr_pending room1 = xs" "rr_queue room1 = rr_queue room" "rr_sequences room1 = rr_sequences room"
    "rr_order room1 = rr_order room" "rr_current room1 = rr_current room" "rr_initialized room1 = rr_initialized room"
    by (auto simp: room1_def observe_def bump_def split: option.splits prod.splits sum.splits)
  obtain room' where "take_commands env number k (acc @ [c]) ?room = ((acc @ [c]) @ map sd_command xs, room')"
    "rr_pending room' = []" "rr_simulation room' = s" "rr_queue room' = rr_queue ?room"
    "rr_sequences room' = rr_sequences ?room" "rr_order room' = rr_order ?room"
    "rr_current room' = rr_current ?room" "room_settings room' = room_settings ?room"
    "rr_initialized room' = rr_initialized ?room"
    using Cons.hyps(1) [of ?room k "acc @ [c]"] same(1) s1(2) Cons.prems(2,3) Cons.hyps(2) [symmetric] limit
    by (auto simp: bump_def)
  then show ?case using step settings same Cons.hyps(2) [symmetric] by (auto simp: c_def bump_def)
qed

lemma capture_fits:
  assumes "state_fits (re_simulation env) (rc_max_snapshot_bytes (rr_config room)) (rr_simulation room) t"
  shows "\<exists>n h k. realtime_capture env room t = (Inr (n, h), room\<lparr>rr_counters := k\<rparr>)"
  using assms by (auto simp: state_fits_def realtime_capture_def realtime_encode_def bump_def)

lemma initialize_fits:
  assumes "rr_initialized room \<or>
    state_fits (re_simulation env) (rc_max_snapshot_bytes (rr_config room)) (rr_simulation room) (tick_at (rr_delta room) 0)"
  shows "\<exists>room'. realtime_initialize env room = (Inr (), room') \<and> rr_simulation room' = rr_simulation room \<and>
    rr_queue room' = rr_queue room \<and> rr_pending room' = rr_pending room \<and> rr_sequences room' = rr_sequences room \<and>
    rr_order room' = rr_order room \<and> rr_current room' = rr_current room \<and> room_settings room' = room_settings room \<and>
    rr_initialized room'"
  using capture_fits [of env room "tick_at (rr_delta room) 0"] assms
  by (auto simp: realtime_initialize_def realtime_tick_at)

lemma simulate_fits:
  assumes fits: "state_fits (re_simulation env) (rc_max_snapshot_bytes (rr_config room)) s (tick_at (rr_delta room) number)"
    and run: "run_tick (re_simulation env) (tick_at (rr_delta room) number) (map sd_command (rr_pending room)) (rr_simulation room) = Some s"
    and pending: "\<forall>x \<in> set (rr_pending room). sd_target x \<le> number"
      "length (rr_pending room) \<le> rc_max_commands_per_tick (rr_config room)"
  shows "\<exists>n h room'. simulate_tick env number room = (Inr (n, h), room') \<and> rr_simulation room' = s \<and>
    rr_queue room' = rr_queue room \<and> rr_pending room' = [] \<and> rr_sequences room' = rr_sequences room \<and>
    rr_order room' = rr_order room \<and> rr_current room' = number \<and> room_settings room' = room_settings room \<and>
    rr_initialized room' = rr_initialized room"
proof -
  let ?t = "realtime_tick room number"
  obtain s1 u where s1: "run_commands (re_simulation env) (map sd_command (rr_pending room)) (rr_simulation room) = Some s1"
    "so_step (re_simulation env) s1 ?t = (Inr u, s)"
    using run by (auto simp: run_tick_def realtime_tick_at split: option.splits prod.splits sum.splits)
  obtain room1 where room1: "take_commands env number (rc_max_commands_per_tick (rr_config room)) [] room =
      ([] @ map sd_command (rr_pending room), room1)" "rr_pending room1 = []" "rr_simulation room1 = s1"
    "rr_queue room1 = rr_queue room" "rr_sequences room1 = rr_sequences room" "rr_order room1 = rr_order room"
    "room_settings room1 = room_settings room" "rr_initialized room1 = rr_initialized room"
    using take_commands_all [OF s1(1) pending] by blast
  define room2 where "room2 = observe env (\<lambda>ops ob. ob_tick ops ob ?t) (room1\<lparr>rr_simulation := s\<rparr>)"
  have room2: "rr_pending room2 = []" "rr_simulation room2 = s" "rr_queue room2 = rr_queue room"
    "rr_sequences room2 = rr_sequences room" "rr_order room2 = rr_order room" "room_settings room2 = room_settings room"
    "rr_initialized room2 = rr_initialized room"
    using room1 by (auto simp: room2_def observe_def bump_def room_settings_def split: option.splits prod.splits sum.splits)
  then have "rr_config room2 = rr_config room" by (simp add: room_settings_def)
  then obtain n h k where "realtime_capture env room2 ?t = (Inr (n, h), room2\<lparr>rr_counters := k\<rparr>)"
    using capture_fits [of env room2 ?t] fits room2(2) by (auto simp: realtime_tick_at)
  then show ?thesis
    using room1(1,3) s1(2) room2 by (simp add: simulate_tick_def Let_def room2_def [symmetric])
qed

lemma publish_finalize_same:
  "rr_simulation (finalize_tick m (publish_tick env n sn h room)) = rr_simulation room"
  "rr_queue (finalize_tick m (publish_tick env n sn h room)) = rr_queue room"
  "rr_pending (finalize_tick m (publish_tick env n sn h room)) = rr_pending room"
  "rr_sequences (finalize_tick m (publish_tick env n sn h room)) = rr_sequences room"
  "rr_order (finalize_tick m (publish_tick env n sn h room)) = rr_order room"
  "rr_current (finalize_tick m (publish_tick env n sn h room)) = rr_current room"
  "room_settings (finalize_tick m (publish_tick env n sn h room)) = room_settings room"
  "rr_initialized (finalize_tick m (publish_tick env n sn h room)) = rr_initialized room"
proof -
  have "rr_order (publish_tick env n sn h room) = rr_order room"
    by (rule publish_tick_proj [where f = rr_order])
      (auto simp: observe_def bump_def split: option.splits prod.splits sum.splits)
  moreover have "room_settings (publish_tick env n sn h room) = room_settings room"
    by (rule publish_tick_proj [where f = room_settings])
      (auto simp: observe_def bump_def room_settings_def split: option.splits prod.splits sum.splits)
  ultimately show
    "rr_simulation (finalize_tick m (publish_tick env n sn h room)) = rr_simulation room"
    "rr_queue (finalize_tick m (publish_tick env n sn h room)) = rr_queue room"
    "rr_pending (finalize_tick m (publish_tick env n sn h room)) = rr_pending room"
    "rr_sequences (finalize_tick m (publish_tick env n sn h room)) = rr_sequences room"
    "rr_order (finalize_tick m (publish_tick env n sn h room)) = rr_order room"
    "rr_current (finalize_tick m (publish_tick env n sn h room)) = rr_current room"
    "room_settings (finalize_tick m (publish_tick env n sn h room)) = room_settings room"
    "rr_initialized (finalize_tick m (publish_tick env n sn h room)) = rr_initialized room"
    by (simp_all add: finalize_tick_def Let_def bump_def room_settings_def)
qed

text \<open>The commands of the next tick are in the channel: the tick applies them, in their order.\<close>

lemma advance_replays:
  assumes idle: "\<not> rr_running room" "rr_pending room = []"
    and queue: "rr_queue room = map (\<lambda>c. \<lparr>sb_target = tick, sb_command = c\<rparr>) cs"
    and tick: "tick = rr_current room + 1" "tick \<noteq> 0"
    and fresh: "ascending_commands (cs @ later)" "fresh_commands (rr_sequences room) (cs @ later)"
    and limits: "length cs \<le> rc_max_pending_commands (rr_config room)"
      "length cs \<le> rc_max_commands_per_tick (rr_config room)" "unat (rr_order room) + length cs < 2 ^ 64"
    and init: "rr_initialized room \<or>
      state_fits (re_simulation env) (rc_max_snapshot_bytes (rr_config room)) (rr_simulation room) (tick_at (rr_delta room) 0)"
    and fits: "state_fits (re_simulation env) (rc_max_snapshot_bytes (rr_config room)) s (tick_at (rr_delta room) tick)"
    and run: "run_tick (re_simulation env) (tick_at (rr_delta room) tick) cs (rr_simulation room) = Some s"
  shows "\<exists>room'. realtime_advance env nanos room = (Inr (), room') \<and> rr_simulation room' = s \<and>
    rr_queue room' = [] \<and> rr_pending room' = [] \<and> fresh_commands (rr_sequences room') later \<and>
    unat (rr_order room') = unat (rr_order room) + length cs \<and> rr_current room' = tick \<and>
    room_settings room' = room_settings room \<and> rr_initialized room'"
proof -
  obtain room1 where start: "realtime_initialize env room = (Inr (), room1)"
    and room1: "rr_simulation room1 = rr_simulation room" "rr_queue room1 = rr_queue room"
      "rr_pending room1 = rr_pending room" "rr_sequences room1 = rr_sequences room" "rr_order room1 = rr_order room"
      "rr_current room1 = rr_current room" "room_settings room1 = room_settings room" "rr_initialized room1"
    using initialize_fits [OF init] by blast
  have "unat tick = Suc (unat (rr_current room))"
    using unatSuc [of "rr_current room"] tick by (simp add: add.commute)
  then have less: "rr_current room < tick" by (simp add: word_less_nat_alt)
  have config1: "rr_config room1 = rr_config room" "rr_delta room1 = rr_delta room"
    using room1(7) by (simp_all add: room_settings_def)
  obtain room2 where drain: "realtime_drain room1 = (None, room2)"
    and room2: "map sd_command (rr_pending room2) = cs" "\<forall>x \<in> set (rr_pending room2). sd_target x = tick"
      "fresh_commands (rr_sequences room2) later" "unat (rr_order room2) = unat (rr_order room) + length cs"
      "rr_simulation room2 = rr_simulation room" "rr_queue room2 = []" "rr_current room2 = rr_current room"
      "room_settings room2 = room_settings room" "rr_initialized room2"
    using drain_fresh [of cs later "room1\<lparr>rr_queue := []\<rparr>" tick None] room1 config1 fresh less limits idle queue
    by (auto simp: realtime_drain_def)
  have config2: "rr_config room2 = rr_config room" "rr_delta room2 = rr_delta room"
    using room2(8) by (simp_all add: room_settings_def)
  have "length (rr_pending room2) = length cs" using room2(1) by (metis length_map)
  then obtain n h room3 where sim: "simulate_tick env tick room2 = (Inr (n, h), room3)"
    and room3: "rr_simulation room3 = s" "rr_queue room3 = []" "rr_pending room3 = []"
      "rr_sequences room3 = rr_sequences room2" "rr_order room3 = rr_order room2" "rr_current room3 = tick"
      "room_settings room3 = room_settings room2" "rr_initialized room3"
    using simulate_fits [of env room2 s tick] fits run room2 config2 limits(2) by auto
  have "realtime_advance_inner env room = (Inr (), finalize_tick tick (publish_tick env tick n h room3))"
    using start drain sim room2(7) tick by (simp add: realtime_advance_inner_def Let_def)
  then show ?thesis
    using idle(1) room3 room2 by (simp add: realtime_advance_def realtime_advance_one_def Let_def publish_finalize_same)
qed

subsection \<open>Recordings\<close>

text \<open>A recording has the commands that every tick applied and for some of them the encoded state.\<close>

type_synonym 'c tick_recording = "'c command list \<times> bytes option"

fun log_records :: "(bytes \<Rightarrow> 'h) \<Rightarrow> nat \<Rightarrow> 'c tick_recording list \<Rightarrow> ('c, 'h) replay_record list" where
  "log_records digest n [] = []"
| "log_records digest n ((cs, checkpoint) # log) =
     map (command_record (of_nat n)) cs @ RecTick (of_nat n) #
     (case checkpoint of None \<Rightarrow> [] | Some b \<Rightarrow> [RecCheckpoint (of_nat n) b (digest b)]) @
     log_records digest (Suc n) log"

definition canonical_bytes :: "('s, 'c, 'n) simulation_ops \<Rightarrow> 's \<Rightarrow> tick \<Rightarrow> bytes option" where
  "canonical_bytes ops s t =
     (case so_snapshot ops s t of
        Inl _ \<Rightarrow> None
      | Inr snapshot \<Rightarrow> (case so_encode ops s snapshot of Inl _ \<Rightarrow> None | Inr b \<Rightarrow> Some b))"

text \<open>The recorded states are the ones that the commands reach.\<close>

definition checkpoints_true ::
    "('s, 'c, 'n) simulation_ops \<Rightarrow> duration \<Rightarrow> 'c tick_recording list \<Rightarrow> 's \<Rightarrow> bool" where
  "checkpoints_true ops delta log s0 \<longleftrightarrow>
     (\<forall>k < length log. \<forall>b. snd (log ! k) = Some b \<longrightarrow>
        (\<exists>s. state_after ops delta (map fst log) s0 (Suc k) = Some s \<and>
          canonical_bytes ops s (tick_at delta (of_nat (Suc k))) = Some b))"

text \<open>The commands run from this state, and all the states they reach can be encoded.\<close>

fun faithful_recording ::
    "('s, 'c, 'n) simulation_ops \<Rightarrow> usize \<Rightarrow> duration \<Rightarrow> nat \<Rightarrow> 'c tick_recording list \<Rightarrow> 's \<Rightarrow> bool" where
  "faithful_recording ops limit delta n [] s = True"
| "faithful_recording ops limit delta n ((cs, checkpoint) # log) s =
     (case run_tick ops (tick_at delta (of_nat n)) cs s of
        None \<Rightarrow> False
      | Some s' \<Rightarrow>
          state_fits ops limit s' (tick_at delta (of_nat n)) \<and>
          (checkpoint = None \<or> checkpoint = canonical_bytes ops s' (tick_at delta (of_nat n))) \<and>
          faithful_recording ops limit delta (Suc n) log s')"

lemma faithful_run:
  assumes "run_log ops delta n (map fst log) s = Some s'"
    and "\<And>k s'. k < length log \<Longrightarrow> run_log ops delta n (take (Suc k) (map fst log)) s = Some s' \<Longrightarrow>
      state_fits ops limit s' (tick_at delta (of_nat (n + k)))"
    and "\<And>k b. k < length log \<Longrightarrow> snd (log ! k) = Some b \<Longrightarrow>
      \<exists>s'. run_log ops delta n (take (Suc k) (map fst log)) s = Some s' \<and>
        canonical_bytes ops s' (tick_at delta (of_nat (n + k))) = Some b"
  shows "faithful_recording ops limit delta n log s"
  using assms
proof (induction log arbitrary: n s)
  case (Cons x log)
  obtain cs checkpoint where x: "x = (cs, checkpoint)" by fastforce
  obtain s1 where s1: "run_tick ops (tick_at delta (of_nat n)) cs s = Some s1"
    "run_log ops delta (Suc n) (map fst log) s1 = Some s'"
    using Cons.prems(1) x by (auto split: option.splits)
  have "state_fits ops limit s1 (tick_at delta (of_nat n))" using Cons.prems(2) [of 0 s1] s1(1) x by simp
  moreover have "checkpoint = None \<or> checkpoint = canonical_bytes ops s1 (tick_at delta (of_nat n))"
    using Cons.prems(3) [of 0] s1(1) x by (cases checkpoint) auto
  moreover have "faithful_recording ops limit delta (Suc n) log s1"
  proof (rule Cons.IH [OF s1(2)])
    fix k t assume "k < length log" "run_log ops delta (Suc n) (take (Suc k) (map fst log)) s1 = Some t"
    then show "state_fits ops limit t (tick_at delta (of_nat (Suc n + k)))"
      using Cons.prems(2) [of "Suc k" t] s1(1) x by simp
  next
    fix k b assume "k < length log" "snd (log ! k) = Some b"
    then show "\<exists>t. run_log ops delta (Suc n) (take (Suc k) (map fst log)) s1 = Some t \<and>
        canonical_bytes ops t (tick_at delta (of_nat (Suc n + k))) = Some b"
      using Cons.prems(3) [of "Suc k" b] s1(1) x by simp
  qed
  ultimately show ?case using s1(1) x by simp
qed simp

definition recording_fits :: "realtime_config \<Rightarrow> 'c tick_recording list \<Rightarrow> bool" where
  "recording_fits config log \<longleftrightarrow>
     (\<forall>(cs, checkpoint) \<in> set log. length cs \<le> rc_command_capacity config \<and>
        length cs \<le> rc_max_pending_commands config \<and> length cs \<le> rc_max_commands_per_tick config)"

definition recorded_commands :: "'c tick_recording list \<Rightarrow> 'c command list" where
  "recorded_commands log = concat (map fst log)"

lemma recorded_commands_simps [simp]:
  "recorded_commands [] = []" "recorded_commands (x # log) = fst x @ recorded_commands log"
  by (simp_all add: recorded_commands_def)

lemma play_checkpoint:
  assumes fits: "state_fits (re_simulation env) (rc_max_snapshot_bytes (rr_config room)) (rr_simulation room)
      (tick_at (rr_delta room) (rr_current room))"
    and "b = canonical_bytes (re_simulation env) (rr_simulation room) (tick_at (rr_delta room) (rr_current room))"
      "b = Some bs"
  shows "play_record (room_driver env nanos) digest (RecCheckpoint (rr_current room) bs (digest bs)) room stats =
    Some (Inr (stats\<lparr>rps_checkpoints_verified := rps_checkpoints_verified stats + 1\<rparr>), room)"
proof -
  obtain n where n: "so_snapshot (re_simulation env) (rr_simulation room) (tick_at (rr_delta room) (rr_current room)) = Inr n"
    "so_encode (re_simulation env) (rr_simulation room) n = Inr bs"
    using assms(2,3) by (auto simp: canonical_bytes_def split: sum.splits)
  then have "length bs \<le> rc_max_snapshot_bytes (rr_config room)"
    using fits unfolding state_fits_def by (metis sum.inject(2))
  with n show ?thesis
    by (simp add: room_driver_def realtime_canonical_state_def realtime_encode_def realtime_tick_at state_hash_matches_def)
qed

lemma recording_plays:
  assumes "faithful_recording (re_simulation env) (rc_max_snapshot_bytes (rr_config room)) (rr_delta room) n log (rr_simulation room)"
    and "recording_fits (rr_config room) log" "commands_valid (recorded_commands log)"
    and "ascending_commands (recorded_commands log)" "fresh_commands (rr_sequences room) (recorded_commands log)"
    and "\<not> rr_running room" "rr_queue room = []" "rr_pending room = []"
    and "rr_current room + 1 = of_nat n" "n + length log \<le> 2 ^ 64" "n \<noteq> 0"
    and "unat (rr_order room) + length (recorded_commands log) < 2 ^ 64"
    and "rc_max_future_input_ticks (rr_config room) \<noteq> 0"
    and "rr_initialized room \<or>
      state_fits (re_simulation env) (rc_max_snapshot_bytes (rr_config room)) (rr_simulation room) (tick_at (rr_delta room) 0)"
  shows "\<exists>room'. play_all (room_driver env nanos) digest (log_records digest n log) room stats =
      Some (Inr \<lparr>rps_commands_submitted = rps_commands_submitted stats + of_nat (length (recorded_commands log)),
        rps_ticks_advanced = rps_ticks_advanced stats + of_nat (length log),
        rps_checkpoints_verified = rps_checkpoints_verified stats + of_nat (length (filter (\<lambda>x. snd x \<noteq> None) log))\<rparr>,
        room') \<and>
    run_log (re_simulation env) (rr_delta room) n (map fst log) (rr_simulation room) = Some (rr_simulation room') \<and>
    rr_current room' = rr_current room + of_nat (length log)"
  using assms
proof (induction log arbitrary: n room stats)
  case (Cons x log)
  obtain cs checkpoint where x: "x = (cs, checkpoint)" by fastforce
  let ?ops = "re_simulation env" and ?tick = "of_nat n :: u64" and ?D = "room_driver env nanos"
  obtain s where s: "run_tick ?ops (tick_at (rr_delta room) ?tick) cs (rr_simulation room) = Some s"
    "checkpoint = None \<or> checkpoint = canonical_bytes ?ops s (tick_at (rr_delta room) ?tick)"
    "faithful_recording ?ops (rc_max_snapshot_bytes (rr_config room)) (rr_delta room) (Suc n) log s"
    "state_fits ?ops (rc_max_snapshot_bytes (rr_config room)) s (tick_at (rr_delta room) ?tick)"
    using Cons.prems(1) x by (auto split: option.splits)
  have nz: "?tick \<noteq> 0"
  proof
    assume "?tick = 0"
    then have "unat ?tick = 0" by simp
    then show False using Cons.prems(10,11) by (simp add: unat_of_nat)
  qed
  have fits: "length cs \<le> rc_command_capacity (rr_config room)" "length cs \<le> rc_max_pending_commands (rr_config room)"
    "length cs \<le> rc_max_commands_per_tick (rr_config room)" "recording_fits (rr_config room) log"
    using Cons.prems(2) x by (auto simp: recording_fits_def)
  let ?s1 = "stats\<lparr>rps_commands_submitted := rps_commands_submitted stats + of_nat (length cs)\<rparr>"
  obtain k where sub: "play_all ?D digest (map (command_record ?tick) cs) room stats =
      Some (Inr ?s1, room\<lparr>rr_queue := map (\<lambda>c. \<lparr>sb_target = ?tick, sb_command = c\<rparr>) cs, rr_counters := k\<rparr>)"
    (is "_ = Some (_, ?room1)")
    using submit_all [of cs ?tick room env nanos digest stats] Cons.prems(3,7,9,13) x nz fits(1)
    by (auto simp: commands_valid_def)
  obtain room2 where adv: "realtime_advance env nanos ?room1 = (Inr (), room2)"
    and room2: "rr_simulation room2 = s" "rr_queue room2 = []" "rr_pending room2 = []"
      "fresh_commands (rr_sequences room2) (recorded_commands log)"
      "unat (rr_order room2) = unat (rr_order room) + length cs" "rr_current room2 = ?tick"
      "room_settings room2 = room_settings room" "rr_initialized room2"
    using advance_replays [of ?room1 ?tick cs "recorded_commands log" env s nanos] Cons.prems(4-9,12,14) x nz fits s(1,4)
    by auto
  have same: "rr_config room2 = rr_config room" "rr_delta room2 = rr_delta room" "rr_running room2 = rr_running room"
    using room2(7) by (simp_all add: room_settings_def)
  let ?s2 = "?s1\<lparr>rps_ticks_advanced := rps_ticks_advanced stats + 1\<rparr>"
  have tick: "play_record ?D digest (RecTick ?tick) ?room1 ?s1 = Some (Inr ?s2, room2)"
    using adv room2(6) Cons.prems(9) by (simp add: room_driver_def)
  let ?s3 = "?s2\<lparr>rps_checkpoints_verified := rps_checkpoints_verified stats + (if checkpoint = None then 0 else 1)\<rparr>"
  have check: "play_all ?D digest (case checkpoint of None \<Rightarrow> [] | Some b \<Rightarrow> [RecCheckpoint ?tick b (digest b)]) room2 ?s2 =
      Some (Inr ?s3, room2)"
    using play_checkpoint [of env room2 checkpoint _ nanos digest ?s2] s(4) same room2(1,6) s(2)
    by (cases checkpoint) (auto simp del: play_record.simps)
  obtain room' where rest: "play_all ?D digest (log_records digest (Suc n) log) room2 ?s3 =
      Some (Inr \<lparr>rps_commands_submitted = rps_commands_submitted ?s3 + of_nat (length (recorded_commands log)),
        rps_ticks_advanced = rps_ticks_advanced ?s3 + of_nat (length log),
        rps_checkpoints_verified = rps_checkpoints_verified ?s3 + of_nat (length (filter (\<lambda>x. snd x \<noteq> None) log))\<rparr>,
        room')"
    "run_log ?ops (rr_delta room) (Suc n) (map fst log) s = Some (rr_simulation room')"
    "rr_current room' = ?tick + of_nat (length log)"
    using Cons.IH [of room2 "Suc n" ?s3] s(3) room2 same fits(4) Cons.prems x
    by (auto simp: commands_valid_def ascending_commands_def sorted_wrt_append)
  have "play_all ?D digest (log_records digest n (x # log)) room stats =
      play_all ?D digest (log_records digest (Suc n) log) room2 ?s3"
    using play_all_append [OF sub] tick play_all_append [OF check] x by simp
  then show ?case using rest s(1) x Cons.prems(9) [symmetric] by (simp add: add.assoc)
qed simp

text \<open>No tick of a room has more commands than the limit.\<close>

lemma accepted_length: "length (accepted ops cs s) \<le> length cs"
  by (induction cs arbitrary: s) (auto split: sum.split prod.split intro: le_SucI)

lemma ref_log_limit:
  fixes ops :: "('s, 'c, 'n) simulation_ops"
  shows "\<forall>cs \<in> set (rf_log (ref_play ops config delta s0 events)). length cs \<le> rc_max_commands_per_tick config"
proof -
  let ?ok = "\<lambda>ref. \<forall>cs \<in> set (rf_log ref). length cs \<le> rc_max_commands_per_tick config"
  have one: "?ok (ref_receive config fin x ref)" if "?ok ref" for fin x and ref :: "'c reference"
    using that by (auto simp: ref_receive_def Let_def dest!: set_update_subset_insert [THEN subsetD])
  have receive: "?ok (fold (ref_receive config fin) xs ref)" if "?ok ref" for fin xs and ref :: "'c reference"
    using that
  proof (induction xs arbitrary: ref)
    case (Cons x xs)
    from Cons.IH [OF one [OF Cons.prems, of fin x]] show ?case by simp
  qed simp
  have due: "length (accepted ops (map snd (ref_due config ref)) s) \<le> rc_max_commands_per_tick config"
    for s and ref :: "'c reference"
    using accepted_length [of ops "map snd (ref_due config ref)" s] by (simp add: ref_due_def)
  have event: "?ok (ref_event ops config delta s0 e ref)" if "?ok ref" for e ref
  proof (cases e)
    case (Advance n)
    have "?ok (fold (ref_receive config fin) xs (ref\<lparr>rf_inbox := []\<rparr>))" for fin xs
      using receive [of "ref\<lparr>rf_inbox := []\<rparr>"] that by simp
    with Advance due show ?thesis by (simp add: ref_tick_def split: option.split)
  qed (use that in simp)
  have "?ok (fold (ref_event ops config delta s0) events ref)" if "?ok ref" for ref
    using that
  proof (induction events arbitrary: ref)
    case (Cons e events)
    from Cons.IH [OF event [OF Cons.prems, of e]] show ?case by simp
  qed simp
  from this [of ref_start] show ?thesis by (simp add: ref_play_def ref_start_def)
qed

text \<open>C4. A replay reproduces the recorded room. A room is played in any way, with late commands and rollbacks,
without a failing tick; a recording has, tick by tick, the commands the room has applied, and for some ticks the
encoded state after them. When the recording is read back and played into a fresh room with the same id,
configuration and initial state, the replay accepts every command, advances through every tick and
confirms every recorded state, and the fresh room ends at the tick and in the state of the recorded one.
The recording must respect the limits of the room: the player, region and sequence number of its commands are valid, no tick has more commands
than the channel and the queue of pending commands hold, the commands of a player are
in ascending order of their sequence numbers, and there are fewer than \<open>2 ^ 64\<close> events, ticks and commands.\<close>

theorem replay_reproduces_recording:
  assumes "lawful_simulation (re_simulation env)" "re_simulation env' = re_simulation env"
    and "realtime_room_new delta_of i config s0 ob pu = Inr start" "room_play env events start = Some recorded"
    and "length events < 2 ^ 64" "\<forall>x \<in> sent_by events. sb_target x \<noteq> 0"
    and "map fst log = rf_log (ref_play (re_simulation env) config (delta_of (rc_tick_rate config)) s0 events)"
    and "checkpoints_true (re_simulation env) (delta_of (rc_tick_rate config)) log s0"
    and "realtime_room_new delta_of i config s0 ob' pu' = Inr room"
    and "rh_room_id (ry_header y) = i" "rh_tick_rate (ry_header y) = rc_tick_rate config"
      "rh_input_delay_ticks (ry_header y) = rc_input_delay_ticks config"
      "rh_rollback_window_ticks (ry_header y) = rc_rollback_window_ticks config"
    and "replay_read_all R digest J y = Some (log_records digest 1 log, None)"
    and "\<forall>cs \<in> fst ` set log. length cs \<le> rc_command_capacity config \<and> length cs \<le> rc_max_pending_commands config"
    and "commands_valid (recorded_commands log)" "ascending_commands (recorded_commands log)"
    and "length log + length (recorded_commands log) < 2 ^ 64"
  shows "\<exists>y' room'. play_replay R digest J (room_driver env' nanos) y room =
      Some (Inr \<lparr>rps_commands_submitted = of_nat (length (recorded_commands log)),
        rps_ticks_advanced = of_nat (length log),
        rps_checkpoints_verified = of_nat (length (filter (\<lambda>x. snd x \<noteq> None) log))\<rparr>, y', room') \<and>
    rr_simulation room' = rr_simulation recorded \<and> rr_current room' = rr_current recorded"
proof -
  let ?ops = "re_simulation env" and ?delta = "delta_of (rc_tick_rate config)" and ?limit = "rc_max_snapshot_bytes config"
  have room: "rr_id room = i" "rr_config room = config" "rr_simulation room = s0" "rr_queue room = []"
    "rr_pending room = []" "rr_sequences room = []" "rr_order room = 0" "rr_current room = 0" "\<not> rr_running room"
    "rc_max_future_input_ticks config \<noteq> 0" "rr_delta room = ?delta"
    using assms(9) by (auto simp: realtime_room_new_def realtime_config_validate_def split: sum.splits if_splits)
  note played = played_room [OF assms(1,3-6), folded assms(7)]
  have state: "run_log ?ops ?delta 1 (map fst log) s0 = Some (rr_simulation recorded)"
    and len: "length log = unat (rr_current recorded)"
    using played(1,4) by (auto simp: room_inv_def)
  have fits: "states_fit ?ops ?limit ?delta s0 (map fst log) (Suc (length log))" if "log \<noteq> []"
    using played(1,3,4) that by (auto simp: room_inv_def)
  have after: "state_fits ?ops ?limit s (tick_at ?delta (of_nat k))"
    if "k \<le> length log" "log \<noteq> []" "state_after ?ops ?delta (map fst log) s0 k = Some s" for k s
    using fits that by (simp add: states_fit_def)
  have faithful: "faithful_recording ?ops ?limit ?delta 1 log s0"
  proof (rule faithful_run [OF state])
    fix k s assume "k < length log" "run_log ?ops ?delta 1 (take (Suc k) (map fst log)) s0 = Some s"
    then show "state_fits ?ops ?limit s (tick_at ?delta (of_nat (1 + k)))"
      using after [of "Suc k" s] by (cases log) (simp_all add: state_after_def)
  next
    fix k b assume "k < length log" "snd (log ! k) = Some b"
    then show "\<exists>s. run_log ?ops ?delta 1 (take (Suc k) (map fst log)) s0 = Some s \<and>
        canonical_bytes ?ops s (tick_at ?delta (of_nat (1 + k))) = Some b"
      using assms(8) by (simp add: checkpoints_true_def state_after_def)
  qed
  have limits: "recording_fits config log"
  proof -
    have "length cs \<le> rc_max_commands_per_tick config" if "cs \<in> fst ` set log" for cs
      using ref_log_limit [of ?ops config ?delta s0 events] that assms(7) by (metis list.set_map)
    with assms(15) show ?thesis by (fastforce simp: recording_fits_def)
  qed
  have fresh: "fresh_commands (rr_sequences room) (recorded_commands log)"
    using assms(16) room(6) by (auto simp: fresh_commands_def commands_valid_def word_neq_0_conv)
  have "\<exists>room'. play_all (room_driver env' nanos) digest (log_records digest 1 log) room replay_stats_default =
      Some (Inr \<lparr>rps_commands_submitted = of_nat (length (recorded_commands log)),
        rps_ticks_advanced = of_nat (length log),
        rps_checkpoints_verified = of_nat (length (filter (\<lambda>x. snd x \<noteq> None) log))\<rparr>, room') \<and>
    rr_simulation room' = rr_simulation recorded \<and> rr_current room' = of_nat (length log)"
  proof (cases "log = []")
    case True
    then show ?thesis using state room by (simp add: replay_stats_default_def)
  next
    case False
    have "state_fits ?ops ?limit s0 (tick_at ?delta 0)"
      using after [of 0 s0] False by (simp add: state_after_def)
    then show ?thesis
      using recording_plays [of env' room 1 log nanos digest replay_stats_default] faithful limits fresh room assms(2,16-18) state
      by (auto simp: replay_stats_default_def)
  qed
  then obtain room' where all: "play_all (room_driver env' nanos) digest (log_records digest 1 log) room replay_stats_default =
      Some (Inr \<lparr>rps_commands_submitted = of_nat (length (recorded_commands log)),
        rps_ticks_advanced = of_nat (length log),
        rps_checkpoints_verified = of_nat (length (filter (\<lambda>x. snd x \<noteq> None) log))\<rparr>, room')"
    and same: "rr_simulation room' = rr_simulation recorded" "rr_current room' = of_nat (length log)" by blast
  from play_loop_records [OF assms(14) all] obtain y' where
    "play_loop R digest J (room_driver env' nanos) y room replay_stats_default =
      Some (Inr \<lparr>rps_commands_submitted = of_nat (length (recorded_commands log)),
        rps_ticks_advanced = of_nat (length log),
        rps_checkpoints_verified = of_nat (length (filter (\<lambda>x. snd x \<noteq> None) log))\<rparr>, y', room')" by auto
  with same len show ?thesis
    using room assms(10-13) by (auto simp: play_replay_def room_driver_def Let_def)
qed

text \<open>C40. The replay ends. Whatever the bytes are, on a source that has an end and with a driver that
takes every command without waiting, the player returns: with the statistics, or
with the error of the reader, of the driver or of a record that does not fit.\<close>

theorem play_replay_returns:
  assumes "lawful_source R remaining" "\<And>d t c. dv_submit_at D d t c \<noteq> None"
  shows "\<exists>result y' d'. play_replay R digest J D y d = Some (result, y', d')"
  using lawful_source.play_loop_returns [OF assms, of digest J y d replay_stats_default]
  by (auto simp: play_replay_def Let_def)

subsection \<open>Examples\<close>

text \<open>A command for tick 1 arrives after it: the room rolls back and applies it there.\<close>

definition replay_demo_events :: "int room_event list" where
  "replay_demo_events = [Advance 0, Send 1 (adder_command 1 2), Advance 0]"

definition replay_demo_log :: "int tick_recording list" where
  "replay_demo_log = [([adder_command 1 2], Some (le_bytes 3)), ([], None)]"

definition replay_demo_json :: "(int, bytes) replay_record serde_json" where
  "replay_demo_json =
     \<lparr>sj_to_vec = (\<lambda>r. Inr [case r of RecCommand _ _ _ _ \<Rightarrow> 0 | RecTick t \<Rightarrow> if t = 1 then 1 else 3
        | RecCheckpoint _ _ _ \<Rightarrow> 2]),
      sj_from_slice = (\<lambda>b. Inr (log_records id 1 replay_demo_log ! unat (hd b)))\<rparr>"

definition replay_demo_reader :: "(bytes, unit) replay_reader" where
  "replay_demo_reader =
     \<lparr>ry_input = concat (map replay_block [[0], [1], [2], [3]]),
      ry_header = \<lparr>rh_room_id = ''r'', rh_tick_rate = 30, rh_input_delay_ticks = 0,
        rh_rollback_window_ticks = 3, rh_created_unix_ms = 1, rh_metadata = ()\<rparr>,
      ry_last = 0\<rparr>"

lemma replay_demo_records:
  "log_records id 1 replay_demo_log =
     [command_record 1 (adder_command 1 2), RecTick 1, RecCheckpoint 1 (le_bytes 3) (le_bytes 3), RecTick 2]"
  by (simp add: replay_demo_log_def)

lemma replay_demo_reads:
  "replay_read_all slice_source id replay_demo_json replay_demo_reader = Some (log_records id 1 replay_demo_log, None)"
proof -
  have ok: "block_ok [b]" for b by (simp add: block_ok_def REPLAY_MAX_def)
  have enc: "encodes id replay_demo_json (ry_last replay_demo_reader) (log_records id 1 replay_demo_log) [[0], [1], [2], [3]]"
    unfolding replay_demo_records
    by (simp add: replay_demo_reader_def replay_record_check_def state_hash_matches_def
        command_record_def replay_demo_json_def ok)
  have inv: "\<forall>r \<in> set (log_records id 1 replay_demo_log). json_inverse replay_demo_json r"
    unfolding json_inverse_def replay_demo_json_def replay_demo_records by (simp add: command_record_def)
  have bytes: "id (ry_input replay_demo_reader) = concat (map replay_block [[0], [1], [2], [3]]) @ []"
    by (simp add: replay_demo_reader_def)
  show ?thesis using slice.read_records_then [OF enc inv bytes slice.read_end] by simp
qed

lemma replay_demo_recorded:
  "map_option rr_simulation (room_play adder_env replay_demo_events (adder_room (adder_config 3))) = Some 4"
  by code_simp

theorem replay_reproduces_recording_witness:
  "\<exists>recorded y' room'. room_play adder_env replay_demo_events (adder_room (adder_config 3)) = Some recorded \<and>
    play_replay slice_source id replay_demo_json (room_driver adder_env 0) replay_demo_reader
      (adder_room (adder_config 3)) =
      Some (Inr \<lparr>rps_commands_submitted = 1, rps_ticks_advanced = 2, rps_checkpoints_verified = 1\<rparr>, y', room') \<and>
    rr_simulation room' = 4 \<and> rr_simulation recorded = 4"
proof -
  obtain recorded where recorded: "room_play adder_env replay_demo_events (adder_room (adder_config 3)) = Some recorded"
    "rr_simulation recorded = 4"
    using replay_demo_recorded by auto
  have law: "lawful_simulation (re_simulation adder_env)"
    using adder.lawful_simulation_axioms by (simp add: adder_env_def)
  have "\<exists>y' room'. play_replay slice_source id replay_demo_json (room_driver adder_env 0) replay_demo_reader
      (adder_room (adder_config 3)) =
      Some (Inr \<lparr>rps_commands_submitted = of_nat (length (recorded_commands replay_demo_log)),
        rps_ticks_advanced = of_nat (length replay_demo_log),
        rps_checkpoints_verified = of_nat (length (filter (\<lambda>x. snd x \<noteq> None) replay_demo_log))\<rparr>, y', room') \<and>
    rr_simulation room' = rr_simulation recorded \<and> rr_current room' = rr_current recorded"
  proof (rule replay_reproduces_recording [OF law refl adder_room_new recorded(1) _ _ _ _ adder_room_new _ _ _ _ replay_demo_reads])
    show "map fst replay_demo_log =
        rf_log (ref_play (re_simulation adder_env) (adder_config 3) 0 0 replay_demo_events)" by code_simp
    have "canonical_bytes adder 3 (tick_at 0 1) = Some (le_bytes 3)"
      "state_after adder 0 (map fst replay_demo_log) 0 1 = Some 3" by code_simp+
    then show "checkpoints_true (re_simulation adder_env) 0 replay_demo_log 0"
      by (auto simp: checkpoints_true_def adder_env_def replay_demo_log_def less_Suc_eq)
    show "commands_valid (recorded_commands replay_demo_log)" by code_simp
    show "ascending_commands (recorded_commands replay_demo_log)" by code_simp
  qed (auto simp: replay_demo_reader_def adder_config_def replay_demo_log_def replay_demo_events_def sent_by_def)
  then show ?thesis using recorded by (auto simp: replay_demo_log_def)
qed

definition idle_driver :: "(unit, int) replay_driver" where
  "idle_driver = \<lparr>dv_room_id = (\<lambda>_. ''r''), dv_current_tick = (\<lambda>_. 0), dv_tick_rate = (\<lambda>_. 30),
     dv_input_delay_ticks = (\<lambda>_. 0), dv_rollback_window_ticks = (\<lambda>_. 3),
     dv_submit_at = (\<lambda>d _ _. Some (Inr (), d)), dv_advance = (\<lambda>d. (Inr (), d)),
     dv_canonical_state = (\<lambda>_. Inr [])\<rparr>"

theorem play_replay_returns_witness:
  "\<exists>result y' d'. play_replay slice_source id replay_demo_json idle_driver replay_demo_reader () = Some (result, y', d')"
  by (rule play_replay_returns [OF slice.lawful_source_axioms]) (simp add: idle_driver_def)

text \<open>Two commands of a player, the first for the later tick. The room takes both, in a recording
of its ticks they are in the opposite order, and the replay drops the second one as a duplicate.\<close>

definition swapped_command :: "u64 \<Rightarrow> int \<Rightarrow> int command" where
  "swapped_command sequence n = (adder_command 1 n)\<lparr>cm_sequence := sequence\<rparr>"

lemma replay_drops_swapped_commands:
  "map_option (\<lambda>room. (rr_simulation room, rr_current room))
     (room_play adder_env [Send 2 (swapped_command 1 10), Send 1 (swapped_command 2 5), Advance 0, Advance 0]
       (adder_room (adder_config 0))) = Some (17, 2)"
  "map_option (\<lambda>(result, room). (result, rr_simulation room, rr_current room))
     (play_all (room_driver adder_env 0) id
       (log_records id 1 [([swapped_command 2 5], None), ([swapped_command 1 10], None)])
       (adder_room (adder_config 0)) replay_stats_default) =
     Some (Inr \<lparr>rps_commands_submitted = 2, rps_ticks_advanced = 2, rps_checkpoints_verified = 0\<rparr>, 7, 2)"
  by code_simp+

end
