(* ===== verification/Ownership.thy ===== *)
theory Ownership
  imports Core_Error Collections "HOL-Library.List_Lexorder" "HOL-Library.Char_ord"
begin

section \<open>Shards and their owners\<close>

text \<open>
  Model of \<open>crates/elura-core/src/ownership.rs\<close>: the shard of a player, the world that is
  preferred for a shard by rendezvous hashing, and the tables that say who owns what. A lock that a
  panicking writer poisoned is a flag of the table. A resolver of the directory is the function that its
  \<open>resolve\<close> computes.
\<close>

unbundle bit_operations_syntax

subsection \<open>Data\<close>

record assignment =
  asg_region_id :: u32
  asg_realm_id :: u32
  asg_shard_id :: u32
  asg_world_id :: string
  asg_epoch :: u64

type_synonym ownership_resolver = "u32 \<Rightarrow> u32 \<Rightarrow> u32 \<Rightarrow> core_error + assignment"

record ownership_directory =
  odr_resolvers :: "((u32 \<times> u32) \<times> ownership_resolver) list"
  odr_poisoned :: bool

record ownership_table =
  otb_count :: u32
  otb_owners :: "((u32 \<times> u32 \<times> u32) \<times> assignment) list"
  otb_poisoned :: bool

definition assignment_validate :: "assignment \<Rightarrow> u32 \<Rightarrow> core_error + unit" where
  "assignment_validate a n =
     (if n = 0 \<or> asg_region_id a = 0 \<or> asg_realm_id a = 0 \<or> n \<le> asg_shard_id a
         \<or> asg_world_id a = [] \<or> asg_epoch a = 0
      then Inl (InvalidConfig ''invalid shard assignment'') else Inr ())"

subsection \<open>Hashing\<close>

text \<open>The final mixing that \<open>shard_for\<close> and \<open>score\<close> share.\<close>

definition mix64 :: "u64 \<Rightarrow> u64" where
  "mix64 v =
     (let v = v XOR drop_bit 33 v; v = v * 0xff51afd7ed558ccd;
          v = v XOR drop_bit 33 v; v = v * 0xc4ceb9fe1a85ec53
      in v XOR drop_bit 33 v)"

definition shard_for :: "i64 \<Rightarrow> u32 \<Rightarrow> core_error + u32" where
  "shard_for player n =
     (if player \<le> 0 \<or> n = 0 then Inl (InvalidConfig ''invalid shard input'')
      else Inr (ucast (mix64 (of_int player) mod ucast n)))"

definition world_score :: "u32 \<Rightarrow> string \<Rightarrow> u64" where
  "world_score shard i =
     mix64 (foldl (\<lambda>h b. (h XOR ucast b) * 1099511628211) 14695981039346656037
       (string_bytes (decimal (unat shard)) @ [0] @ string_bytes i))"

fun preferred_loop ::
    "u32 \<Rightarrow> string list \<Rightarrow> string list \<Rightarrow> (string \<times> u64) option \<Rightarrow>
     core_error + (string \<times> u64) option" where
  "preferred_loop shard [] seen best = Inr best"
| "preferred_loop shard (i # worlds) seen best =
     (if i = [] \<or> i \<in> set seen then Inl (InvalidConfig ''invalid world membership'')
      else
        (let s = world_score shard i
         in preferred_loop shard worlds (i # seen)
              (if (case best of None \<Rightarrow> True | Some (old, t) \<Rightarrow> t < s \<or> s = t \<and> i < old)
               then Some (i, s) else best)))"

definition preferred_world :: "u32 \<Rightarrow> string list \<Rightarrow> core_error + string" where
  "preferred_world shard worlds =
     (if worlds = [] then Inl Unavailable
      else case preferred_loop shard worlds [] None of
        Inl e \<Rightarrow> Inl e
      | Inr None \<Rightarrow> Inl Unavailable
      | Inr (Some (i, _)) \<Rightarrow> Inr i)"

subsection \<open>Tables\<close>

fun ownership_directory_collect ::
    "((u32 \<times> u32) \<times> ownership_resolver) list \<Rightarrow> ((u32 \<times> u32) \<times> ownership_resolver) list \<Rightarrow>
     core_error + ((u32 \<times> u32) \<times> ownership_resolver) list" where
  "ownership_directory_collect [] result = Inr result"
| "ownership_directory_collect (((region, realm), resolver) # resolvers) result =
     (if region = 0 \<or> realm = 0 then Inl (InvalidConfig ''invalid ownership scope'')
      else if contains_key result (region, realm) then Inl (InvalidConfig ''duplicate ownership scope'')
      else ownership_directory_collect resolvers (hm_insert (region, realm) resolver result))"

definition ownership_directory_replace ::
    "ownership_directory \<Rightarrow> ((u32 \<times> u32) \<times> ownership_resolver) list \<Rightarrow>
     (core_error + unit) \<times> ownership_directory" where
  "ownership_directory_replace d resolvers =
     (case ownership_directory_collect resolvers [] of
        Inl e \<Rightarrow> (Inl e, d)
      | Inr result \<Rightarrow>
          if result = [] then (Inl (InvalidConfig ''ownership resolver directory cannot be empty''), d)
          else if odr_poisoned d then (Inl (Internal ''ownership directory poisoned''), d)
          else (Inr (), d\<lparr>odr_resolvers := result\<rparr>))"

definition ownership_directory_resolve :: "ownership_directory \<Rightarrow> ownership_resolver" where
  "ownership_directory_resolve d region realm shard =
     (if odr_poisoned d then Inl (Internal ''ownership directory poisoned'')
      else case map_of (odr_resolvers d) (region, realm) of
        None \<Rightarrow> Inl Unavailable
      | Some resolver \<Rightarrow> resolver region realm shard)"

definition ownership_table_new :: "u32 \<Rightarrow> core_error + ownership_table" where
  "ownership_table_new n =
     (if n = 0 then Inl (InvalidConfig ''zero shards'')
      else Inr \<lparr>otb_count = n, otb_owners = [], otb_poisoned = False\<rparr>)"

fun ownership_table_collect ::
    "u32 \<Rightarrow> assignment list \<Rightarrow> ((u32 \<times> u32 \<times> u32) \<times> assignment) list \<Rightarrow>
     core_error + ((u32 \<times> u32 \<times> u32) \<times> assignment) list" where
  "ownership_table_collect n [] result = Inr result"
| "ownership_table_collect n (a # values) result =
     (case assignment_validate a n of
        Inl e \<Rightarrow> Inl e
      | Inr _ \<Rightarrow>
          (let key = (asg_region_id a, asg_realm_id a, asg_shard_id a)
           in if contains_key result key then Inl (InvalidConfig ''duplicate shard'')
              else ownership_table_collect n values (hm_insert key a result)))"

definition ownership_table_replace ::
    "ownership_table \<Rightarrow> assignment list \<Rightarrow> (core_error + unit) \<times> ownership_table" where
  "ownership_table_replace t values =
     (case ownership_table_collect (otb_count t) values [] of
        Inl e \<Rightarrow> (Inl e, t)
      | Inr result \<Rightarrow>
          if otb_poisoned t then (Inl (Internal ''ownership poisoned''), t)
          else (Inr (), t\<lparr>otb_owners := result\<rparr>))"

definition ownership_table_snapshot :: "ownership_table \<Rightarrow> core_error + assignment list" where
  "ownership_table_snapshot t =
     (if otb_poisoned t then Inl (Internal ''ownership poisoned'') else Inr (map snd (otb_owners t)))"

definition ownership_table_resolve :: "ownership_table \<Rightarrow> ownership_resolver" where
  "ownership_table_resolve t region realm shard =
     (if region = 0 \<or> realm = 0 \<or> otb_count t \<le> shard then Inl (InvalidConfig ''shard range'')
      else if otb_poisoned t then Inl (Internal ''ownership poisoned'')
      else case map_of (otb_owners t) (region, realm, shard) of
        None \<Rightarrow> Inl Unavailable
      | Some a \<Rightarrow> Inr a)"

subsection \<open>The preferred world\<close>

definition world_members :: "string list \<Rightarrow> bool" where
  "world_members worlds \<longleftrightarrow> worlds \<noteq> [] \<and> [] \<notin> set worlds \<and> distinct worlds"

text \<open>What the loop compares by: the score, then the smaller name.\<close>

definition outranks :: "u32 \<Rightarrow> string \<Rightarrow> string \<Rightarrow> bool" where
  "outranks shard v w \<longleftrightarrow>
     world_score shard w < world_score shard v \<or> world_score shard w = world_score shard v \<and> v < w"

lemma outranks_total: "v \<noteq> w \<Longrightarrow> outranks shard v w \<or> outranks shard w v"
  by (auto simp: outranks_def)

lemma outranks_asym: "outranks shard v w \<Longrightarrow> \<not> outranks shard w v"
  by (auto simp: outranks_def)

lemma outranks_trans: "outranks shard u v \<Longrightarrow> outranks shard v w \<Longrightarrow> outranks shard u w"
  by (auto simp: outranks_def)

lemma preferred_loop_best:
  assumes "distinct (worlds @ seen)" "[] \<notin> set worlds" "best \<in> set seen"
    and "\<forall>v \<in> set seen. v \<noteq> best \<longrightarrow> outranks shard best v"
  shows "\<exists>w \<in> set (worlds @ seen). preferred_loop shard worlds seen (Some (best, world_score shard best)) =
      Inr (Some (w, world_score shard w)) \<and> (\<forall>v \<in> set (worlds @ seen). v \<noteq> w \<longrightarrow> outranks shard w v)"
  using assms
proof (induction worlds arbitrary: seen best)
  case (Cons i worlds)
  let ?best = "if outranks shard i best then i else best"
  have "best \<noteq> i" using Cons.prems by auto
  have nonempty: "i \<noteq> []" using Cons.prems(2) by auto
  have cond: "world_score shard best < world_score shard i \<or> world_score shard i = world_score shard best \<and> i < best
      \<longleftrightarrow> outranks shard i best" by (auto simp: outranks_def)
  have "\<forall>v \<in> set (i # seen). v \<noteq> ?best \<longrightarrow> outranks shard ?best v"
    using Cons.prems(4) \<open>best \<noteq> i\<close> outranks_total [of i best shard] outranks_trans [of shard i best] by auto
  moreover have "preferred_loop shard (i # worlds) seen (Some (best, world_score shard best)) =
      preferred_loop shard worlds (i # seen) (Some (?best, world_score shard ?best))"
    using Cons.prems(1) nonempty cond by simp
  ultimately show ?case
    using Cons.IH [of "i # seen" ?best] Cons.prems(1-3) by auto
qed auto

lemma preferred_loop_error:
  "\<not> (distinct worlds \<and> [] \<notin> set worlds \<and> set worlds \<inter> set seen = {}) \<Longrightarrow>
     preferred_loop shard worlds seen best = Inl (InvalidConfig ''invalid world membership'')"
proof (induction worlds arbitrary: seen best)
  case (Cons i worlds)
  show ?case
  proof (cases "i = [] \<or> i \<in> set seen")
    case False
    then have "\<not> (distinct worlds \<and> [] \<notin> set worlds \<and> set worlds \<inter> set (i # seen) = {})"
      using Cons.prems by auto
    from Cons.IH [OF this] False show ?thesis by (simp add: Let_def)
  qed simp
qed simp

lemma preferred_world_best:
  assumes "world_members worlds"
  shows "\<exists>w \<in> set worlds. preferred_world shard worlds = Inr w \<and>
    (\<forall>v \<in> set worlds. v \<noteq> w \<longrightarrow> outranks shard w v)"
proof -
  obtain i rest where worlds: "worlds = i # rest" using assms by (cases worlds) (auto simp: world_members_def)
  have "preferred_loop shard worlds [] None = preferred_loop shard rest [i] (Some (i, world_score shard i))"
    using assms by (auto simp: worlds world_members_def Let_def)
  then show ?thesis
    using preferred_loop_best [of rest "[i]" i shard] assms
    by (auto simp: worlds world_members_def preferred_world_def)
qed

lemma shard_for_range: "shard_for player n = Inr shard \<Longrightarrow> shard < n"
proof -
  assume "shard_for player n = Inr shard"
  then have n: "n \<noteq> 0" and shard: "shard = ucast (mix64 (of_int player) mod ucast n)"
    by (auto simp: shard_for_def split: if_splits)
  have small: "unat n < 2 ^ 32" using unat_lt2p [of n] by simp
  then have "unat (ucast n :: u64) = unat n" by (simp add: unsigned_ucast_eq take_bit_nat_eq_self)
  then have "unat (mix64 (of_int player) mod ucast n) < unat n" using n by (simp add: unat_mod unat_gt_0)
  then show "shard < n" using small by (simp add: shard word_less_nat_alt unsigned_ucast_eq take_bit_nat_eq_self)
qed

text \<open>C31. Rendezvous hashing moves as little as possible. Two members of a cluster that know the
same worlds, in whatever order, prefer the same one for a shard; and when the membership changes,
a shard moves only if its world has left or the world it moves to is new.\<close>

theorem preferred_world_moves_minimally:
  assumes "world_members worlds" "world_members worlds'"
  shows "\<exists>w \<in> set worlds. \<exists>w' \<in> set worlds'.
    preferred_world shard worlds = Inr w \<and> preferred_world shard worlds' = Inr w' \<and>
    (w = w' \<or> w \<notin> set worlds' \<or> w' \<notin> set worlds)"
proof -
  obtain w where w: "w \<in> set worlds" "preferred_world shard worlds = Inr w"
    "\<forall>v \<in> set worlds. v \<noteq> w \<longrightarrow> outranks shard w v" using preferred_world_best [OF assms(1)] by blast
  obtain w' where w': "w' \<in> set worlds'" "preferred_world shard worlds' = Inr w'"
    "\<forall>v \<in> set worlds'. v \<noteq> w' \<longrightarrow> outranks shard w' v" using preferred_world_best [OF assms(2)] by blast
  have "w = w' \<or> w \<notin> set worlds' \<or> w' \<notin> set worlds" using w(3) w'(3) outranks_asym by metis
  with w w' show ?thesis by blast
qed

theorem preferred_world_moves_minimally_witness:
  "\<exists>w. preferred_world 3 [''a'', ''b''] = Inr w \<and> preferred_world 3 [''b'', ''a''] = Inr w"
  using preferred_world_moves_minimally [of "[''a'', ''b'']" "[''b'', ''a'']" 3] by (auto simp: world_members_def)

lemma preferred_world_refuses:
  "\<not> world_members worlds \<Longrightarrow> preferred_world shard worlds =
     Inl (if worlds = [] then Unavailable else InvalidConfig ''invalid world membership'')"
  using preferred_loop_error [of worlds "[]" shard None] by (auto simp: preferred_world_def world_members_def)

subsection \<open>What the tables say\<close>

lemma ownership_table_collect_Inr:
  "ownership_table_collect n entries result = Inr result' \<Longrightarrow>
     map_of result' k = (case map_of result k of
         Some a \<Rightarrow> Some a
       | None \<Rightarrow> find (\<lambda>a. (asg_region_id a, asg_realm_id a, asg_shard_id a) = k) entries) \<and>
     (\<forall>a \<in> set entries. assignment_validate a n = Inr ())"
proof (induction entries arbitrary: result)
  case (Cons a entries)
  let ?key = "(asg_region_id a, asg_realm_id a, asg_shard_id a)"
  have a: "assignment_validate a n = Inr ()" "\<not> contains_key result ?key"
    "ownership_table_collect n entries (hm_insert ?key a result) = Inr result'"
    using Cons.prems by (auto simp: Let_def split: sum.splits if_splits)
  from Cons.IH [OF a(3)] a(1,2) show ?case
    by (auto simp: hm_insert_def map_of_remove contains_key_def split: option.splits)
qed (auto split: option.splits)

text \<open>Replacing the assignments is all or nothing, and afterwards every shard resolves to the
assignment that was given for it.\<close>

lemma ownership_replace_resolve:
  assumes "ownership_table_replace t entries = (result, t')"
  shows "case result of
      Inl e \<Rightarrow> t' = t
    | Inr _ \<Rightarrow> (\<forall>a \<in> set entries. assignment_validate a (otb_count t) = Inr ()) \<and>
        (\<forall>region realm shard. region \<noteq> 0 \<longrightarrow> realm \<noteq> 0 \<longrightarrow> shard < otb_count t \<longrightarrow>
          ownership_table_resolve t' region realm shard =
            (case find (\<lambda>a. (asg_region_id a, asg_realm_id a, asg_shard_id a) = (region, realm, shard)) entries of
               None \<Rightarrow> Inl Unavailable
             | Some a \<Rightarrow> Inr a))"
proof (cases result)
  case (Inl e)
  then show ?thesis
    using assms by (auto simp: ownership_table_replace_def split: sum.splits if_splits)
next
  case (Inr u)
  then obtain owners where "ownership_table_collect (otb_count t) entries [] = Inr owners"
    "\<not> otb_poisoned t" "t' = t\<lparr>otb_owners := owners\<rparr>"
    using assms by (auto simp: ownership_table_replace_def split: sum.splits if_splits)
  with ownership_table_collect_Inr [OF this(1)] Inr show ?thesis
    by (auto simp: ownership_table_resolve_def not_le)
qed

end
