(* ===== verification/Keyed_Executor.thy ===== *)
theory Keyed_Executor
  imports Session Collections
begin

section \<open>One operation per player at a time\<close>

text \<open>
  Model of \<open>crates/elura-world/src/keyed.rs\<close>: operations of a player take a lock that is found in
  a sharded cache, and idle locks are dropped from the cache. A lock is known by the number it got when
  it was made; its reference count is one for the cache and one for each task that
  holds a clone. A task holds its clone from the lookup until its future is dropped, at the end of the operation or before,
  when the caller gives up. The hash of a player is a parameter.
  When a lock is released any of its waiters may start, which includes the order of arrival in which the
  lock of the source serves them.
\<close>

subsection \<open>Data\<close>

definition EXECUTOR_SHARDS :: usize where
  "EXECUTOR_SHARDS = 64"

definition LOCKS_PER_SHARD :: usize where
  "LOCKS_PER_SHARD = 1024"

definition LOCK_IDLE_TTL :: duration where
  "LOCK_IDLE_TTL = secs 60"

definition PRUNE_INTERVAL :: u64 where
  "PRUNE_INTERVAL = 256"

record cached_lock =
  cl_lock :: nat
  cl_last_seen :: instant

record lock_shard =
  lsh_entries :: "(player_key \<times> cached_lock) list"
  lsh_operations :: u64

datatype task_phase = Waiting | Running

record keyed_task =
  kt_player :: player_key
  kt_lock :: nat
  kt_phase :: task_phase

record keyed_executor =
  kx_shards :: "lock_shard list"
  kx_tasks :: "keyed_task list"
  kx_next_lock :: nat

definition keyed_executor_default :: keyed_executor where
  "keyed_executor_default =
     \<lparr>kx_shards = replicate EXECUTOR_SHARDS \<lparr>lsh_entries = [], lsh_operations = 0\<rparr>,
      kx_tasks = [], kx_next_lock = 0\<rparr>"

subsection \<open>Operations\<close>

definition strong_count :: "keyed_task list \<Rightarrow> nat \<Rightarrow> nat" where
  "strong_count tasks lock = Suc (length (filter (\<lambda>t. kt_lock t = lock) tasks))"

definition evict_oldest_unlocked ::
    "keyed_task list \<Rightarrow> (player_key \<times> cached_lock) list \<Rightarrow> (player_key \<times> cached_lock) list" where
  "evict_oldest_unlocked tasks entries =
     (case min_by_key (\<lambda>(_, entry). cl_last_seen entry)
             (filter (\<lambda>(_, entry). strong_count tasks (cl_lock entry) = 1) entries) of
        None \<Rightarrow> entries
      | Some (key, _) \<Rightarrow> map_remove key entries)"

text \<open>The lookup under the mutex of the shard; \<open>fresh\<close> is the lock that it makes if it must.\<close>

definition shard_lock ::
    "keyed_task list \<Rightarrow> nat \<Rightarrow> instant \<Rightarrow> player_key \<Rightarrow> lock_shard \<Rightarrow> nat \<times> lock_shard" where
  "shard_lock tasks fresh now key shard =
     (let operations = lsh_operations shard + 1;
          entries =
            (if operations mod PRUNE_INTERVAL = 0
             then map_retain (\<lambda>_ entry. 1 < strong_count tasks (cl_lock entry)
                    \<or> now - cl_last_seen entry < LOCK_IDLE_TTL) (lsh_entries shard)
             else lsh_entries shard)
      in case map_of entries key of
           Some entry \<Rightarrow>
             (cl_lock entry, \<lparr>lsh_entries = map_adjust key (\<lambda>e. e\<lparr>cl_last_seen := now\<rparr>) entries,
                lsh_operations = operations\<rparr>)
         | None \<Rightarrow>
             (let entries = (if LOCKS_PER_SHARD \<le> length entries then evict_oldest_unlocked tasks entries
                             else entries)
              in (fresh, \<lparr>lsh_entries = hm_insert key \<lparr>cl_lock = fresh, cl_last_seen = now\<rparr> entries,
                    lsh_operations = operations\<rparr>)))"

definition shard_index :: "(player_key \<Rightarrow> u64) \<Rightarrow> keyed_executor \<Rightarrow> player_key \<Rightarrow> usize" where
  "shard_index hash x key = unat (hash key) mod length (kx_shards x)"

text \<open>\<open>execute\<close> up to the wait for the lock, the moment it gets the lock, and the end of its future.\<close>

definition keyed_executor_enter ::
    "(player_key \<Rightarrow> u64) \<Rightarrow> instant \<Rightarrow> player_key \<Rightarrow> keyed_executor \<Rightarrow> keyed_executor" where
  "keyed_executor_enter hash now key x =
     (let i = shard_index hash x key;
          (lock, shard) = shard_lock (kx_tasks x) (kx_next_lock x) now key (kx_shards x ! i)
      in x\<lparr>kx_shards := (kx_shards x)[i := shard],
           kx_tasks := kx_tasks x @ [\<lparr>kt_player = key, kt_lock = lock, kt_phase = Waiting\<rparr>],
           kx_next_lock := Suc (kx_next_lock x)\<rparr>)"

definition keyed_executor_start :: "nat \<Rightarrow> keyed_executor \<Rightarrow> keyed_executor option" where
  "keyed_executor_start i x =
     (if i < length (kx_tasks x) \<and> kt_phase (kx_tasks x ! i) = Waiting
         \<and> list_all (\<lambda>t. kt_lock t = kt_lock (kx_tasks x ! i) \<longrightarrow> kt_phase t = Waiting) (kx_tasks x)
      then Some (x\<lparr>kx_tasks := (kx_tasks x)[i := (kx_tasks x ! i)\<lparr>kt_phase := Running\<rparr>]\<rparr>)
      else None)"

definition keyed_executor_drop :: "nat \<Rightarrow> keyed_executor \<Rightarrow> keyed_executor" where
  "keyed_executor_drop i x = x\<lparr>kx_tasks := take i (kx_tasks x) @ drop (Suc i) (kx_tasks x)\<rparr>"

subsection \<open>Interleavings\<close>

inductive keyed_reachable :: "(player_key \<Rightarrow> u64) \<Rightarrow> keyed_executor \<Rightarrow> bool" for hash where
  keyed_init: "keyed_reachable hash keyed_executor_default"
| keyed_enter: "keyed_reachable hash x \<Longrightarrow> keyed_reachable hash (keyed_executor_enter hash now key x)"
| keyed_start: "keyed_reachable hash x \<Longrightarrow> keyed_executor_start i x = Some x' \<Longrightarrow> keyed_reachable hash x'"
| keyed_drop: "keyed_reachable hash x \<Longrightarrow> keyed_reachable hash (keyed_executor_drop i x)"

subsection \<open>Invariant\<close>

definition cached :: "(player_key \<Rightarrow> u64) \<Rightarrow> keyed_executor \<Rightarrow> player_key \<Rightarrow> cached_lock option" where
  "cached hash x key = map_of (lsh_entries (kx_shards x ! shard_index hash x key)) key"

text \<open>The tasks of a player hold the lock that is cached for the player; no lock is cached for two
players; at most one task runs on a lock.\<close>

definition keyed_inv :: "(player_key \<Rightarrow> u64) \<Rightarrow> keyed_executor \<Rightarrow> bool" where
  "keyed_inv hash x \<longleftrightarrow>
     kx_shards x \<noteq> [] \<and>
     (\<forall>shard \<in> set (kx_shards x). hm_wf (lsh_entries shard)) \<and>
     (\<forall>t \<in> set (kx_tasks x). \<exists>e. cached hash x (kt_player t) = Some e \<and> cl_lock e = kt_lock t) \<and>
     (\<forall>k e. cached hash x k = Some e \<longrightarrow> cl_lock e < kx_next_lock x) \<and>
     (\<forall>k k' e e'. cached hash x k = Some e \<longrightarrow> cached hash x k' = Some e' \<longrightarrow> cl_lock e = cl_lock e' \<longrightarrow> k = k') \<and>
     (\<forall>i j. i < length (kx_tasks x) \<longrightarrow> j < length (kx_tasks x) \<longrightarrow>
        kt_phase (kx_tasks x ! i) = Running \<longrightarrow> kt_phase (kx_tasks x ! j) = Running \<longrightarrow>
        kt_lock (kx_tasks x ! i) = kt_lock (kx_tasks x ! j) \<longrightarrow> i = j)"

definition lock_held :: "keyed_task list \<Rightarrow> nat \<Rightarrow> bool" where
  "lock_held tasks lock \<longleftrightarrow> (\<exists>t \<in> set tasks. kt_lock t = lock)"

lemma strong_count_held: "strong_count tasks lock = 1 \<longleftrightarrow> \<not> lock_held tasks lock"
  by (auto simp: strong_count_def lock_held_def filter_empty_conv)

text \<open>Cleaning a cache keeps every lock that is held.\<close>

definition cleaned :: "keyed_task list \<Rightarrow> (player_key \<times> cached_lock) list \<Rightarrow> (player_key \<times> cached_lock) list \<Rightarrow> bool" where
  "cleaned tasks entries entries' \<longleftrightarrow>
     hm_wf entries' \<and> (\<forall>k e. map_of entries' k = Some e \<longrightarrow> map_of entries k = Some e) \<and>
     (\<forall>k e. map_of entries k = Some e \<longrightarrow> lock_held tasks (cl_lock e) \<longrightarrow> map_of entries' k = Some e)"

lemma cleanedD:
  "cleaned tasks a b \<Longrightarrow> hm_wf b"
  "cleaned tasks a b \<Longrightarrow> map_of b k = Some e \<Longrightarrow> map_of a k = Some e"
  "cleaned tasks a b \<Longrightarrow> map_of a k = Some e \<Longrightarrow> lock_held tasks (cl_lock e) \<Longrightarrow> map_of b k = Some e"
  unfolding cleaned_def by blast+

lemma cleaned_refl: "hm_wf entries \<Longrightarrow> cleaned tasks entries entries"
  by (simp add: cleaned_def)

lemma cleaned_trans: "cleaned tasks a b \<Longrightarrow> cleaned tasks b c \<Longrightarrow> cleaned tasks a c"
  unfolding cleaned_def by blast

lemma retain_cleaned:
  assumes "hm_wf entries"
  shows "cleaned tasks entries (map_retain (\<lambda>_ entry. 1 < strong_count tasks (cl_lock entry) \<or> P entry) entries)"
proof -
  have "1 < strong_count tasks lock" if "lock_held tasks lock" for lock
    using that strong_count_held [of tasks lock] by (auto simp: strong_count_def)
  then show ?thesis
    using assms
    by (auto simp: cleaned_def hm_wf_def map_of_retain split: option.splits if_splits)
      (simp add: map_retain_def distinct_keys_filter)
qed

lemma min_by_key_mem: "min_by_key f xs = Some x \<Longrightarrow> x \<in> set xs"
  by (induction xs arbitrary: x) (auto split: option.splits if_splits)

lemma evict_cleaned:
  assumes "hm_wf entries"
  shows "cleaned tasks entries (evict_oldest_unlocked tasks entries)"
proof (cases "min_by_key (\<lambda>(_, entry). cl_last_seen entry)
    (filter (\<lambda>(_, entry). strong_count tasks (cl_lock entry) = 1) entries)")
  case None
  then show ?thesis using assms by (simp add: evict_oldest_unlocked_def cleaned_refl)
next
  case (Some p)
  obtain key entry where p: "p = (key, entry)" by fastforce
  have "(key, entry) \<in> set entries" "\<not> lock_held tasks (cl_lock entry)"
    using min_by_key_mem [OF Some] p strong_count_held by auto
  then have "map_of entries key = Some entry" using assms by (simp add: hm_wf_def)
  then show ?thesis
    using Some p assms \<open>\<not> lock_held tasks (cl_lock entry)\<close>
    by (auto simp: evict_oldest_unlocked_def cleaned_def map_of_remove hm.map_laws)
qed

lemma shard_lock_spec:
  assumes wf: "hm_wf (lsh_entries shard)" and run: "shard_lock tasks fresh now key shard = (lock, shard')"
  shows "hm_wf (lsh_entries shard')"
    and "\<exists>e. map_of (lsh_entries shard') key = Some e \<and> cl_lock e = lock"
    and "lock = fresh \<or> (\<exists>e. map_of (lsh_entries shard) key = Some e \<and> cl_lock e = lock)"
    and "k \<noteq> key \<Longrightarrow> map_of (lsh_entries shard') k = Some e \<Longrightarrow> map_of (lsh_entries shard) k = Some e"
    and "map_of (lsh_entries shard) k = Some e \<Longrightarrow> lock_held tasks (cl_lock e) \<Longrightarrow>
      \<exists>e'. map_of (lsh_entries shard') k = Some e' \<and> cl_lock e' = cl_lock e"
proof -
  define entries where "entries =
    (if (lsh_operations shard + 1) mod PRUNE_INTERVAL = 0
     then map_retain (\<lambda>_ entry. 1 < strong_count tasks (cl_lock entry) \<or> now - cl_last_seen entry < LOCK_IDLE_TTL)
       (lsh_entries shard)
     else lsh_entries shard)"
  have clean: "cleaned tasks (lsh_entries shard) entries"
    using wf retain_cleaned cleaned_refl by (simp add: entries_def)
  define entries2 where "entries2 = (if LOCKS_PER_SHARD \<le> length entries then evict_oldest_unlocked tasks entries else entries)"
  have "hm_wf entries" by (rule cleanedD(1) [OF clean])
  then have "cleaned tasks entries entries2" by (simp add: entries2_def evict_cleaned cleaned_refl)
  then have clean2: "cleaned tasks (lsh_entries shard) entries2" by (rule cleaned_trans [OF clean])
  define entries3 where "entries3 = (if map_of entries key = None then entries2 else entries)"
  have clean3: "cleaned tasks (lsh_entries shard) entries3" using clean clean2 by (simp add: entries3_def)
  have shard': "(lock, shard') = (case map_of entries key of
      Some entry \<Rightarrow> (cl_lock entry, \<lparr>lsh_entries = map_adjust key (\<lambda>e. e\<lparr>cl_last_seen := now\<rparr>) entries,
         lsh_operations = lsh_operations shard + 1\<rparr>)
    | None \<Rightarrow> (fresh, \<lparr>lsh_entries = hm_insert key \<lparr>cl_lock = fresh, cl_last_seen = now\<rparr> entries2,
         lsh_operations = lsh_operations shard + 1\<rparr>))"
    using run [symmetric] unfolding shard_lock_def Let_def entries_def [symmetric] entries2_def [symmetric] .
  have get: "map_of (lsh_entries shard') j =
      (if j = key then Some \<lparr>cl_lock = lock, cl_last_seen = now\<rparr> else map_of entries3 j)" for j
    using shard' by (cases "map_of entries key") (auto simp: entries3_def map_of_adjust hm_insert_def map_of_remove)
  have lock: "lock = (case map_of entries key of None \<Rightarrow> fresh | Some e \<Rightarrow> cl_lock e)"
    using shard' by (cases "map_of entries key") auto
  have "hm_wf entries2" by (rule cleanedD(1) [OF clean2])
  then have "hm_wf (hm_insert key \<lparr>cl_lock = fresh, cl_last_seen = now\<rparr> entries2)" by (rule hm.wf_insert)
  moreover have "hm_wf (map_adjust key (\<lambda>e. e\<lparr>cl_last_seen := now\<rparr>) entries)"
    using \<open>hm_wf entries\<close> by (simp add: hm_wf_def)
  ultimately show "hm_wf (lsh_entries shard')" using shard' by (cases "map_of entries key") simp_all
  show "\<exists>e. map_of (lsh_entries shard') key = Some e \<and> cl_lock e = lock" by (simp add: get)
  show "lock = fresh \<or> (\<exists>e. map_of (lsh_entries shard) key = Some e \<and> cl_lock e = lock)"
    using lock cleanedD(2) [OF clean] by (cases "map_of entries key") auto
  show "map_of (lsh_entries shard) k = Some e" if "k \<noteq> key" "map_of (lsh_entries shard') k = Some e"
    using that cleanedD(2) [OF clean3] get [of k] by simp
  show "\<exists>e'. map_of (lsh_entries shard') k = Some e' \<and> cl_lock e' = cl_lock e"
    if "map_of (lsh_entries shard) k = Some e" "lock_held tasks (cl_lock e)"
  proof (cases "k = key")
    case True
    then have "map_of entries key = Some e" using that cleanedD(3) [OF clean] by blast
    then show ?thesis using True lock get [of k] by simp
  next
    case False
    then show ?thesis using cleanedD(3) [OF clean3 that] get [of k] by simp
  qed
qed

lemma keyed_invD:
  assumes "keyed_inv hash x"
  shows "kx_shards x \<noteq> []" "shard \<in> set (kx_shards x) \<Longrightarrow> hm_wf (lsh_entries shard)"
    and "t \<in> set (kx_tasks x) \<Longrightarrow> \<exists>e. cached hash x (kt_player t) = Some e \<and> cl_lock e = kt_lock t"
    and "cached hash x k = Some e \<Longrightarrow> cl_lock e < kx_next_lock x"
    and "cached hash x k = Some e \<Longrightarrow> cached hash x k' = Some e' \<Longrightarrow> cl_lock e = cl_lock e' \<Longrightarrow> k = k'"
    and "i < length (kx_tasks x) \<Longrightarrow> j < length (kx_tasks x) \<Longrightarrow> kt_phase (kx_tasks x ! i) = Running \<Longrightarrow>
      kt_phase (kx_tasks x ! j) = Running \<Longrightarrow> kt_lock (kx_tasks x ! i) = kt_lock (kx_tasks x ! j) \<Longrightarrow> i = j"
  using assms unfolding keyed_inv_def by blast+

lemma cached_enter:
  assumes inv: "keyed_inv hash x"
    and run: "shard_lock (kx_tasks x) (kx_next_lock x) now key (kx_shards x ! shard_index hash x key) = (lock, shard)"
  shows "cached hash (keyed_executor_enter hash now key x) k =
    (if shard_index hash x k = shard_index hash x key then map_of (lsh_entries shard) k else cached hash x k)"
proof -
  have "shard_index hash x key < length (kx_shards x)" using keyed_invD(1) [OF inv] by (simp add: shard_index_def)
  then show ?thesis
    using run by (simp add: cached_def keyed_executor_enter_def Let_def shard_index_def)
qed

lemma keyed_inv_default: "keyed_inv hash keyed_executor_default"
proof -
  have "cached hash keyed_executor_default k = None" for k
    by (simp add: cached_def keyed_executor_default_def shard_index_def EXECUTOR_SHARDS_def)
  then show ?thesis by (simp add: keyed_inv_def keyed_executor_default_def EXECUTOR_SHARDS_def hm_wf_def)
qed

lemma keyed_inv_enter:
  assumes inv: "keyed_inv hash x"
  shows "keyed_inv hash (keyed_executor_enter hash now key x)"
proof -
  let ?i = "shard_index hash x key" and ?x = "keyed_executor_enter hash now key x"
  obtain lock shard where run: "shard_lock (kx_tasks x) (kx_next_lock x) now key (kx_shards x ! ?i) = (lock, shard)"
    by fastforce
  have i: "?i < length (kx_shards x)" using keyed_invD(1) [OF inv] by (simp add: shard_index_def)
  then have wf: "hm_wf (lsh_entries (kx_shards x ! ?i))" using keyed_invD(2) [OF inv] by simp
  note spec = shard_lock_spec [OF wf run]
  note get = cached_enter [OF inv run]
  have old: "cached hash x k = map_of (lsh_entries (kx_shards x ! ?i)) k" if "shard_index hash x k = ?i" for k
    using that by (simp add: cached_def)
  have tasks: "kx_tasks ?x = kx_tasks x @ [\<lparr>kt_player = key, kt_lock = lock, kt_phase = Waiting\<rparr>]"
    and fresh: "kx_next_lock ?x = Suc (kx_next_lock x)" and shards: "kx_shards ?x = (kx_shards x)[?i := shard]"
    using run by (simp_all add: keyed_executor_enter_def Let_def)
  have mine: "\<exists>e. cached hash ?x key = Some e \<and> cl_lock e = lock" using spec(2) get [of key] by simp
  have others: "cached hash x k = Some e" if "k \<noteq> key" "cached hash ?x k = Some e" for k e
    using that get [of k] old [of k] spec(4) [of k e] by (auto split: if_splits)
  have held: "\<exists>e. cached hash ?x (kt_player t) = Some e \<and> cl_lock e = kt_lock t" if t: "t \<in> set (kx_tasks x)" for t
  proof -
    obtain e where e: "cached hash x (kt_player t) = Some e" "cl_lock e = kt_lock t"
      using keyed_invD(3) [OF inv t] by blast
    have "lock_held (kx_tasks x) (cl_lock e)" using t e(2) by (auto simp: lock_held_def)
    with e show ?thesis using spec(5) [of "kt_player t" e] get [of "kt_player t"] old [of "kt_player t"] by auto
  qed
  have below: "cl_lock e < Suc (kx_next_lock x)" if "cached hash ?x k = Some e" for k e
  proof (cases "k = key")
    case True
    then have "cl_lock e = lock" using mine that by auto
    then show ?thesis using spec(3) keyed_invD(4) [OF inv, of key] old [of key] by (auto simp: less_Suc_eq)
  next
    case False
    then show ?thesis using keyed_invD(4) [OF inv others [OF _ that]] by simp
  qed
  have mine_only: "k = key" if k: "cached hash ?x k = Some e" "cl_lock e = lock" for k e
  proof (rule ccontr)
    assume "k \<noteq> key"
    then have e: "cached hash x k = Some e" using others k by blast
    then have "cl_lock e < kx_next_lock x" by (rule keyed_invD(4) [OF inv])
    then have "lock \<noteq> kx_next_lock x" using k(2) by simp
    then obtain e' where "cached hash x key = Some e'" "cl_lock e' = lock" using spec(3) old [of key] by auto
    then show False using keyed_invD(5) [OF inv e] k(2) \<open>k \<noteq> key\<close> by blast
  qed
  have unique: "k = k'" if "cached hash ?x k = Some e" "cached hash ?x k' = Some e'" "cl_lock e = cl_lock e'" for k k' e e'
  proof (cases "k = key \<or> k' = key")
    case True
    then have "cl_lock e = lock" using mine that by auto
    then show ?thesis using mine_only that by metis
  next
    case False
    then show ?thesis using keyed_invD(5) [OF inv others others] that by blast
  qed
  have running: "i = j" if "i < length (kx_tasks ?x)" "j < length (kx_tasks ?x)"
    "kt_phase (kx_tasks ?x ! i) = Running" "kt_phase (kx_tasks ?x ! j) = Running"
    "kt_lock (kx_tasks ?x ! i) = kt_lock (kx_tasks ?x ! j)" for i j
  proof -
    have "i < length (kx_tasks x)" "j < length (kx_tasks x)"
      using that by (auto simp: tasks nth_append less_Suc_eq)
    then show ?thesis using that keyed_invD(6) [OF inv, of i j] by (simp add: tasks nth_append)
  qed
  have "\<forall>sh \<in> set (kx_shards ?x). hm_wf (lsh_entries sh)"
    using keyed_invD(2) [OF inv] spec(1) set_update_subset_insert [of "kx_shards x" ?i shard] unfolding shards by blast
  moreover have "kx_shards ?x \<noteq> []" using keyed_invD(1) [OF inv] by (simp add: shards)
  moreover have "\<forall>t \<in> set (kx_tasks ?x). \<exists>e. cached hash ?x (kt_player t) = Some e \<and> cl_lock e = kt_lock t"
    using held mine by (auto simp: tasks)
  ultimately show ?thesis
    unfolding keyed_inv_def fresh using below unique running by blast
qed

lemma keyed_inv_start:
  assumes inv: "keyed_inv hash x" and run: "keyed_executor_start n x = Some x'"
  shows "keyed_inv hash x'"
proof -
  let ?t = "kx_tasks x ! n"
  have n: "n < length (kx_tasks x)"
    and alone: "\<And>t. t \<in> set (kx_tasks x) \<Longrightarrow> kt_lock t = kt_lock ?t \<Longrightarrow> kt_phase t = Waiting"
    and x': "x' = x\<lparr>kx_tasks := (kx_tasks x)[n := ?t\<lparr>kt_phase := Running\<rparr>]\<rparr>"
    using run by (auto simp: keyed_executor_start_def list_all_iff split: if_splits)
  have get: "cached hash x' k = cached hash x k" for k by (simp add: x' cached_def shard_index_def)
  have nth: "kx_tasks x' ! i = (if i = n then ?t\<lparr>kt_phase := Running\<rparr> else kx_tasks x ! i)"
    if "i < length (kx_tasks x)" for i using that by (simp add: x' nth_list_update)
  have len: "length (kx_tasks x') = length (kx_tasks x)" by (simp add: x')
  have locks: "kt_lock (kx_tasks x' ! i) = kt_lock (kx_tasks x ! i)" if "i < length (kx_tasks x)" for i
    using that nth by simp
  have running: "i = j" if ij: "i < length (kx_tasks x')" "j < length (kx_tasks x')"
    "kt_phase (kx_tasks x' ! i) = Running" "kt_phase (kx_tasks x' ! j) = Running"
    "kt_lock (kx_tasks x' ! i) = kt_lock (kx_tasks x' ! j)" for i j
  proof -
    have rest: "k = n" if "k < length (kx_tasks x)" "kt_phase (kx_tasks x' ! k) = Running"
      "kt_lock (kx_tasks x ! k) = kt_lock ?t" for k
      using alone [of "kx_tasks x ! k"] that nth [of k] by (auto split: if_splits)
    show ?thesis
    proof (cases "i = n \<or> j = n")
      case True
      then show ?thesis using rest [of i] rest [of j] ij by (auto simp: len locks)
    next
      case False
      then show ?thesis using keyed_invD(6) [OF inv, of i j] ij by (simp add: len nth)
    qed
  qed
  have "\<exists>e. cached hash x (kt_player t) = Some e \<and> cl_lock e = kt_lock t" if "t \<in> set (kx_tasks x')" for t
  proof -
    have "t = ?t\<lparr>kt_phase := Running\<rparr> \<or> t \<in> set (kx_tasks x)"
      using that set_update_subset_insert [of "kx_tasks x" n] by (auto simp: x')
    then show ?thesis using keyed_invD(3) [OF inv, of t] keyed_invD(3) [OF inv nth_mem [OF n]] by auto
  qed
  moreover have same: "kx_shards x' = kx_shards x" "kx_next_lock x' = kx_next_lock x" by (simp_all add: x')
  ultimately show ?thesis
    using inv running unfolding keyed_inv_def get same by blast
qed

lemma keyed_inv_drop:
  assumes inv: "keyed_inv hash x"
  shows "keyed_inv hash (keyed_executor_drop n x)"
proof -
  let ?x = "keyed_executor_drop n x" and ?old = "\<lambda>i. if i < n then i else Suc i"
  have get: "cached hash ?x k = cached hash x k" for k
    by (simp add: keyed_executor_drop_def cached_def shard_index_def)
  have tasks: "set (kx_tasks ?x) \<subseteq> set (kx_tasks x)"
    by (auto simp: keyed_executor_drop_def dest: in_set_takeD in_set_dropD)
  have old: "?old i < length (kx_tasks x) \<and> kx_tasks ?x ! i = kx_tasks x ! ?old i" if "i < length (kx_tasks ?x)" for i
    using that by (auto simp: keyed_executor_drop_def nth_append min_def split: if_splits)
  have "i = j" if ij: "i < length (kx_tasks ?x)" "j < length (kx_tasks ?x)"
    "kt_phase (kx_tasks ?x ! i) = Running" "kt_phase (kx_tasks ?x ! j) = Running"
    "kt_lock (kx_tasks ?x ! i) = kt_lock (kx_tasks ?x ! j)" for i j
  proof -
    have "?old i = ?old j"
      using keyed_invD(6) [OF inv, of "?old i" "?old j"] old [OF ij(1)] old [OF ij(2)] ij(3-5) by simp
    then show ?thesis by (auto split: if_splits)
  qed
  moreover have same: "kx_shards ?x = kx_shards x" "kx_next_lock ?x = kx_next_lock x"
    by (simp_all add: keyed_executor_drop_def)
  ultimately show ?thesis
    using inv tasks unfolding keyed_inv_def get same by blast
qed

lemma keyed_reachable_inv: "keyed_reachable hash x \<Longrightarrow> keyed_inv hash x"
  by (induction rule: keyed_reachable.induct)
    (simp_all add: keyed_inv_default keyed_inv_enter keyed_inv_drop keyed_inv_start)

lemma keyed_same_lock:
  assumes inv: "keyed_inv hash x" and "t \<in> set (kx_tasks x)" "t' \<in> set (kx_tasks x)"
  shows "kt_lock t = kt_lock t' \<longleftrightarrow> kt_player t = kt_player t'"
proof -
  obtain e e' where e: "cached hash x (kt_player t) = Some e" "cl_lock e = kt_lock t"
    "cached hash x (kt_player t') = Some e'" "cl_lock e' = kt_lock t'"
    using keyed_invD(3) [OF inv] assms(2,3) by metis
  show ?thesis using e keyed_invD(5) [OF inv e(1,3)] by auto
qed

text \<open>C8. However calls of \<open>execute\<close> are interleaved, given up and finished, and whatever the cache of
locks evicts meanwhile, two operations of one player never run at the same time. A waiting operation can start
as soon as no operation of its own player runs: other players, also those in the same shard, never hold it up.\<close>

theorem keyed_executor_mutual_exclusion:
  assumes "keyed_reachable hash x" and i: "i < length (kx_tasks x)"
  shows "case kt_phase (kx_tasks x ! i) of
      Running \<Rightarrow> (\<forall>j < length (kx_tasks x). kt_phase (kx_tasks x ! j) = Running \<longrightarrow>
        kt_player (kx_tasks x ! j) = kt_player (kx_tasks x ! i) \<longrightarrow> j = i)
    | Waiting \<Rightarrow> (\<exists>x'. keyed_executor_start i x = Some x') \<longleftrightarrow>
        (\<forall>t \<in> set (kx_tasks x). kt_player t = kt_player (kx_tasks x ! i) \<longrightarrow> kt_phase t = Waiting)"
proof -
  have inv: "keyed_inv hash x" using assms(1) by (rule keyed_reachable_inv)
  note same = keyed_same_lock [OF inv _ nth_mem [OF i]]
  show ?thesis
  proof (cases "kt_phase (kx_tasks x ! i)")
    case Waiting
    then show ?thesis using i same by (auto simp: keyed_executor_start_def list_all_iff)
  next
    case Running
    then show ?thesis using keyed_invD(6) [OF inv _ i] same [OF nth_mem] by simp
  qed
qed

text \<open>Two calls for one player and one for another in the same shard: the first runs, the second has to
wait, the third need not.\<close>

definition keyed_example :: "keyed_executor option" where
  "keyed_example =
     (let enter = (\<lambda>user. keyed_executor_enter (\<lambda>_. 5) 0 \<lparr>pk_region_id = 1, pk_realm_id = 1, pk_user_id = user\<rparr>)
      in keyed_executor_start 0 (enter 8 (enter 7 (enter 7 keyed_executor_default))))"

lemma keyed_example_reachable: "keyed_example = Some x \<Longrightarrow> keyed_reachable (\<lambda>_. 5) x"
  unfolding keyed_example_def Let_def
  by (erule keyed_start [rotated]) (intro keyed_enter keyed_init)

theorem keyed_executor_mutual_exclusion_witness:
  "case keyed_example of None \<Rightarrow> False
   | Some x \<Rightarrow> map kt_phase (kx_tasks x) = [Running, Waiting, Waiting]
       \<and> (\<nexists>x'. keyed_executor_start 1 x = Some x') \<and> (\<exists>x'. keyed_executor_start 2 x = Some x')"
proof -
  have run: "case keyed_example of None \<Rightarrow> False
    | Some x \<Rightarrow> map (\<lambda>t. (kt_player t, kt_phase t)) (kx_tasks x) =
        [(\<lparr>pk_region_id = 1, pk_realm_id = 1, pk_user_id = 7\<rparr>, Running),
         (\<lparr>pk_region_id = 1, pk_realm_id = 1, pk_user_id = 7\<rparr>, Waiting),
         (\<lparr>pk_region_id = 1, pk_realm_id = 1, pk_user_id = 8\<rparr>, Waiting)]"
    by code_simp
  then obtain x where x: "keyed_example = Some x" by (cases keyed_example) auto
  have row: "map (\<lambda>t. (kt_player t, kt_phase t)) (kx_tasks x) =
        [(\<lparr>pk_region_id = 1, pk_realm_id = 1, pk_user_id = 7\<rparr>, Running),
         (\<lparr>pk_region_id = 1, pk_realm_id = 1, pk_user_id = 7\<rparr>, Waiting),
         (\<lparr>pk_region_id = 1, pk_realm_id = 1, pk_user_id = 8\<rparr>, Waiting)]"
    using run unfolding x option.case .
  have "length (kx_tasks x) = 3" using arg_cong [OF row, of length] by simp
  then obtain a b c where tasks: "kx_tasks x = [a, b, c]" by (auto simp: numeral_3_eq_3 length_Suc_conv)
  note excl = keyed_executor_mutual_exclusion [OF keyed_example_reachable [OF x]]
  show ?thesis
    using excl [of 1] excl [of 2] row unfolding x option.case tasks by simp
qed

end
