(* ===== verification/Player_Cache.thy ===== *)
theory Player_Cache
  imports Session Collections
begin

section \<open>The cache of player snapshots\<close>

text \<open>
  Model of \<open>crates/elura-world/src/player/cache.rs\<close> and \<open>player/invalidation.rs\<close>: a bounded cache that drops the
  least recently used player, and the messages by which the caches of several worlds drop what
  another has changed. The locks are taken over when poisoned. A call of \<open>load\<close> that misses is two steps, before
  and after the loader runs, since other calls may come between them; its lock, which lets one loader
  of a player run at a time, is not modelled. The bus and the loader are parameters.
  A \<open>store\<close> or a lookup is one step, although the source draws its access number before it takes the lock of
  the entries: two calls that draw in one order and lock in the other are not interleaved.
\<close>

subsection \<open>Data\<close>

record 'a player_snapshot =
  psn_value :: 'a
  psn_version :: u64

record player_cache_config =
  pcc_ttl :: duration
  pcc_max_entries :: usize

definition player_cache_config_default :: player_cache_config where
  "player_cache_config_default = \<lparr>pcc_ttl = secs 60, pcc_max_entries = 10000\<rparr>"

record player_cache_stats =
  pcs_hits :: u64
  pcs_misses :: u64
  pcs_loads :: u64
  pcs_evictions :: u64

record 'a cache_entry =
  cen_snapshot :: "'a player_snapshot"
  cen_expires_at :: instant
  cen_access :: u64

record 'a player_cache =
  pca_config :: player_cache_config
  pca_entries :: "(player_key \<times> 'a cache_entry) list"
  pca_order :: "(player_key \<times> u64) list"
  pca_clock :: u64
  pca_hits :: u64
  pca_misses :: u64
  pca_load_count :: u64
  pca_evictions :: u64

subsection \<open>Operations\<close>

definition player_cache_new :: "player_cache_config \<Rightarrow> core_error + 'a player_cache" where
  "player_cache_new config =
     (if pcc_ttl config = 0 \<or> pcc_max_entries config = 0 then Inl (InvalidConfig ''invalid player cache limits'')
      else Inr \<lparr>pca_config = config, pca_entries = [], pca_order = [], pca_clock = 0, pca_hits = 0,
             pca_misses = 0, pca_load_count = 0, pca_evictions = 0\<rparr>)"

definition record_access :: "player_key \<Rightarrow> u64 \<Rightarrow> 'a player_cache \<Rightarrow> 'a player_cache" where
  "record_access player access c =
     (let order = pca_order c @ [(player, access)]
      in c\<lparr>pca_order :=
           (if usize_sat_mul (pcc_max_entries (pca_config c)) 4 < length order
            then sort_key snd (map (\<lambda>(player, entry). (player, cen_access entry)) (pca_entries c))
            else order)\<rparr>)"

definition player_cache_lookup ::
    "instant \<Rightarrow> player_key \<Rightarrow> 'a player_cache \<Rightarrow> 'a player_snapshot option \<times> 'a player_cache" where
  "player_cache_lookup now player c =
     (let access = pca_clock c; c = c\<lparr>pca_clock := pca_clock c + 1\<rparr>
      in case map_of (pca_entries c) player of
           None \<Rightarrow> (None, c)
         | Some entry \<Rightarrow>
             if cen_expires_at entry \<le> now
             then (None, c\<lparr>pca_entries := map_remove player (pca_entries c)\<rparr>)
             else (Some (cen_snapshot entry),
                   record_access player access
                     (c\<lparr>pca_entries := map_adjust player (\<lambda>e. e\<lparr>cen_access := access\<rparr>) (pca_entries c)\<rparr>)))"

text \<open>The loop of \<open>store\<close>: the entries and the order that are left, and the evictions.\<close>

fun evict_loop ::
    "usize \<Rightarrow> (player_key \<times> 'a cache_entry) list \<Rightarrow> (player_key \<times> u64) list \<Rightarrow> u64 \<Rightarrow>
     (player_key \<times> 'a cache_entry) list \<times> (player_key \<times> u64) list \<times> u64" where
  "evict_loop max_entries entries [] evictions = (entries, [], evictions)"
| "evict_loop max_entries entries ((oldest, access) # order) evictions =
     (if length entries \<le> max_entries then (entries, (oldest, access) # order, evictions)
      else if (case map_of entries oldest of None \<Rightarrow> False | Some e \<Rightarrow> cen_access e = access)
      then evict_loop max_entries (map_remove oldest entries) order (evictions + 1)
      else evict_loop max_entries entries order evictions)"

definition player_cache_store ::
    "instant \<Rightarrow> player_key \<Rightarrow> 'a player_snapshot \<Rightarrow> 'a player_cache \<Rightarrow> (core_error + unit) \<times> 'a player_cache" where
  "player_cache_store now player snapshot c =
     (case player_key_validate player of
        Inl e \<Rightarrow> (Inl e, c)
      | Inr _ \<Rightarrow>
          (let access = pca_clock c; c = c\<lparr>pca_clock := pca_clock c + 1\<rparr>
           in if (case map_of (pca_entries c) player of None \<Rightarrow> False
                  | Some current \<Rightarrow> psn_version snapshot < psn_version (cen_snapshot current))
              then (Inl (InvalidConfig ''stale player snapshot''), c)
              else
                (let c = c\<lparr>pca_entries := hm_insert player
                       \<lparr>cen_snapshot = snapshot, cen_expires_at = now + pcc_ttl (pca_config c), cen_access = access\<rparr>
                       (pca_entries c)\<rparr>;
                     c = record_access player access c;
                     (entries, order, evictions) =
                       evict_loop (pcc_max_entries (pca_config c)) (pca_entries c) (pca_order c) (pca_evictions c)
                 in (Inr (), c\<lparr>pca_entries := entries, pca_order := order, pca_evictions := evictions\<rparr>))))"

definition player_cache_invalidate :: "player_key \<Rightarrow> u64 \<Rightarrow> 'a player_cache \<Rightarrow> bool \<times> 'a player_cache" where
  "player_cache_invalidate player minimum_version c =
     (if (case map_of (pca_entries c) player of None \<Rightarrow> False
          | Some entry \<Rightarrow> minimum_version = 0 \<or> psn_version (cen_snapshot entry) < minimum_version)
      then (True, c\<lparr>pca_entries := map_remove player (pca_entries c)\<rparr>)
      else (False, c))"

definition player_cache_len :: "instant \<Rightarrow> 'a player_cache \<Rightarrow> usize \<times> 'a player_cache" where
  "player_cache_len now c =
     (let c = c\<lparr>pca_entries := map_retain (\<lambda>_ entry. now < cen_expires_at entry) (pca_entries c)\<rparr>
      in (length (pca_entries c), c))"

definition player_cache_get_stats :: "'a player_cache \<Rightarrow> player_cache_stats" where
  "player_cache_get_stats c =
     \<lparr>pcs_hits = pca_hits c, pcs_misses = pca_misses c, pcs_loads = pca_load_count c, pcs_evictions = pca_evictions c\<rparr>"

text \<open>\<open>load\<close> up to the loader: a cached snapshot (or an error) or \<open>None\<close>, which means that the loader runs. The
second lookup is made under the lock of the player.\<close>

definition player_cache_load_begin ::
    "instant \<Rightarrow> instant \<Rightarrow> player_key \<Rightarrow> 'a player_cache \<Rightarrow> (core_error + 'a player_snapshot option) \<times> 'a player_cache" where
  "player_cache_load_begin now now' player c =
     (case player_key_validate player of
        Inl e \<Rightarrow> (Inl e, c)
      | Inr _ \<Rightarrow>
          (case player_cache_lookup now player c of
             (Some snapshot, c) \<Rightarrow> (Inr (Some snapshot), c\<lparr>pca_hits := pca_hits c + 1\<rparr>)
           | (None, c) \<Rightarrow>
               (case player_cache_lookup now' player (c\<lparr>pca_misses := pca_misses c + 1\<rparr>) of
                  (Some snapshot, c) \<Rightarrow> (Inr (Some snapshot), c)
                | (None, c) \<Rightarrow> (Inr None, c\<lparr>pca_load_count := pca_load_count c + 1\<rparr>))))"

text \<open>\<open>load\<close> from the result of the loader on.\<close>

definition player_cache_load_end ::
    "instant \<Rightarrow> player_key \<Rightarrow> core_error + 'a player_snapshot \<Rightarrow> 'a player_cache \<Rightarrow>
     (core_error + 'a player_snapshot) \<times> 'a player_cache" where
  "player_cache_load_end now player loaded c =
     (case loaded of
        Inl e \<Rightarrow> (Inl e, c)
      | Inr snapshot \<Rightarrow>
          (case player_cache_store now player snapshot c of
             (Inl e, c) \<Rightarrow> (Inl e, c)
           | (Inr _, c) \<Rightarrow> (Inr snapshot, c)))"

subsection \<open>Invalidation\<close>

definition INVALIDATION_SCHEMA_VERSION :: u32 where
  "INVALIDATION_SCHEMA_VERSION = 2"

record player_invalidation =
  piv_schema_version :: u32
  piv_namespace :: string
  piv_player :: player_key
  piv_minimum_version :: u64
  piv_source_id :: string

definition player_invalidation_validate :: "player_invalidation \<Rightarrow> core_error + unit" where
  "player_invalidation_validate i =
     (if piv_schema_version i \<noteq> INVALIDATION_SCHEMA_VERSION \<or> piv_namespace i = []
         \<or> player_key_validate (piv_player i) \<noteq> Inr () \<or> piv_source_id i = []
      then Inl (InvalidConfig ''invalid player cache invalidation'') else Inr ())"

record 'a player_cache_synchronizer =
  syn_cache :: "'a player_cache"
  syn_namespace :: string
  syn_source_id :: string

definition player_cache_synchronizer_new ::
    "'a player_cache \<Rightarrow> string \<Rightarrow> string \<Rightarrow> core_error + 'a player_cache_synchronizer" where
  "player_cache_synchronizer_new cache namespace source_id =
     (if namespace = [] \<or> source_id = []
      then Inl (InvalidConfig ''player cache namespace and source ID are required'')
      else Inr \<lparr>syn_cache = cache, syn_namespace = namespace, syn_source_id = source_id\<rparr>)"

definition synchronizer_message :: "'a player_cache_synchronizer \<Rightarrow> player_key \<Rightarrow> u64 \<Rightarrow> player_invalidation" where
  "synchronizer_message y player minimum_version =
     \<lparr>piv_schema_version = INVALIDATION_SCHEMA_VERSION, piv_namespace = syn_namespace y, piv_player = player,
      piv_minimum_version = minimum_version, piv_source_id = syn_source_id y\<rparr>"

definition store_committed ::
    "(player_invalidation \<Rightarrow> core_error + unit) \<Rightarrow> instant \<Rightarrow> player_key \<Rightarrow> 'a player_snapshot \<Rightarrow>
     'a player_cache_synchronizer \<Rightarrow> (core_error + unit) \<times> 'a player_cache_synchronizer" where
  "store_committed publish now player snapshot y =
     (case player_cache_store now player snapshot (syn_cache y) of
        (Inl e, cache) \<Rightarrow> (Inl e, y\<lparr>syn_cache := cache\<rparr>)
      | (Inr _, cache) \<Rightarrow>
          (publish (synchronizer_message y player (psn_version snapshot)), y\<lparr>syn_cache := cache\<rparr>))"

definition delete_committed ::
    "(player_invalidation \<Rightarrow> core_error + unit) \<Rightarrow> player_key \<Rightarrow> 'a player_cache_synchronizer \<Rightarrow>
     (core_error + unit) \<times> 'a player_cache_synchronizer" where
  "delete_committed publish player y =
     (case player_key_validate player of
        Inl e \<Rightarrow> (Inl e, y)
      | Inr _ \<Rightarrow>
          (publish (synchronizer_message y player 0),
           y\<lparr>syn_cache := snd (player_cache_invalidate player 0 (syn_cache y))\<rparr>))"

definition synchronizer_handle ::
    "player_invalidation \<Rightarrow> 'a player_cache_synchronizer \<Rightarrow> 'a player_cache_synchronizer" where
  "synchronizer_handle i y =
     (if player_invalidation_validate i = Inr () \<and> piv_namespace i = syn_namespace y \<and> piv_source_id i \<noteq> syn_source_id y
      then y\<lparr>syn_cache := snd (player_cache_invalidate (piv_player i) (piv_minimum_version i) (syn_cache y))\<rparr>
      else y)"

subsection \<open>Least recently used\<close>

abbreviation access_of :: "('a, 'b) player_cache_scheme \<Rightarrow> player_key \<Rightarrow> nat option" where
  "access_of c player \<equiv> map_option (\<lambda>e. unat (cen_access e)) (map_of (pca_entries c) player)"

text \<open>The order has the accesses ascending, and among them the last one of every entry.\<close>

definition lru_order :: "(player_key \<times> 'a cache_entry) list \<Rightarrow> (player_key \<times> u64) list \<Rightarrow> bool" where
  "lru_order entries order \<longleftrightarrow>
     hm_wf entries \<and> sorted_wrt (\<lambda>x y. snd x < snd y) order \<and>
     (\<forall>p e. map_of entries p = Some e \<longrightarrow> (p, cen_access e) \<in> set order)"

definition cache_inv :: "nat \<Rightarrow> 'a player_cache \<Rightarrow> bool" where
  "cache_inv n c \<longleftrightarrow>
     0 < pcc_max_entries (pca_config c) \<and> length (pca_entries c) \<le> pcc_max_entries (pca_config c) \<and>
     pca_clock c = of_nat n \<and> (\<forall>x \<in> set (pca_order c). unat (snd x) < n) \<and> lru_order (pca_entries c) (pca_order c)"

lemma lru_access_inj:
  assumes "lru_order entries order" "map_of entries p = Some e" "map_of entries q = Some f" "cen_access e = cen_access f"
  shows "p = q"
proof -
  have "(p, cen_access e) \<in> set order" "(q, cen_access f) \<in> set order" "sorted_wrt (\<lambda>x y. snd x < snd y) order"
    using assms(1-3) unfolding lru_order_def by blast+
  then show ?thesis
  proof (induction order)
    case (Cons x order)
    then show ?case using assms(4) by auto
  qed simp
qed

lemma sort_key_strict:
  "distinct (map snd xs) \<Longrightarrow> sorted_wrt (\<lambda>x y. snd x < snd y) (sort_key snd (xs :: ('k \<times> 'v::linorder) list))"
proof -
  assume d: "distinct (map snd xs)"
  have "distinct (map snd (sort_key snd xs))"
    using d by (simp add: distinct_map)
  then have "sorted_wrt (<) (map snd (sort_key snd xs))" by (simp add: strict_sorted_iff)
  then show ?thesis by (simp add: sorted_wrt_map)
qed

lemma lru_orderD:
  assumes "lru_order entries order"
  shows "hm_wf entries" "sorted_wrt (\<lambda>x y. snd x < snd y) order"
    "map_of entries p = Some e \<Longrightarrow> (p, cen_access e) \<in> set order"
  using assms unfolding lru_order_def by blast+

lemma lru_orderI:
  assumes "hm_wf entries" "sorted_wrt (\<lambda>x y. snd x < snd y) order"
    "\<And>p e. map_of entries p = Some e \<Longrightarrow> (p, cen_access e) \<in> set order"
  shows "lru_order entries order"
  using assms unfolding lru_order_def by blast

lemma lru_record_access:
  assumes lru: "lru_order (pca_entries c) (pca_order c @ [(player, access)])"
  shows "lru_order (pca_entries c) (pca_order (record_access player access c))"
    and "pca_entries (record_access player access c) = pca_entries c" "pca_config (record_access player access c) = pca_config c"
    and "pca_clock (record_access player access c) = pca_clock c"
    and "set (pca_order (record_access player access c)) \<subseteq> set (pca_order c @ [(player, access)])"
proof -
  let ?current = "map (\<lambda>(player, entry). (player, cen_access entry)) (pca_entries c)"
  note wf = lru_orderD(1) [OF lru]
  have current: "set ?current = {(p, cen_access e) | p e. map_of (pca_entries c) p = Some e}"
    using hm.in_set_iff [OF wf] by (auto simp: image_iff)
  have "inj_on (\<lambda>x. cen_access (snd x)) (set (pca_entries c))"
  proof (rule inj_onI)
    fix x y assume xy: "x \<in> set (pca_entries c)" "y \<in> set (pca_entries c)" "cen_access (snd x) = cen_access (snd y)"
    have get: "map_of (pca_entries c) (fst x) = Some (snd x)" "map_of (pca_entries c) (fst y) = Some (snd y)"
      using xy(1,2) hm.in_set_iff [OF wf, of "fst x" "snd x"] hm.in_set_iff [OF wf, of "fst y" "snd y"] by simp_all
    then have "fst x = fst y" using xy(3) by (rule lru_access_inj [OF lru])
    with get show "x = y" by (simp add: prod_eq_iff)
  qed
  then have "distinct (map snd ?current)"
    using wf by (auto simp: hm_wf_def distinct_map comp_def case_prod_beta)
  then have "sorted_wrt (\<lambda>x y. snd x < snd y) (sort_key snd ?current)" by (rule sort_key_strict)
  moreover have "(p, cen_access e) \<in> set (sort_key snd ?current)" if "map_of (pca_entries c) p = Some e" for p e
    using that unfolding set_sort current by blast
  ultimately have "lru_order (pca_entries c) (sort_key snd ?current)" using wf by (intro lru_orderI)
  with lru show "lru_order (pca_entries c) (pca_order (record_access player access c))"
    unfolding record_access_def Let_def by simp
  have "set ?current \<subseteq> set (pca_order c @ [(player, access)])"
    unfolding current using lru_orderD(3) [OF lru] by blast
  then have "set (sort_key snd ?current) \<subseteq> set (pca_order c @ [(player, access)])" by (simp only: set_sort)
  then show "set (pca_order (record_access player access c)) \<subseteq> set (pca_order c @ [(player, access)])"
    unfolding record_access_def Let_def by (simp split: if_split)
qed (simp_all add: record_access_def Let_def)

text \<open>The loop drops the entry with the least access.\<close>

lemma evict_loop_small: "length entries \<le> m \<Longrightarrow> evict_loop m entries order evictions = (entries, order, evictions)"
  by (cases order) auto

lemma evict_loop_drops:
  assumes "length entries = Suc m"
  shows "lru_order entries order \<Longrightarrow> \<exists>p e order' evictions'. map_of entries p = Some e \<and>
    (\<forall>q f. map_of entries q = Some f \<longrightarrow> cen_access e \<le> cen_access f) \<and>
    evict_loop m entries order evictions = (map_remove p entries, order', evictions') \<and>
    lru_order (map_remove p entries) order' \<and> set order' \<subseteq> set order"
proof (induction order arbitrary: evictions)
  case Nil
  obtain q f where "(q, f) \<in> set entries" using assms by (cases entries) auto
  then have "map_of entries q = Some f" by (simp only: hm.in_set_iff [OF lru_orderD(1) [OF Nil]])
  from lru_orderD(3) [OF Nil this] show ?case by simp
next
  case (Cons x order)
  obtain p a where x: "x = (p, a)" by fastforce
  note wf = lru_orderD(1) [OF Cons.prems]
  have sorted: "sorted_wrt (\<lambda>x y. snd x < snd y) order" "\<And>y. y \<in> set order \<Longrightarrow> a < snd y"
    using lru_orderD(2) [OF Cons.prems] by (simp_all add: x)
  have all: "q = p \<and> cen_access f = a \<or> (q, cen_access f) \<in> set order" if "map_of entries q = Some f" for q f
    using lru_orderD(3) [OF Cons.prems that] by (simp add: x)
  show ?case
  proof (cases "\<exists>e. map_of entries p = Some e \<and> cen_access e = a")
    case True
    then obtain e where e: "map_of entries p = Some e" "cen_access e = a" by blast
    have "length (map_remove p entries) = m" using hm.length_remove [OF wf, of p] e(1) assms by simp
    then have "evict_loop m entries (x # order) evictions = (map_remove p entries, order, evictions + 1)"
      using e assms by (simp add: x evict_loop_small)
    moreover have "lru_order (map_remove p entries) order"
    proof (rule lru_orderI)
      show "(q, cen_access f) \<in> set order" if "map_of (map_remove p entries) q = Some f" for q f
        using that all [of q f] by (simp add: map_of_remove split: if_splits)
    qed (rule hm.wf_remove [OF wf], rule sorted(1))
    moreover have "cen_access e \<le> cen_access f" if "map_of entries q = Some f" for q f
      using all [OF that] sorted(2) [of "(q, cen_access f)"] e(2) by (auto simp: less_imp_le)
    ultimately show ?thesis
      using e(1) by (intro exI [of _ p] exI [of _ e] exI [of _ order] exI [of _ "evictions + 1"] conjI) (assumption | simp | blast)+
  next
    case False
    have "lru_order entries order"
    proof (rule lru_orderI)
      show "(q, cen_access f) \<in> set order" if "map_of entries q = Some f" for q f using all [OF that] that False by blast
    qed (rule wf, rule sorted(1))
    note IH = Cons.IH [OF this, of evictions]
    have "evict_loop m entries (x # order) evictions = evict_loop m entries order evictions"
      using False assms by (simp add: x split: option.split)
    moreover obtain q f order' evictions' where "map_of entries q = Some f"
      "\<forall>r g. map_of entries r = Some g \<longrightarrow> cen_access f \<le> cen_access g"
      "evict_loop m entries order evictions = (map_remove q entries, order', evictions')"
      "lru_order (map_remove q entries) order'" "set order' \<subseteq> set order" using IH by blast
    ultimately show ?thesis
      by (intro exI [of _ q] exI [of _ f] exI [of _ order'] exI [of _ evictions'] conjI) (assumption | simp | blast)+
  qed
qed

lemma cache_invD:
  assumes "cache_inv n c"
  shows "0 < pcc_max_entries (pca_config c)" "length (pca_entries c) \<le> pcc_max_entries (pca_config c)"
    "pca_clock c = of_nat n" "x \<in> set (pca_order c) \<Longrightarrow> unat (snd x) < n" "lru_order (pca_entries c) (pca_order c)"
  using assms unfolding cache_inv_def by blast+

text \<open>An access at the current time goes to the end of the order.\<close>

lemma lru_append:
  assumes inv: "cache_inv n c" and "n < 2 ^ 64" and wf: "hm_wf entries"
    and mine: "\<And>e. map_of entries player = Some e \<Longrightarrow> cen_access e = pca_clock c"
    and others: "\<And>p e. p \<noteq> player \<Longrightarrow> map_of entries p = Some e \<Longrightarrow> map_of (pca_entries c) p = Some e"
  shows "lru_order entries (pca_order c @ [(player, pca_clock c)])"
proof (rule lru_orderI [OF wf])
  have "unat (pca_clock c) = n" using cache_invD(3) [OF inv] assms(2) by (simp add: unat_of_nat_u64)
  then show "sorted_wrt (\<lambda>x y. snd x < snd y) (pca_order c @ [(player, pca_clock c)])"
    using lru_orderD(2) [OF cache_invD(5) [OF inv]] cache_invD(4) [OF inv] by (simp add: sorted_wrt_append word_less_nat_alt)
  show "(p, cen_access e) \<in> set (pca_order c @ [(player, pca_clock c)])" if "map_of entries p = Some e" for p e
    using that mine [of e] others [of p e] lru_orderD(3) [OF cache_invD(5) [OF inv], of p e] by (cases "p = player") auto
qed

lemma cache_inv_subset:
  assumes inv: "cache_inv n c" and wf: "hm_wf entries" and len: "length entries \<le> length (pca_entries c)"
    and sub: "\<And>p e. map_of entries p = Some e \<Longrightarrow> map_of (pca_entries c) p = Some e"
  shows "cache_inv n (c\<lparr>pca_entries := entries\<rparr>)"
proof -
  have "lru_order entries (pca_order c)"
    using wf lru_orderD(2) [OF cache_invD(5) [OF inv]] lru_orderD(3) [OF cache_invD(5) [OF inv] sub] by (rule lru_orderI)
  then show ?thesis using cache_invD [OF inv] len unfolding cache_inv_def by simp
qed

lemma cache_inv_tick: "cache_inv n c \<Longrightarrow> cache_inv (Suc n) (c\<lparr>pca_clock := pca_clock c + 1\<rparr>)"
  unfolding cache_inv_def by (auto simp: less_Suc_eq)

lemma cache_inv_invalidate: "cache_inv n c \<Longrightarrow> cache_inv n (snd (player_cache_invalidate player v c))"
  using lru_orderD(1) [OF cache_invD(5), of n c]
  by (auto simp: player_cache_invalidate_def map_of_remove hm.map_laws hm.length_remove split: if_splits intro!: cache_inv_subset)

lemma cache_inv_len: "cache_inv n c \<Longrightarrow> cache_inv n (snd (player_cache_len now c))"
proof -
  assume inv: "cache_inv n c"
  note wf = lru_orderD(1) [OF cache_invD(5) [OF inv]]
  have "cache_inv n (c\<lparr>pca_entries := map_retain (\<lambda>_ entry. now < cen_expires_at entry) (pca_entries c)\<rparr>)"
  proof (rule cache_inv_subset [OF inv])
    show "length (map_retain (\<lambda>_ entry. now < cen_expires_at entry) (pca_entries c)) \<le> length (pca_entries c)"
      by (simp add: map_retain_def)
    show "map_of (pca_entries c) p = Some e"
      if "map_of (map_retain (\<lambda>_ entry. now < cen_expires_at entry) (pca_entries c)) p = Some e" for p e
      using that map_of_retain [OF wf [unfolded hm_wf_def]] by (auto split: option.splits if_splits)
  qed (rule hm_wf_retain [OF wf])
  then show ?thesis by (simp add: player_cache_len_def Let_def)
qed

text \<open>Recording the access of an entry that has been written with the current time.\<close>

lemma record_access_inv:
  fixes c :: "'a player_cache" and entries player
  defines "c' \<equiv> record_access player (pca_clock c) (c\<lparr>pca_clock := pca_clock c + 1, pca_entries := entries\<rparr>)"
  assumes inv: "cache_inv n c" and n: "n < 2 ^ 64" and wf: "hm_wf entries"
    and mine: "\<And>e. map_of entries player = Some e \<Longrightarrow> cen_access e = pca_clock c"
    and others: "\<And>p e. p \<noteq> player \<Longrightarrow> map_of entries p = Some e \<Longrightarrow> map_of (pca_entries c) p = Some e"
  shows "lru_order entries (pca_order c')" "x \<in> set (pca_order c') \<Longrightarrow> unat (snd x) < Suc n"
    "pca_entries c' = entries" "pca_config c' = pca_config c" "pca_clock c' = of_nat (Suc n)"
proof -
  let ?c = "c\<lparr>pca_clock := pca_clock c + 1, pca_entries := entries\<rparr>"
  have "lru_order (pca_entries ?c) (pca_order ?c @ [(player, pca_clock c)])"
    using lru_append [OF inv n wf mine others] by simp
  note rec = lru_record_access [OF this, folded c'_def]
  show "lru_order entries (pca_order c')" "pca_entries c' = entries" "pca_config c' = pca_config c" using rec(1-3) by simp_all
  show "pca_clock c' = of_nat (Suc n)" using rec(4) cache_invD(3) [OF inv] by simp
  have clock: "unat (pca_clock c) = n" using cache_invD(3) [OF inv] n by (simp add: unat_of_nat_u64)
  show "unat (snd x) < Suc n" if "x \<in> set (pca_order c')"
  proof -
    have "x \<in> set (pca_order c) \<or> x = (player, pca_clock c)" using subsetD [OF rec(5) that] by auto
    then show ?thesis using cache_invD(4) [OF inv, of x] clock by auto
  qed
qed

lemma cache_inv_lookup:
  assumes inv: "cache_inv n c" and n: "n < 2 ^ 64"
  shows "cache_inv (Suc n) (snd (player_cache_lookup now player c))"
proof -
  let ?c = "c\<lparr>pca_clock := pca_clock c + 1\<rparr>"
  note wf = lru_orderD(1) [OF cache_invD(5) [OF inv]]
  consider (missing) "map_of (pca_entries c) player = None"
    | (expired) entry where "map_of (pca_entries c) player = Some entry" "cen_expires_at entry \<le> now"
    | (hit) entry where "map_of (pca_entries c) player = Some entry" "\<not> cen_expires_at entry \<le> now"
    by (cases "map_of (pca_entries c) player") auto
  then show ?thesis
  proof cases
    case missing
    then show ?thesis using cache_inv_tick [OF inv] by (simp add: player_cache_lookup_def Let_def)
  next
    case expired
    have "cache_inv (Suc n) (?c\<lparr>pca_entries := map_remove player (pca_entries c)\<rparr>)"
      by (rule cache_inv_subset [OF cache_inv_tick [OF inv]])
        (use wf in \<open>auto simp: hm.map_laws hm.length_remove split: if_splits\<close>)
    then show ?thesis using expired by (simp add: player_cache_lookup_def Let_def)
  next
    case hit
    let ?entries = "map_adjust player (\<lambda>e. e\<lparr>cen_access := pca_clock c\<rparr>) (pca_entries c)"
    have "hm_wf ?entries" using wf by (simp add: hm_wf_def)
    moreover have "map_of ?entries p = Some e \<Longrightarrow> p \<noteq> player \<Longrightarrow> map_of (pca_entries c) p = Some e"
      "map_of ?entries player = Some e \<Longrightarrow> cen_access e = pca_clock c" for p e
      using hit by (auto simp: map_of_adjust)
    ultimately have rec: "cache_inv (Suc n) (record_access player (pca_clock c) (c\<lparr>pca_clock := pca_clock c + 1, pca_entries := ?entries\<rparr>))"
      using record_access_inv [OF inv n, of ?entries player] cache_invD(1,2) [OF inv] unfolding cache_inv_def by simp
    then show ?thesis using hit by (simp add: player_cache_lookup_def Let_def)
  qed
qed

text \<open>The entry of a player that a store into a full cache drops.\<close>

definition least_recent :: "'a player_cache \<Rightarrow> player_key \<Rightarrow> bool" where
  "least_recent c p \<longleftrightarrow>
     (\<exists>e. map_of (pca_entries c) p = Some e \<and> (\<forall>q f. map_of (pca_entries c) q = Some f \<longrightarrow> cen_access e \<le> cen_access f))"

definition stored_entry :: "instant \<Rightarrow> 'a player_snapshot \<Rightarrow> 'a player_cache \<Rightarrow> 'a cache_entry" where
  "stored_entry now snapshot c =
     \<lparr>cen_snapshot = snapshot, cen_expires_at = now + pcc_ttl (pca_config c), cen_access = pca_clock c\<rparr>"

definition store_evicts :: "'a player_cache \<Rightarrow> player_key \<Rightarrow> bool" where
  "store_evicts c player \<longleftrightarrow> map_of (pca_entries c) player = None \<and> length (pca_entries c) = pcc_max_entries (pca_config c)"

lemma store_inserted:
  assumes inv: "cache_inv n c" and n: "n < 2 ^ 64"
    and entries: "entries = hm_insert player (stored_entry now snapshot c) (pca_entries c)"
    and c1: "c1 = record_access player (pca_clock c) (c\<lparr>pca_clock := pca_clock c + 1, pca_entries := entries\<rparr>)"
  shows "lru_order entries (pca_order c1)" "x \<in> set (pca_order c1) \<Longrightarrow> unat (snd x) < Suc n"
    "pca_entries c1 = entries" "pca_config c1 = pca_config c" "pca_clock c1 = of_nat (Suc n)"
    and "store_evicts c player \<Longrightarrow> length entries = Suc (pcc_max_entries (pca_config c))"
    and "\<not> store_evicts c player \<Longrightarrow> length entries \<le> pcc_max_entries (pca_config c)"
proof -
  note wf = lru_orderD(1) [OF cache_invD(5) [OF inv]]
  have wf': "hm_wf entries" unfolding entries by (rule hm.wf_insert [OF wf])
  have get: "map_of entries = (map_of (pca_entries c))(player \<mapsto> stored_entry now snapshot c)"
    unfolding entries by (rule hm.get_insert [OF wf])
  have mine: "cen_access e = pca_clock c" if "map_of entries player = Some e" for e
    using that by (auto simp: get stored_entry_def)
  have others: "map_of (pca_entries c) p = Some e" if "p \<noteq> player" "map_of entries p = Some e" for p e
    using that by (simp add: get)
  show "lru_order entries (pca_order c1)" unfolding c1
    by (rule record_access_inv(1) [OF inv n wf']) (erule mine, erule (1) others)
  show "pca_entries c1 = entries" "pca_config c1 = pca_config c" by (simp_all add: c1 record_access_def Let_def)
  show "pca_clock c1 = of_nat (Suc n)" using cache_invD(3) [OF inv] by (simp add: c1 record_access_def Let_def)
  show "unat (snd x) < Suc n" if "x \<in> set (pca_order c1)"
    by (rule record_access_inv(2) [OF inv n wf' _ _ that [unfolded c1]]) (erule mine, erule (1) others)
  show "store_evicts c player \<Longrightarrow> length entries = Suc (pcc_max_entries (pca_config c))"
    unfolding entries store_evicts_def by (simp add: hm.length_insert [OF wf])
  show "\<not> store_evicts c player \<Longrightarrow> length entries \<le> pcc_max_entries (pca_config c)"
    using cache_invD(2) [OF inv] unfolding entries store_evicts_def by (auto simp: hm.length_insert [OF wf])
qed

lemma evicted_is_least_recent:
  assumes inv: "cache_inv n c" and n: "n < 2 ^ 64" and full: "store_evicts c player"
    and p: "map_of (hm_insert player (stored_entry now snapshot c) (pca_entries c)) p = Some e"
    and least: "\<And>q f. map_of (hm_insert player (stored_entry now snapshot c) (pca_entries c)) q = Some f \<Longrightarrow> cen_access e \<le> cen_access f"
  shows "p \<noteq> player \<and> least_recent c p"
proof -
  note wf = lru_orderD(1) [OF cache_invD(5) [OF inv]]
  have old: "cen_access f < pca_clock c" if "map_of (pca_entries c) q = Some f" for q f
    using cache_invD(4) [OF inv lru_orderD(3) [OF cache_invD(5) [OF inv] that]] cache_invD(3) [OF inv] n
    by (simp add: word_less_nat_alt unat_of_nat_u64)
  have "pca_entries c \<noteq> []" using full cache_invD(1) [OF inv] by (auto simp: store_evicts_def)
  then obtain x where x: "x \<in> set (pca_entries c)" by (cases "pca_entries c") auto
  obtain q f where qf: "map_of (pca_entries c) q = Some f"
    using x hm.in_set_iff [OF wf, of "fst x" "snd x"] by auto
  have "q \<noteq> player" using qf full by (auto simp: store_evicts_def)
  then have "cen_access e \<le> cen_access f" using least [of q f] qf wf by (simp add: hm.map_laws)
  then have "cen_access e < pca_clock c" using old [OF qf] by (rule order_le_less_trans)
  then have "p \<noteq> player" using p wf by (auto simp: hm.map_laws stored_entry_def)
  moreover have "map_of (pca_entries c) p = Some e" using p wf calculation by (simp add: hm.map_laws)
  moreover have "cen_access e \<le> cen_access g" if "map_of (pca_entries c) r = Some g" for r g
    using least [of r g] that full wf by (cases "r = player") (auto simp: hm.map_laws store_evicts_def)
  ultimately show ?thesis unfolding least_recent_def by blast
qed

lemma store_spec:
  assumes inv: "cache_inv n c" and n: "n < 2 ^ 64" and "player_key_validate player = Inr ()"
    and fresh: "\<And>current. map_of (pca_entries c) player = Some current \<Longrightarrow>
      psn_version (cen_snapshot current) \<le> psn_version snapshot"
  obtains c' entries where "player_cache_store now player snapshot c = (Inr (), c')" "cache_inv (Suc n) c'"
    "entries = hm_insert player (stored_entry now snapshot c) (pca_entries c)" "pca_config c' = pca_config c"
    "if store_evicts c player then \<exists>p. p \<noteq> player \<and> least_recent c p \<and> pca_entries c' = map_remove p entries
     else pca_entries c' = entries"
proof -
  define entries where "entries = hm_insert player (stored_entry now snapshot c) (pca_entries c)"
  define c1 where "c1 = record_access player (pca_clock c) (c\<lparr>pca_clock := pca_clock c + 1, pca_entries := entries\<rparr>)"
  note ins = store_inserted [OF inv n entries_def c1_def]
  let ?max = "pcc_max_entries (pca_config c)"
  obtain es order evictions where loop: "evict_loop ?max entries (pca_order c1) (pca_evictions c1) = (es, order, evictions)"
    by (cases "evict_loop ?max entries (pca_order c1) (pca_evictions c1)")
  have run: "player_cache_store now player snapshot c =
      (Inr (), c1\<lparr>pca_entries := es, pca_order := order, pca_evictions := evictions\<rparr>)"
  proof -
    have "\<not> (case map_of (pca_entries c) player of None \<Rightarrow> False
        | Some current \<Rightarrow> psn_version snapshot < psn_version (cen_snapshot current))"
      using fresh by (simp add: not_less split: option.split)
    moreover have "c1 = record_access player (pca_clock c) (c\<lparr>pca_clock := pca_clock c + 1, pca_entries := hm_insert player
        \<lparr>cen_snapshot = snapshot, cen_expires_at = now + pcc_ttl (pca_config c), cen_access = pca_clock c\<rparr> (pca_entries c)\<rparr>)"
      by (simp add: c1_def entries_def stored_entry_def)
    ultimately show ?thesis
      using assms(3) loop ins(3,4) unfolding player_cache_store_def Let_def by simp
  qed
  have "lru_order es order \<and> length es \<le> ?max \<and> set order \<subseteq> set (pca_order c1) \<and>
    (if store_evicts c player then \<exists>p. p \<noteq> player \<and> least_recent c p \<and> es = map_remove p entries else es = entries)"
  proof (cases "store_evicts c player")
    case False
    with loop ins(1,7) show ?thesis by (simp add: evict_loop_small)
  next
    case True
    then have len: "length entries = Suc ?max" by (rule ins(6))
    obtain p e order' evictions' where drop: "map_of entries p = Some e"
      "\<forall>q f. map_of entries q = Some f \<longrightarrow> cen_access e \<le> cen_access f"
      "evict_loop ?max entries (pca_order c1) (pca_evictions c1) = (map_remove p entries, order', evictions')"
      "lru_order (map_remove p entries) order'" "set order' \<subseteq> set (pca_order c1)"
      using evict_loop_drops [OF len ins(1)] by metis
    have "p \<noteq> player \<and> least_recent c p"
      by (rule evicted_is_least_recent [OF inv n True drop(1) [unfolded entries_def]])
        (use drop(2) in \<open>simp add: entries_def\<close>)
    moreover have "length (map_remove p entries) = ?max"
      using hm.length_remove [OF lru_orderD(1) [OF ins(1)], of p] drop(1) len by simp
    ultimately show ?thesis using loop drop(3-5) True by auto
  qed
  then have spec: "lru_order es order" "length es \<le> ?max" "set order \<subseteq> set (pca_order c1)"
    "if store_evicts c player then \<exists>p. p \<noteq> player \<and> least_recent c p \<and> es = map_remove p entries else es = entries" by blast+
  have "cache_inv (Suc n) (c1\<lparr>pca_entries := es, pca_order := order, pca_evictions := evictions\<rparr>)"
    using spec(1-3) ins(2,4,5) cache_invD(1) [OF inv] unfolding cache_inv_def by auto
  with spec(4) ins(4) show thesis by (intro that [OF run _ entries_def]) simp_all
qed

lemma cache_inv_store:
  assumes inv: "cache_inv n c" and n: "n < 2 ^ 64" and key: "player_key_validate player = Inr ()"
  shows "cache_inv (Suc n) (snd (player_cache_store now player snapshot c))"
proof (cases "\<exists>current. map_of (pca_entries c) player = Some current \<and> psn_version snapshot < psn_version (cen_snapshot current)")
  case True
  then show ?thesis using cache_inv_tick [OF inv] key by (auto simp: player_cache_store_def Let_def)
next
  case False
  then have "psn_version (cen_snapshot current) \<le> psn_version snapshot" if "map_of (pca_entries c) player = Some current" for current
    using that by (auto simp: not_less)
  from store_spec [OF inv n key this] show ?thesis by (metis snd_conv)
qed

text \<open>The caches that calls can make, with the number of accesses so far. The counters of hits, misses and loads are free.\<close>

inductive cache_reachable :: "player_cache_config \<Rightarrow> nat \<Rightarrow> 'a player_cache \<Rightarrow> bool" for config where
  cache_init: "player_cache_new config = Inr c \<Longrightarrow> cache_reachable config 0 c"
| cache_lookup: "cache_reachable config n c \<Longrightarrow> n < 2 ^ 64 \<Longrightarrow>
    cache_reachable config (Suc n) (snd (player_cache_lookup now player c))"
| cache_store: "cache_reachable config n c \<Longrightarrow> n < 2 ^ 64 \<Longrightarrow> player_key_validate player = Inr () \<Longrightarrow>
    cache_reachable config (Suc n) (snd (player_cache_store now player snapshot c))"
| cache_invalidate: "cache_reachable config n c \<Longrightarrow> cache_reachable config n (snd (player_cache_invalidate player v c))"
| cache_len: "cache_reachable config n c \<Longrightarrow> cache_reachable config n (snd (player_cache_len now c))"
| cache_count: "cache_reachable config n c \<Longrightarrow>
    cache_reachable config n (c\<lparr>pca_hits := hits, pca_misses := misses, pca_load_count := loads\<rparr>)"

lemma config_kept:
  "pca_config (snd (player_cache_lookup now player c)) = pca_config c"
  "pca_config (snd (player_cache_store now player snapshot c)) = pca_config c"
  "pca_config (snd (player_cache_invalidate player v c)) = pca_config c"
  "pca_config (snd (player_cache_len now c)) = pca_config c"
  by (auto simp: player_cache_lookup_def player_cache_store_def player_cache_invalidate_def player_cache_len_def
      record_access_def Let_def split: option.splits sum.splits prod.splits)

lemma cache_reachable_inv: "cache_reachable config n c \<Longrightarrow> cache_inv n c \<and> pca_config c = config"
proof (induction rule: cache_reachable.induct)
  case (cache_init c)
  then show ?case by (auto simp: player_cache_new_def cache_inv_def lru_order_def hm_wf_def split: if_splits)
next
  case (cache_count n c hits misses loads)
  then show ?case by (auto simp: cache_inv_def)
qed (simp_all add: config_kept cache_inv_lookup cache_inv_store cache_inv_invalidate cache_inv_len)

text \<open>C26. The cache stays within its bound and drops the least recently used player. A store of a snapshot that is not older than the
cached one succeeds, the player is then cached with it, and every other player as before, except that when the cache was
full and the player new, exactly one player leaves, and none of the others was accessed before it.
An older snapshot is refused and the entries stay as they are.\<close>

theorem player_cache_lru:
  assumes "cache_reachable config n c" "n < 2 ^ 64" and key: "player_key_validate player = Inr ()"
  shows "case player_cache_store now player snapshot c of (result, c') \<Rightarrow>
    length (pca_entries c') \<le> pcc_max_entries config \<and>
    (if \<exists>current. map_of (pca_entries c) player = Some current \<and> psn_version snapshot < psn_version (cen_snapshot current)
     then result = Inl (InvalidConfig ''stale player snapshot'') \<and> pca_entries c' = pca_entries c
     else result = Inr () \<and>
       (\<exists>gone. map_of (pca_entries c') =
           (map_of (pca_entries c))(player \<mapsto> stored_entry now snapshot c) |` (- gone) \<and>
         (if store_evicts c player then \<exists>p. gone = {p} \<and> p \<noteq> player \<and> least_recent c p else gone = {})))"
proof -
  have inv: "cache_inv n c" and config: "pca_config c = config" using cache_reachable_inv [OF assms(1)] by auto
  show ?thesis
  proof (cases "\<exists>current. map_of (pca_entries c) player = Some current \<and> psn_version snapshot < psn_version (cen_snapshot current)")
    case True
    then show ?thesis using cache_invD(2) [OF inv] config key by (auto simp: player_cache_store_def Let_def)
  next
    case False
    then have "psn_version (cen_snapshot current) \<le> psn_version snapshot"
      if "map_of (pca_entries c) player = Some current" for current using that by (auto simp: not_less)
    then obtain c' where c': "player_cache_store now player snapshot c = (Inr (), c')" "cache_inv (Suc n) c'" "pca_config c' = config"
      and evict: "if store_evicts c player
        then \<exists>p. p \<noteq> player \<and> least_recent c p \<and>
          pca_entries c' = map_remove p (hm_insert player (stored_entry now snapshot c) (pca_entries c))
        else pca_entries c' = hm_insert player (stored_entry now snapshot c) (pca_entries c)"
      using store_spec [OF inv assms(2) key] config by metis
    have get: "map_of (hm_insert player (stored_entry now snapshot c) (pca_entries c)) =
        (map_of (pca_entries c))(player \<mapsto> stored_entry now snapshot c)"
      by (rule hm.get_insert [OF lru_orderD(1) [OF cache_invD(5) [OF inv]]])
    have "\<exists>gone. map_of (pca_entries c') = (map_of (pca_entries c))(player \<mapsto> stored_entry now snapshot c) |` (- gone) \<and>
        (if store_evicts c player then \<exists>p. gone = {p} \<and> p \<noteq> player \<and> least_recent c p else gone = {})"
    proof (cases "store_evicts c player")
      case True
      then obtain p where "p \<noteq> player" "least_recent c p"
        "pca_entries c' = map_remove p (hm_insert player (stored_entry now snapshot c) (pca_entries c))" using evict by auto
      then show ?thesis
        using True by (intro exI [of _ "{p}"]) (auto simp: map_of_remove get restrict_map_def fun_eq_iff)
    next
      case False
      then show ?thesis using evict get by (intro exI [of _ "{}"]) (auto simp: restrict_map_def fun_eq_iff)
    qed
    with False c' cache_invD(2) [OF c'(2)] show ?thesis by auto
  qed
qed

definition cache_player :: "i64 \<Rightarrow> player_key" where
  "cache_player user = \<lparr>pk_region_id = 1, pk_realm_id = 1, pk_user_id = user\<rparr>"

definition cache_example :: "nat player_cache" where
  "cache_example = snd (player_cache_store 0 (cache_player 7) \<lparr>psn_value = 70, psn_version = 1\<rparr>
     \<lparr>pca_config = \<lparr>pcc_ttl = 9, pcc_max_entries = 1\<rparr>, pca_entries = [], pca_order = [], pca_clock = 0, pca_hits = 0,
      pca_misses = 0, pca_load_count = 0, pca_evictions = 0\<rparr>)"

lemma cache_example_reachable: "cache_reachable \<lparr>pcc_ttl = 9, pcc_max_entries = 1\<rparr> (Suc 0) cache_example"
  unfolding cache_example_def
  by (rule cache_store [OF cache_init]) (simp_all add: player_cache_new_def player_key_validate_def cache_player_def)

theorem player_cache_lru_witness:
  "case player_cache_store 1 (cache_player 8) \<lparr>psn_value = 80, psn_version = 1\<rparr> cache_example of (result, c') \<Rightarrow>
     length (pca_entries c') \<le> 1 \<and> map fst (pca_entries c') = [cache_player 8]"
proof -
  have "case player_cache_store 1 (cache_player 8) \<lparr>psn_value = 80, psn_version = 1\<rparr> cache_example of (result, c') \<Rightarrow>
      map fst (pca_entries c') = [cache_player 8]" by code_simp
  then show ?thesis
    using player_cache_lru [OF cache_example_reachable, of "cache_player 8" "\<lparr>psn_value = 80, psn_version = 1\<rparr>" 1]
    by (auto simp: player_key_validate_def cache_player_def)
qed

subsection \<open>Invalidation by other worlds\<close>

text \<open>A message that another world has committed a version leaves no older snapshot in the cache.\<close>

lemma handle_drops_older:
  assumes "player_invalidation_validate i = Inr ()" "piv_namespace i = syn_namespace y" "piv_source_id i \<noteq> syn_source_id y"
    and "map_of (pca_entries (syn_cache (synchronizer_handle i y))) (piv_player i) = Some e"
  shows "piv_minimum_version i \<noteq> 0 \<and> piv_minimum_version i \<le> psn_version (cen_snapshot e)"
  using assms
  by (auto simp: synchronizer_handle_def player_cache_invalidate_def map_of_remove not_less split: if_splits option.splits)

text \<open>A message of a committed version reaches exactly the other members of its namespace.\<close>

lemma store_committed_message:
  assumes "player_key_validate player = Inr ()" "syn_namespace y \<noteq> []" "syn_source_id y \<noteq> []"
  shows "player_invalidation_validate (synchronizer_message y player v) = Inr ()"
    and "synchronizer_handle (synchronizer_message y player v) y = y"
  using assms by (simp_all add: player_invalidation_validate_def synchronizer_message_def synchronizer_handle_def)

text \<open>An invalidation that arrives while a loader runs is lost: the cache has nothing to drop yet, and the snapshot that the
loader has read before is stored and served afterwards, although it is older than what the message announced.\<close>

lemma player_cache_stale_load:
  "case player_cache_load_begin 0 0 (cache_player 7)
     (\<lparr>pca_config = \<lparr>pcc_ttl = 9, pcc_max_entries = 1\<rparr>, pca_entries = [], pca_order = [], pca_clock = 0, pca_hits = 0,
      pca_misses = 0, pca_load_count = 0, pca_evictions = 0\<rparr> :: nat player_cache) of
     (begun, c) \<Rightarrow>
       (case player_cache_invalidate (cache_player 7) 2 c of
          (_, c) \<Rightarrow>
            (case player_cache_load_end 1 (cache_player 7) (Inr \<lparr>psn_value = 70, psn_version = 1\<rparr>) c of
               (_, c) \<Rightarrow> begun = Inr None \<and>
                 map_option psn_version (fst (player_cache_lookup 2 (cache_player 7) c)) = Some 1))"
  by code_simp

end
