(* ===== verification/Presence.thy ===== *)
theory Presence
  imports Session Collections "HOL-Library.List_Lexorder" "HOL-Library.Char_ord"
begin

section \<open>Who is online\<close>

text \<open>
  Model of \<open>crates/elura-gateway/src/presence.rs\<close>, the in-memory directory of online sessions with
  its login and capacity policy, and of the push requests of \<open>elura-core/src/push.rs\<close> that are routed by it. A
  \<open>HashSet\<close> is a list without repetitions. The clock is an argument; a poisoned mutex is a flag.
\<close>

subsection \<open>Push requests\<close>

datatype push_target =
    SessionTarget uuid
  | User i64
  | Users "i64 list"
  | Realm
  | Topic string
  | JoinTopic uuid string
  | LeaveTopic uuid string
  | Disconnect uuid

record push_request =
  pr_region_id :: u32
  pr_realm_id :: u32
  pr_target :: push_target
  pr_route :: u32
  pr_sequence :: u32
  pr_trace_id :: string
  pr_payload :: bytes

record push_receipt =
  prc_accepted :: bool
  prc_delivered :: u32
  prc_sequence :: u32
  prc_trace_id :: string

definition valid_topic :: "string \<Rightarrow> bool" where
  "valid_topic topic \<longleftrightarrow>
     topic \<noteq> [] \<and> length topic \<le> 128 \<and>
     list_all (\<lambda>b. is_ascii_alphanumeric b \<or> b \<in> {CHR ''-'', CHR ''_'', CHR ''.'', CHR '':''}) topic"

fun valid_target :: "push_target \<Rightarrow> bool" where
  "valid_target (SessionTarget u) = (u \<noteq> 0)"
| "valid_target (Disconnect u) = (u \<noteq> 0)"
| "valid_target (User _) = True"
| "valid_target Realm = True"
| "valid_target (Users users) = (users \<noteq> [] \<and> length users \<le> 1024)"
| "valid_target (Topic topic) = valid_topic topic"
| "valid_target (JoinTopic session_id topic) = (session_id \<noteq> 0 \<and> valid_topic topic)"
| "valid_target (LeaveTopic session_id topic) = (session_id \<noteq> 0 \<and> valid_topic topic)"

definition push_request_validate :: "push_request \<Rightarrow> core_error + unit" where
  "push_request_validate r =
     (let control = (case pr_target r of JoinTopic _ _ \<Rightarrow> True | LeaveTopic _ _ \<Rightarrow> True | Disconnect _ \<Rightarrow> True | _ \<Rightarrow> False)
      in if pr_region_id r = 0 \<or> pr_realm_id r = 0 \<or> (\<not> control \<and> pr_route r = 0)
            \<or> 128 < length (pr_trace_id r) \<or> 1024 * 1024 < length (pr_payload r) \<or> \<not> valid_target (pr_target r)
         then Inl (InvalidConfig ''invalid push'') else Inr ())"

definition push_receipt_accepted :: "push_request \<Rightarrow> u32 \<Rightarrow> push_receipt" where
  "push_receipt_accepted r delivered =
     \<lparr>prc_accepted = True, prc_delivered = delivered, prc_sequence = pr_sequence r, prc_trace_id = pr_trace_id r\<rparr>"

subsection \<open>Leases and policy\<close>

record session_lease =
  sl_session_id :: uuid
  sl_gateway_id :: string
  sl_identity :: identity
  sl_expires_at :: instant

record online_stats =
  os_session_count :: u64
  os_user_count :: u64

datatype duplicate_login_mode = AllowMultiple | RejectNew | KickExisting

record online_admission_policy =
  oap_duplicate_login :: duplicate_login_mode
  oap_max_sessions :: "u64 option"

definition online_admission_policy_new ::
    "duplicate_login_mode \<Rightarrow> u64 option \<Rightarrow> core_error + online_admission_policy" where
  "online_admission_policy_new duplicate_login max_sessions =
     (if max_sessions = Some 0 then Inl (InvalidConfig ''online realm capacity must be positive'')
      else Inr \<lparr>oap_duplicate_login = duplicate_login, oap_max_sessions = max_sessions\<rparr>)"

datatype online_admission = Accepted "uuid option" | Duplicate | RealmFull

subsection \<open>The directory in memory\<close>

record memory_online =
  mon_sessions :: "(uuid \<times> session_lease) list"
  mon_groups :: "(string \<times> uuid list) list"
  mon_single :: "((u32 \<times> u32 \<times> i64) \<times> uuid) list"
  mon_capacity :: "((u32 \<times> u32) \<times> uuid list) list"
  mon_poisoned :: bool

definition memory_online_default :: memory_online where
  "memory_online_default =
     \<lparr>mon_sessions = [], mon_groups = [], mon_single = [], mon_capacity = [], mon_poisoned = False\<rparr>"

text \<open>The sets of a map of sets, without the members that are not live and without empty sets.\<close>

definition retain_live :: "uuid list \<Rightarrow> ('k \<times> uuid list) list \<Rightarrow> ('k \<times> uuid list) list" where
  "retain_live live m =
     filter (\<lambda>(_, ids). ids \<noteq> []) (map (\<lambda>(k, ids). (k, filter (\<lambda>u. u \<in> set live) ids)) m)"

definition memory_online_purge :: "instant \<Rightarrow> memory_online \<Rightarrow> memory_online" where
  "memory_online_purge now s =
     (let sessions = map_retain (\<lambda>_ lease. now < sl_expires_at lease) (mon_sessions s);
          live = map fst sessions
      in s\<lparr>mon_sessions := sessions,
           mon_groups := retain_live live (mon_groups s),
           mon_single := map_retain (\<lambda>_ u. u \<in> set live) (mon_single s),
           mon_capacity := retain_live live (mon_capacity s)\<rparr>)"

definition set_of_key :: "('k \<times> 'a list) list \<Rightarrow> 'k \<Rightarrow> 'a list" where
  "set_of_key m k = (case map_of m k of None \<Rightarrow> [] | Some xs \<Rightarrow> xs)"

definition lease_user_key :: "session_lease \<Rightarrow> u32 \<times> u32 \<times> i64" where
  "lease_user_key lease =
     (id_region_id (sl_identity lease), id_realm_id (sl_identity lease), id_user_id (sl_identity lease))"

definition lease_realm_key :: "session_lease \<Rightarrow> u32 \<times> u32" where
  "lease_realm_key lease = (id_region_id (sl_identity lease), id_realm_id (sl_identity lease))"

definition memory_online_acquire ::
    "instant \<Rightarrow> session_lease \<Rightarrow> online_admission_policy \<Rightarrow> memory_online \<Rightarrow>
     (core_error + online_admission) \<times> memory_online" where
  "memory_online_acquire now lease policy s =
     (case identity_validate (sl_identity lease) of
        Inl e \<Rightarrow> (Inl e, s)
      | Inr _ \<Rightarrow>
     (case online_admission_policy_new (oap_duplicate_login policy) (oap_max_sessions policy) of
        Inl e \<Rightarrow> (Inl e, s)
      | Inr policy \<Rightarrow>
          if mon_poisoned s then (Inl (Internal ''online directory poisoned''), s)
          else
            (let s = memory_online_purge now s;
                 session_id = sl_session_id lease;
                 previous = (case map_of (mon_single s) (lease_user_key lease) of
                     None \<Rightarrow> None | Some u \<Rightarrow> if u \<noteq> session_id then Some u else None)
             in if oap_duplicate_login policy = RejectNew \<and> previous \<noteq> None then (Inr Duplicate, s)
                else
                  (let slots = set_of_key (mon_capacity s) (lease_realm_key lease);
                       s = s\<lparr>mon_capacity := hm_insert (lease_realm_key lease) slots (mon_capacity s)\<rparr>;
                       transfers_slot = (oap_duplicate_login policy = KickExisting \<and>
                          (case previous of None \<Rightarrow> False | Some u \<Rightarrow> u \<in> set slots));
                       used = length slots - (if transfers_slot then 1 else 0)
                   in if session_id \<notin> set slots
                         \<and> (case oap_max_sessions policy of None \<Rightarrow> False | Some m \<Rightarrow> unat m \<le> used)
                      then (Inr RealmFull, s)
                      else
                        (let s = (if oap_duplicate_login policy = AllowMultiple then s
                                  else s\<lparr>mon_single := hm_insert (lease_user_key lease) session_id (mon_single s)\<rparr>);
                             slots = (case previous of
                                 Some u \<Rightarrow> if transfers_slot then removeAll u slots else slots | None \<Rightarrow> slots);
                             slots = List.insert session_id slots
                         in (Inr (Accepted (if oap_duplicate_login policy = KickExisting then previous else None)),
                             s\<lparr>mon_capacity := hm_insert (lease_realm_key lease) slots (mon_capacity s),
                               mon_sessions := hm_insert session_id lease (mon_sessions s)\<rparr>))))))"

definition memory_online_renew ::
    "instant \<Rightarrow> session_lease \<Rightarrow> memory_online \<Rightarrow> (core_error + unit) \<times> memory_online" where
  "memory_online_renew now lease s =
     (case identity_validate (sl_identity lease) of
        Inl e \<Rightarrow> (Inl e, s)
      | Inr _ \<Rightarrow>
          if mon_poisoned s then (Inl (Internal ''online directory poisoned''), s)
          else
            (let s = memory_online_purge now s
             in case map_of (mon_sessions s) (sl_session_id lease) of
                  None \<Rightarrow> (Inl SessionRevoked, s)
                | Some current \<Rightarrow>
                    if sl_gateway_id current = sl_gateway_id lease
                    then (Inr (), s\<lparr>mon_sessions := hm_insert (sl_session_id lease) lease (mon_sessions s)\<rparr>)
                    else (Inl SessionRevoked, s)))"

definition memory_online_unregister :: "session_lease \<Rightarrow> memory_online \<Rightarrow> (core_error + unit) \<times> memory_online" where
  "memory_online_unregister lease s =
     (if mon_poisoned s then (Inl (Internal ''online directory poisoned''), s)
      else case map_of (mon_sessions s) (sl_session_id lease) of
        None \<Rightarrow> (Inr (), s)
      | Some current \<Rightarrow>
          if sl_gateway_id current \<noteq> sl_gateway_id lease then (Inr (), s)
          else
            (let session_id = sl_session_id lease
             in (Inr (), s\<lparr>mon_sessions := map_remove session_id (mon_sessions s),
                   mon_groups := map (\<lambda>(g, ids). (g, removeAll session_id ids)) (mon_groups s),
                   mon_capacity := map_adjust (lease_realm_key lease) (removeAll session_id) (mon_capacity s),
                   mon_single := (if map_of (mon_single s) (lease_user_key lease) = Some session_id
                      then map_remove (lease_user_key lease) (mon_single s) else mon_single s)\<rparr>)))"

definition memory_online_session ::
    "instant \<Rightarrow> uuid \<Rightarrow> memory_online \<Rightarrow> (core_error + session_lease option) \<times> memory_online" where
  "memory_online_session now session_id s =
     (if mon_poisoned s then (Inl (Internal ''online directory poisoned''), s)
      else (let s = memory_online_purge now s in (Inr (map_of (mon_sessions s) session_id), s)))"

definition memory_online_user_sessions ::
    "instant \<Rightarrow> u32 \<Rightarrow> u32 \<Rightarrow> i64 \<Rightarrow> memory_online \<Rightarrow> (core_error + session_lease list) \<times> memory_online" where
  "memory_online_user_sessions now region_id realm_id user_id s =
     (if mon_poisoned s then (Inl (Internal ''online directory poisoned''), s)
      else
        (let s = memory_online_purge now s
         in (Inr (filter (\<lambda>lease. lease_user_key lease = (region_id, realm_id, user_id)) (map snd (mon_sessions s))), s)))"

definition memory_online_group_sessions ::
    "instant \<Rightarrow> string \<Rightarrow> memory_online \<Rightarrow> (core_error + session_lease list) \<times> memory_online" where
  "memory_online_group_sessions now gr s =
     (if mon_poisoned s then (Inl (Internal ''online directory poisoned''), s)
      else
        (let s = memory_online_purge now s
         in (Inr (List.map_filter (map_of (mon_sessions s)) (set_of_key (mon_groups s) gr)), s)))"

definition memory_online_track_group ::
    "uuid \<Rightarrow> string \<Rightarrow> bool \<Rightarrow> memory_online \<Rightarrow> (core_error + unit) \<times> memory_online" where
  "memory_online_track_group session_id gr join s =
     (if gr = [] then (Inl (InvalidConfig ''empty online group''), s)
      else if mon_poisoned s then (Inl (Internal ''online directory poisoned''), s)
      else if join
      then (Inr (), s\<lparr>mon_groups := hm_insert gr (List.insert session_id (set_of_key (mon_groups s) gr)) (mon_groups s)\<rparr>)
      else (Inr (), s\<lparr>mon_groups := map_adjust gr (removeAll session_id) (mon_groups s)\<rparr>))"

definition memory_online_stats ::
    "instant \<Rightarrow> u32 \<Rightarrow> u32 \<Rightarrow> memory_online \<Rightarrow> (core_error + online_stats) \<times> memory_online" where
  "memory_online_stats now region_id realm_id s =
     (if mon_poisoned s then (Inl (Internal ''online directory poisoned''), s)
      else
        (let s = memory_online_purge now s;
             sessions = filter (\<lambda>lease. lease_realm_key lease = (region_id, realm_id)) (map snd (mon_sessions s))
         in (Inr \<lparr>os_session_count = of_nat (length sessions),
                os_user_count = of_nat (length (remdups (map (\<lambda>lease. id_user_id (sl_identity lease)) sessions)))\<rparr>, s)))"

subsection \<open>Routing of pushes\<close>

text \<open>The operations of an \<open>OnlineDirectory\<close> that the resolver calls.\<close>

record 's online_directory =
  dir_session :: "uuid \<Rightarrow> 's \<Rightarrow> (core_error + session_lease option) \<times> 's"
  dir_user_sessions :: "u32 \<Rightarrow> u32 \<Rightarrow> i64 \<Rightarrow> 's \<Rightarrow> (core_error + session_lease list) \<times> 's"
  dir_group_sessions :: "string \<Rightarrow> 's \<Rightarrow> (core_error + session_lease list) \<times> 's"
  dir_track_group :: "uuid \<Rightarrow> string \<Rightarrow> bool \<Rightarrow> 's \<Rightarrow> (core_error + unit) \<times> 's"

fun users_gateways ::
    "'s online_directory \<Rightarrow> u32 \<Rightarrow> u32 \<Rightarrow> i64 list \<Rightarrow> 's \<Rightarrow> (core_error + string list) \<times> 's" where
  "users_gateways D region_id realm_id [] s = (Inr [], s)"
| "users_gateways D region_id realm_id (user_id # user_ids) s =
     (case dir_user_sessions D region_id realm_id user_id s of
        (Inl e, s) \<Rightarrow> (Inl e, s)
      | (Inr leases, s) \<Rightarrow>
          (case users_gateways D region_id realm_id user_ids s of
             (Inl e, s) \<Rightarrow> (Inl e, s)
           | (Inr gateways, s) \<Rightarrow> (Inr (map sl_gateway_id leases @ gateways), s)))"

definition lease_gateways :: "session_lease option \<Rightarrow> string list" where
  "lease_gateways lease = (case lease of None \<Rightarrow> [] | Some l \<Rightarrow> [sl_gateway_id l])"

definition track_topic ::
    "'s online_directory \<Rightarrow> uuid \<Rightarrow> string \<Rightarrow> bool \<Rightarrow> 's \<Rightarrow> (core_error + string list) \<times> 's" where
  "track_topic D session_id topic join s =
     (case dir_session D session_id s of
        (Inl e, s) \<Rightarrow> (Inl e, s)
      | (Inr owner, s) \<Rightarrow>
          (case dir_track_group D session_id (''topic:'' @ topic) join s of
             (Inl e, s) \<Rightarrow> (Inl e, s)
           | (Inr _, s) \<Rightarrow> (Inr (lease_gateways owner), s)))"

definition resolve_gateways ::
    "'s online_directory \<Rightarrow> push_request \<Rightarrow> 's \<Rightarrow> (core_error + string list) \<times> 's" where
  "resolve_gateways D r s =
     (case push_request_validate r of
        Inl e \<Rightarrow> (Inl e, s)
      | Inr _ \<Rightarrow>
          (let one = (\<lambda>session_id. (case dir_session D session_id s of
                  (Inl e, s) \<Rightarrow> (Inl e, s) | (Inr lease, s) \<Rightarrow> (Inr (lease_gateways lease), s)));
               (gateways, s) =
                 (case pr_target r of
                    Realm \<Rightarrow> (Inr [], s)
                  | SessionTarget session_id \<Rightarrow> one session_id
                  | Disconnect session_id \<Rightarrow> one session_id
                  | User user_id \<Rightarrow> users_gateways D (pr_region_id r) (pr_realm_id r) [user_id] s
                  | Users user_ids \<Rightarrow> users_gateways D (pr_region_id r) (pr_realm_id r) user_ids s
                  | Topic topic \<Rightarrow>
                      (case dir_group_sessions D (''topic:'' @ topic) s of
                         (Inl e, s) \<Rightarrow> (Inl e, s)
                       | (Inr leases, s) \<Rightarrow> (Inr (map sl_gateway_id leases), s))
                  | JoinTopic session_id topic \<Rightarrow> track_topic D session_id topic True s
                  | LeaveTopic session_id topic \<Rightarrow> track_topic D session_id topic False s)
           in (map_sum id (\<lambda>gateways. sort (remdups gateways)) gateways, s)))"

definition memory_online_directory :: "instant \<Rightarrow> memory_online online_directory" where
  "memory_online_directory now =
     \<lparr>dir_session = memory_online_session now, dir_user_sessions = memory_online_user_sessions now,
      dir_group_sessions = memory_online_group_sessions now, dir_track_group = memory_online_track_group\<rparr>"

subsection \<open>Purging\<close>

lemma map_of_map_filter_keys:
  "distinct (map fst m) \<Longrightarrow>
     map_of (retain_live live m) k =
       (case map_of m k of None \<Rightarrow> None
        | Some ids \<Rightarrow> let ids = filter (\<lambda>u. u \<in> set live) ids in if ids = [] then None else Some ids)"
proof (induction m)
  case (Cons p m)
  obtain a b where p: "p = (a, b)" by fastforce
  have "map_of m a = None" using Cons.prems p by (simp add: map_of_eq_None_iff)
  then show ?case using Cons p by (auto simp: retain_live_def Let_def split: option.splits)
qed (simp add: retain_live_def)

lemma set_of_key_retain_live:
  "hm_wf m \<Longrightarrow> set_of_key (retain_live live m) k = filter (\<lambda>u. u \<in> set live) (set_of_key m k)"
  by (auto simp: set_of_key_def hm_wf_def map_of_map_filter_keys Let_def split: option.splits)

lemma hm_wf_retain_live: "hm_wf m \<Longrightarrow> hm_wf (retain_live live m)"
proof -
  assume "hm_wf m"
  moreover have "map fst (map (\<lambda>(k, ids). (k, filter (\<lambda>u. u \<in> set live) ids)) m) = map fst m" by auto
  ultimately show ?thesis unfolding hm_wf_def retain_live_def by (metis distinct_keys_filter)
qed

lemma set_of_key_insert [simp]:
  "set_of_key (hm_insert k v m) j = (if j = k then v else set_of_key m j)"
  by (simp add: set_of_key_def hm_insert_def map_of_remove)

lemma set_of_key_adjust:
  "f [] = [] \<Longrightarrow> set_of_key (map_adjust k f m) j = (if j = k then f (set_of_key m j) else set_of_key m j)"
  by (auto simp: set_of_key_def map_of_adjust split: option.splits)

subsection \<open>Invariant\<close>

text \<open>A deployment: the policies that logins of a realm may be admitted under (a gateway chooses the policy of each
call, with the maximum configured for the realm), and a session keeps the identity with which it authenticated, so
that all leases of a session carry it.\<close>

type_synonym realm_policies = "u32 \<times> u32 \<Rightarrow> online_admission_policy set"

definition never_kicks :: "realm_policies \<Rightarrow> u32 \<times> u32 \<Rightarrow> bool" where
  "never_kicks allowed realm \<longleftrightarrow> (\<forall>p \<in> allowed realm. oap_duplicate_login p \<noteq> KickExisting)"

definition always_rejects :: "realm_policies \<Rightarrow> u32 \<times> u32 \<Rightarrow> bool" where
  "always_rejects allowed realm \<longleftrightarrow> (\<forall>p \<in> allowed realm. oap_duplicate_login p = RejectNew)"

definition capped_at :: "realm_policies \<Rightarrow> u32 \<times> u32 \<Rightarrow> u64 \<Rightarrow> bool" where
  "capped_at allowed realm m \<longleftrightarrow> (\<forall>p \<in> allowed realm. \<exists>k. oap_max_sessions p = Some k \<and> k \<le> m)"

definition presence_inv :: "realm_policies \<Rightarrow> (uuid \<Rightarrow> identity) \<Rightarrow> memory_online \<Rightarrow> bool" where
  "presence_inv allowed ident s \<longleftrightarrow>
     hm_wf (mon_sessions s) \<and> hm_wf (mon_single s) \<and> hm_wf (mon_capacity s) \<and> \<not> mon_poisoned s \<and>
     hm_wf (mon_groups s) \<and>
     (\<forall>realm. distinct (set_of_key (mon_capacity s) realm)) \<and>
     (\<forall>u l. map_of (mon_sessions s) u = Some l \<longrightarrow> sl_session_id l = u \<and> sl_identity l = ident u) \<and>
     (\<forall>realm u. u \<in> set (set_of_key (mon_capacity s) realm) \<longrightarrow>
        (\<exists>l. map_of (mon_sessions s) u = Some l \<and> lease_realm_key l = realm)) \<and>
     (\<forall>u l. never_kicks allowed (lease_realm_key l) \<longrightarrow> map_of (mon_sessions s) u = Some l \<longrightarrow>
        u \<in> set (set_of_key (mon_capacity s) (lease_realm_key l))) \<and>
     (\<forall>u l. always_rejects allowed (lease_realm_key l) \<longrightarrow> map_of (mon_sessions s) u = Some l \<longrightarrow>
        map_of (mon_single s) (lease_user_key l) = Some u) \<and>
     (\<forall>realm m. capped_at allowed realm m \<longrightarrow> length (set_of_key (mon_capacity s) realm) \<le> unat m)"

lemma presence_invD:
  assumes "presence_inv allowed ident s"
  shows "hm_wf (mon_sessions s)" "hm_wf (mon_single s)" "hm_wf (mon_capacity s)" "\<not> mon_poisoned s"
    and "distinct (set_of_key (mon_capacity s) realm)"
    and "map_of (mon_sessions s) u = Some l \<Longrightarrow> sl_session_id l = u \<and> sl_identity l = ident u"
    and "u \<in> set (set_of_key (mon_capacity s) realm) \<Longrightarrow>
      \<exists>l. map_of (mon_sessions s) u = Some l \<and> lease_realm_key l = realm"
    and "never_kicks allowed (lease_realm_key l) \<Longrightarrow> map_of (mon_sessions s) u = Some l \<Longrightarrow>
      u \<in> set (set_of_key (mon_capacity s) (lease_realm_key l))"
    and "always_rejects allowed (lease_realm_key l) \<Longrightarrow> map_of (mon_sessions s) u = Some l \<Longrightarrow>
      map_of (mon_single s) (lease_user_key l) = Some u"
    and "capped_at allowed realm m \<Longrightarrow> length (set_of_key (mon_capacity s) realm) \<le> unat m"
    and "hm_wf (mon_groups s)"
  using assms unfolding presence_inv_def by blast+

lemma presence_invI:
  assumes "hm_wf (mon_sessions s)" "hm_wf (mon_single s)" "hm_wf (mon_capacity s)" "\<not> mon_poisoned s"
    and "\<And>realm. distinct (set_of_key (mon_capacity s) realm)"
    and "\<And>u l. map_of (mon_sessions s) u = Some l \<Longrightarrow> sl_session_id l = u \<and> sl_identity l = ident u"
    and "\<And>u realm. u \<in> set (set_of_key (mon_capacity s) realm) \<Longrightarrow>
      \<exists>l. map_of (mon_sessions s) u = Some l \<and> lease_realm_key l = realm"
    and "\<And>u l. never_kicks allowed (lease_realm_key l) \<Longrightarrow> map_of (mon_sessions s) u = Some l \<Longrightarrow>
      u \<in> set (set_of_key (mon_capacity s) (lease_realm_key l))"
    and "\<And>u l. always_rejects allowed (lease_realm_key l) \<Longrightarrow> map_of (mon_sessions s) u = Some l \<Longrightarrow>
      map_of (mon_single s) (lease_user_key l) = Some u"
    and "\<And>m realm. capped_at allowed realm m \<Longrightarrow> length (set_of_key (mon_capacity s) realm) \<le> unat m"
    and "hm_wf (mon_groups s)"
  shows "presence_inv allowed ident s"
  using assms unfolding presence_inv_def by blast

lemma purge_sessions:
  "hm_wf (mon_sessions s) \<Longrightarrow> map_of (mon_sessions (memory_online_purge now s)) u =
     (case map_of (mon_sessions s) u of None \<Rightarrow> None | Some l \<Rightarrow> if now < sl_expires_at l then Some l else None)"
  by (auto simp: memory_online_purge_def Let_def map_of_retain hm_wf_def split: option.splits)

lemma live_iff: "u \<in> set (map fst m) \<longleftrightarrow> (\<exists>l. map_of m u = Some l)"
  by (metis map_of_eq_None_iff not_None_eq set_map)

lemma purge_other:
  fixes s now
  defines "s' \<equiv> memory_online_purge now s"
  assumes "hm_wf (mon_single s)" "hm_wf (mon_capacity s)"
  shows "u \<in> set (set_of_key (mon_capacity s') realm) \<longleftrightarrow>
      u \<in> set (set_of_key (mon_capacity s) realm) \<and> (\<exists>l. map_of (mon_sessions s') u = Some l)"
    and "map_of (mon_single s') k = Some u \<longleftrightarrow>
      map_of (mon_single s) k = Some u \<and> (\<exists>l. map_of (mon_sessions s') u = Some l)"
    and "length (set_of_key (mon_capacity s') realm) \<le> length (set_of_key (mon_capacity s) realm)"
    and "distinct (set_of_key (mon_capacity s) realm) \<Longrightarrow> distinct (set_of_key (mon_capacity s') realm)"
    and "hm_wf (mon_single s')" "hm_wf (mon_capacity s')" "mon_poisoned s' = mon_poisoned s"
  using assms(2,3) unfolding s'_def
  by (auto simp: memory_online_purge_def Let_def set_of_key_retain_live hm_wf_retain_live hm_wf_retain live_iff [symmetric]
      map_of_retain [OF assms(2) [unfolded hm_wf_def]] simp del: set_map split: option.splits if_splits)

lemma presence_inv_purge:
  assumes inv: "presence_inv allowed ident s"
  shows "presence_inv allowed ident (memory_online_purge now s)"
proof -
  let ?s = "memory_online_purge now s"
  note sess = purge_sessions [OF presence_invD(1) [OF inv], of now]
  note other = purge_other [OF presence_invD(2,3) [OF inv], where now = now]
  have old: "map_of (mon_sessions s) u = Some l" if "map_of (mon_sessions ?s) u = Some l" for u l
    using that by (simp add: sess split: option.splits if_splits)
  show ?thesis
  proof (rule presence_invI)
    show "hm_wf (mon_sessions ?s)"
      using presence_invD(1) [OF inv] by (simp add: memory_online_purge_def Let_def hm_wf_retain)
    show "hm_wf (mon_single ?s)" "hm_wf (mon_capacity ?s)" "\<not> mon_poisoned ?s"
      using other(5-7) presence_invD(4) [OF inv] by simp_all
    show "hm_wf (mon_groups ?s)"
      using presence_invD(11) [OF inv] by (simp add: memory_online_purge_def Let_def hm_wf_retain_live)
    show "distinct (set_of_key (mon_capacity ?s) realm)" for realm using other(4) presence_invD(5) [OF inv] by blast
    show "sl_session_id l = u \<and> sl_identity l = ident u" if "map_of (mon_sessions ?s) u = Some l" for u l
      using presence_invD(6) [OF inv old [OF that]] .
    show "\<exists>l. map_of (mon_sessions ?s) u = Some l \<and> lease_realm_key l = realm"
      if u: "u \<in> set (set_of_key (mon_capacity ?s) realm)" for u realm
    proof -
      obtain l where "map_of (mon_sessions ?s) u = Some l" "u \<in> set (set_of_key (mon_capacity s) realm)"
        using u other(1) by blast
      with presence_invD(7) [OF inv] old show ?thesis by fastforce
    qed
    show "u \<in> set (set_of_key (mon_capacity ?s) (lease_realm_key l))"
      if "never_kicks allowed (lease_realm_key l)" "map_of (mon_sessions ?s) u = Some l" for u l
      using other(1) presence_invD(8) [OF inv that(1) old [OF that(2)]] that(2) by blast
    show "map_of (mon_single ?s) (lease_user_key l) = Some u"
      if "always_rejects allowed (lease_realm_key l)" "map_of (mon_sessions ?s) u = Some l" for u l
      using other(2) presence_invD(9) [OF inv that(1) old [OF that(2)]] that(2) by blast
    show "length (set_of_key (mon_capacity ?s) realm) \<le> unat m" if "capped_at allowed realm m" for m realm
      using other(3) presence_invD(10) [OF inv that] order_trans by blast
  qed
qed

lemma keys_of_lease:
  "sl_identity l = sl_identity l' \<Longrightarrow> lease_realm_key l = lease_realm_key l' \<and> lease_user_key l = lease_user_key l'"
  by (simp add: lease_realm_key_def lease_user_key_def)

lemma presence_inv_renew:
  assumes inv: "presence_inv allowed ident s" and lease: "sl_identity lease = ident (sl_session_id lease)"
  shows "presence_inv allowed ident (snd (memory_online_renew now lease s))"
proof -
  let ?s = "memory_online_purge now s" and ?u = "sl_session_id lease"
  have inv': "presence_inv allowed ident ?s" by (rule presence_inv_purge [OF inv])
  have "presence_inv allowed ident (?s\<lparr>mon_sessions := hm_insert ?u lease (mon_sessions ?s)\<rparr>)"
    if old: "map_of (mon_sessions ?s) ?u = Some current" for current
  proof -
    have keys: "lease_realm_key current = lease_realm_key lease" "lease_user_key current = lease_user_key lease"
      using presence_invD(6) [OF inv' old] lease keys_of_lease [of current lease] by auto
    let ?s' = "?s\<lparr>mon_sessions := hm_insert ?u lease (mon_sessions ?s)\<rparr>"
    have get: "map_of (mon_sessions ?s') u = (if u = ?u then Some lease else map_of (mon_sessions ?s) u)" for u
      by (simp add: hm_insert_def map_of_remove)
    show ?thesis
    proof (rule presence_invI)
      show "sl_session_id l = u \<and> sl_identity l = ident u" if "map_of (mon_sessions ?s') u = Some l" for u l
        using that presence_invD(6) [OF inv', of u l] lease unfolding get by (auto split: if_splits)
      show "\<exists>l. map_of (mon_sessions ?s') u = Some l \<and> lease_realm_key l = realm"
        if "u \<in> set (set_of_key (mon_capacity ?s') realm)" for u realm
        using presence_invD(7) [OF inv', of u realm] that old keys unfolding get by auto
      show "u \<in> set (set_of_key (mon_capacity ?s') (lease_realm_key l))"
        if "never_kicks allowed (lease_realm_key l)" "map_of (mon_sessions ?s') u = Some l" for u l
        using that presence_invD(8) [OF inv', of l u] presence_invD(8) [OF inv' _ old] keys
        unfolding get by (auto split: if_splits)
      show "map_of (mon_single ?s') (lease_user_key l) = Some u"
        if "always_rejects allowed (lease_realm_key l)" "map_of (mon_sessions ?s') u = Some l" for u l
        using that presence_invD(9) [OF inv', of l u] presence_invD(9) [OF inv' _ old] keys
        unfolding get by (auto split: if_splits)
    qed (use presence_invD [OF inv'] in \<open>simp_all add: hm.map_laws\<close>)
  qed
  then show ?thesis
    using inv inv' by (auto simp: memory_online_renew_def Let_def split: sum.splits option.splits)
qed

lemma presence_inv_unregister:
  assumes inv: "presence_inv allowed ident s" and lease: "sl_identity lease = ident (sl_session_id lease)"
  shows "presence_inv allowed ident (snd (memory_online_unregister lease s))"
proof (cases "\<exists>current. map_of (mon_sessions s) (sl_session_id lease) = Some current \<and>
    sl_gateway_id current = sl_gateway_id lease")
  case False
  then have "snd (memory_online_unregister lease s) = s"
    by (auto simp: memory_online_unregister_def split: option.splits)
  then show ?thesis using inv by simp
next
  case True
  then obtain current where old: "map_of (mon_sessions s) (sl_session_id lease) = Some current"
    "sl_gateway_id current = sl_gateway_id lease" by blast
  let ?u = "sl_session_id lease" and ?s = "snd (memory_online_unregister lease s)"
  have keys: "lease_realm_key current = lease_realm_key lease" "lease_user_key current = lease_user_key lease"
    using presence_invD(6) [OF inv old(1)] lease keys_of_lease [of current lease] by auto
  have sess: "mon_sessions ?s = map_remove ?u (mon_sessions s)" and pois: "mon_poisoned ?s = mon_poisoned s"
    and groups: "mon_groups ?s = map (\<lambda>(g, ids). (g, removeAll ?u ids)) (mon_groups s)"
    and cap: "mon_capacity ?s = map_adjust (lease_realm_key lease) (removeAll ?u) (mon_capacity s)"
    and sing: "mon_single ?s = (if map_of (mon_single s) (lease_user_key lease) = Some ?u
      then map_remove (lease_user_key lease) (mon_single s) else mon_single s)"
    using old presence_invD(4) [OF inv] by (simp_all add: memory_online_unregister_def Let_def)
  have slots: "set_of_key (mon_capacity ?s) realm = removeAll ?u (set_of_key (mon_capacity s) realm)" for realm
  proof (cases "realm = lease_realm_key lease")
    case False
    then have "?u \<notin> set (set_of_key (mon_capacity s) realm)"
      using presence_invD(7) [OF inv, of ?u realm] old(1) keys by auto
    then show ?thesis using False by (simp add: cap set_of_key_adjust)
  qed (simp add: cap set_of_key_adjust)
  show ?thesis
  proof (rule presence_invI)
    show "hm_wf (mon_sessions ?s)" "hm_wf (mon_single ?s)" "hm_wf (mon_capacity ?s)" "\<not> mon_poisoned ?s"
      using presence_invD(1-4) [OF inv] by (simp_all add: sess sing cap pois hm_wf_def distinct_keys_remove)
    have "map fst (mon_groups ?s) = map fst (mon_groups s)" by (auto simp: groups)
    then show "hm_wf (mon_groups ?s)" using presence_invD(11) [OF inv] unfolding hm_wf_def by metis
    show "distinct (set_of_key (mon_capacity ?s) realm)" for realm
      using presence_invD(5) [OF inv] by (simp add: slots distinct_removeAll)
    show "sl_session_id l = u \<and> sl_identity l = ident u" if "map_of (mon_sessions ?s) u = Some l" for u l
      using that presence_invD(6) [OF inv, of u l] by (simp add: sess map_of_remove split: if_splits)
    show "\<exists>l. map_of (mon_sessions ?s) u = Some l \<and> lease_realm_key l = realm"
      if "u \<in> set (set_of_key (mon_capacity ?s) realm)" for u realm
      using that presence_invD(7) [OF inv, of u realm] by (simp add: slots sess map_of_remove)
    show "u \<in> set (set_of_key (mon_capacity ?s) (lease_realm_key l))"
      if "never_kicks allowed (lease_realm_key l)" "map_of (mon_sessions ?s) u = Some l" for u l
      using that presence_invD(8) [OF inv, of l u] by (simp add: slots sess map_of_remove split: if_splits)
    show "map_of (mon_single ?s) (lease_user_key l) = Some u"
      if "always_rejects allowed (lease_realm_key l)" "map_of (mon_sessions ?s) u = Some l" for u l
      using that presence_invD(9) [OF inv that(1), of u] by (auto simp: sing sess map_of_remove split: if_splits)
    show "length (set_of_key (mon_capacity ?s) realm) \<le> unat m" if "capped_at allowed realm m" for m realm
      unfolding slots
      by (rule order_trans [OF length_removeAll_less_eq presence_invD(10) [OF inv that]])
  qed
qed

text \<open>An admission on a purged directory: the session that the login displaces, whether a slot passes from it, and the
slots of the realm when the login is accepted.\<close>

definition displaced :: "session_lease \<Rightarrow> memory_online \<Rightarrow> uuid option" where
  "displaced lease s = (case map_of (mon_single s) (lease_user_key lease) of
     None \<Rightarrow> None | Some u \<Rightarrow> if u \<noteq> sl_session_id lease then Some u else None)"

definition realm_slots :: "session_lease \<Rightarrow> memory_online \<Rightarrow> uuid list" where
  "realm_slots lease s = set_of_key (mon_capacity s) (lease_realm_key lease)"

definition passes_slot :: "online_admission_policy \<Rightarrow> session_lease \<Rightarrow> memory_online \<Rightarrow> bool" where
  "passes_slot policy lease s \<longleftrightarrow> oap_duplicate_login policy = KickExisting \<and>
     (case displaced lease s of None \<Rightarrow> False | Some u \<Rightarrow> u \<in> set (realm_slots lease s))"

definition realm_full :: "online_admission_policy \<Rightarrow> session_lease \<Rightarrow> memory_online \<Rightarrow> bool" where
  "realm_full policy lease s \<longleftrightarrow> sl_session_id lease \<notin> set (realm_slots lease s) \<and>
     (case oap_max_sessions policy of None \<Rightarrow> False
      | Some m \<Rightarrow> unat m \<le> length (realm_slots lease s) - (if passes_slot policy lease s then 1 else 0))"

definition accepted_slots :: "online_admission_policy \<Rightarrow> session_lease \<Rightarrow> memory_online \<Rightarrow> uuid list" where
  "accepted_slots policy lease s = List.insert (sl_session_id lease)
     (case displaced lease s of
        Some u \<Rightarrow> if passes_slot policy lease s then removeAll u (realm_slots lease s) else realm_slots lease s
      | None \<Rightarrow> realm_slots lease s)"

definition accepted_state :: "online_admission_policy \<Rightarrow> session_lease \<Rightarrow> memory_online \<Rightarrow> memory_online" where
  "accepted_state policy lease s =
     s\<lparr>mon_single := (if oap_duplicate_login policy = AllowMultiple then mon_single s
         else hm_insert (lease_user_key lease) (sl_session_id lease) (mon_single s)),
       mon_capacity := hm_insert (lease_realm_key lease) (accepted_slots policy lease s)
         (hm_insert (lease_realm_key lease) (realm_slots lease s) (mon_capacity s)),
       mon_sessions := hm_insert (sl_session_id lease) lease (mon_sessions s)\<rparr>"

lemma acquire_eq:
  assumes "identity_validate (sl_identity lease) = Inr ()" "oap_max_sessions policy \<noteq> Some 0" "\<not> mon_poisoned s"
  shows "memory_online_acquire now lease policy s =
    (let s = memory_online_purge now s
     in if oap_duplicate_login policy = RejectNew \<and> displaced lease s \<noteq> None then (Inr Duplicate, s)
        else if realm_full policy lease s
        then (Inr RealmFull, s\<lparr>mon_capacity := hm_insert (lease_realm_key lease) (realm_slots lease s) (mon_capacity s)\<rparr>)
        else (Inr (Accepted (if oap_duplicate_login policy = KickExisting then displaced lease s else None)),
              accepted_state policy lease s))"
  using assms
  unfolding memory_online_acquire_def online_admission_policy_new_def Let_def accepted_state_def accepted_slots_def
    realm_full_def passes_slot_def realm_slots_def displaced_def
  by (cases "oap_duplicate_login policy") (simp_all cong: option.case_cong if_cong)

lemma acquire_refused:
  assumes "\<not> (identity_validate (sl_identity lease) = Inr () \<and> oap_max_sessions policy \<noteq> Some 0)"
  shows "snd (memory_online_acquire now lease policy s) = s"
  using assms by (auto simp: memory_online_acquire_def online_admission_policy_new_def split: sum.splits)

lemma accepted_slots_set:
  shows "set (accepted_slots policy lease s) \<subseteq> insert (sl_session_id lease) (set (realm_slots lease s))"
    and "sl_session_id lease \<in> set (accepted_slots policy lease s)"
    and "oap_duplicate_login policy \<noteq> KickExisting \<Longrightarrow> set (realm_slots lease s) \<subseteq> set (accepted_slots policy lease s)"
    and "distinct (realm_slots lease s) \<Longrightarrow> distinct (accepted_slots policy lease s)"
  by (auto simp: accepted_slots_def passes_slot_def distinct_removeAll split: option.splits)

lemma length_accepted_slots:
  assumes "\<not> realm_full policy lease s" "oap_max_sessions policy = Some k" "k \<le> m" "distinct (realm_slots lease s)"
    "length (realm_slots lease s) \<le> unat m"
  shows "length (accepted_slots policy lease s) \<le> unat m"
proof -
  have "length (removeAll u (realm_slots lease s)) = length (realm_slots lease s) - 1" if "u \<in> set (realm_slots lease s)" for u
    using that assms(4) by (simp add: distinct_remove1_removeAll [symmetric] length_remove1)
  moreover have "unat k \<le> unat m" using assms(3) by (simp add: word_le_nat_alt)
  moreover have "displaced lease s \<noteq> Some (sl_session_id lease)" by (simp add: displaced_def split: option.splits)
  ultimately show ?thesis
    using assms unfolding accepted_slots_def realm_full_def passes_slot_def
    by (auto simp: List.insert_def split: option.splits if_splits)
qed

lemma presence_inv_accepted:
  assumes inv: "presence_inv allowed ident s" and lease: "sl_identity lease = ident (sl_session_id lease)"
    and policy: "policy \<in> allowed (lease_realm_key lease)" and room: "\<not> realm_full policy lease s"
    and single: "oap_duplicate_login policy = RejectNew \<Longrightarrow> displaced lease s = None"
  shows "presence_inv allowed ident (accepted_state policy lease s)"
proof -
  let ?s = "accepted_state policy lease s" and ?u = "sl_session_id lease" and ?r = "lease_realm_key lease"
  have sess: "map_of (mon_sessions ?s) u = (if u = ?u then Some lease else map_of (mon_sessions s) u)" for u
    by (simp add: accepted_state_def hm_insert_def map_of_remove)
  have cap: "set_of_key (mon_capacity ?s) realm =
      (if realm = ?r then accepted_slots policy lease s else set_of_key (mon_capacity s) realm)" for realm
    by (simp add: accepted_state_def)
  have own: "?u \<in> set (set_of_key (mon_capacity s) realm) \<Longrightarrow> realm = ?r" for realm
    using presence_invD(6,7) [OF inv] lease keys_of_lease by metis
  note slots = accepted_slots_set [where policy = policy and lease = lease and s = s, unfolded realm_slots_def]
  show ?thesis
  proof (rule presence_invI)
    show "hm_wf (mon_sessions ?s)" "hm_wf (mon_single ?s)" "hm_wf (mon_capacity ?s)" "\<not> mon_poisoned ?s"
      using presence_invD(1-4) [OF inv] by (simp_all add: accepted_state_def hm.map_laws)
    show "hm_wf (mon_groups ?s)" using presence_invD(11) [OF inv] by (simp add: accepted_state_def)
    show "distinct (set_of_key (mon_capacity ?s) realm)" for realm
      using presence_invD(5) [OF inv] slots(4) by (simp add: cap)
    show "sl_session_id l = u \<and> sl_identity l = ident u" if "map_of (mon_sessions ?s) u = Some l" for u l
      using that presence_invD(6) [OF inv, of u l] lease by (auto simp: sess split: if_splits)
    show "\<exists>l. map_of (mon_sessions ?s) u = Some l \<and> lease_realm_key l = realm"
      if "u \<in> set (set_of_key (mon_capacity ?s) realm)" for u realm
    proof -
      have "u = ?u \<and> realm = ?r \<or> u \<in> set (set_of_key (mon_capacity s) realm)"
        using that slots(1) by (auto simp: cap split: if_splits)
      then show ?thesis using presence_invD(7) [OF inv, of u realm] own [of realm] by (auto simp: sess)
    qed
    show "u \<in> set (set_of_key (mon_capacity ?s) (lease_realm_key l))"
      if "never_kicks allowed (lease_realm_key l)" "map_of (mon_sessions ?s) u = Some l" for u l
    proof -
      have "set (set_of_key (mon_capacity s) ?r) \<subseteq> set (accepted_slots policy lease s)" if "never_kicks allowed ?r"
        using slots(3) that policy by (simp add: never_kicks_def)
      then show ?thesis
        using that presence_invD(8) [OF inv, of l u] slots(2) by (auto simp: sess cap split: if_splits)
    qed
    show "map_of (mon_single ?s) (lease_user_key l) = Some u"
      if reject: "always_rejects allowed (lease_realm_key l)" and "map_of (mon_sessions ?s) u = Some l" for u l
    proof (cases "lease_realm_key l = ?r")
      case True
      then have "displaced lease s = None" "oap_duplicate_login policy = RejectNew"
        using single reject policy by (auto simp: always_rejects_def)
      then show ?thesis
        using that presence_invD(9) [OF inv reject, of u]
        by (auto simp: accepted_state_def displaced_def sess hm_insert_def map_of_remove split: if_splits option.splits)
    next
      case False
      then have "lease_user_key l \<noteq> lease_user_key lease" "l \<noteq> lease"
        by (auto simp: lease_realm_key_def lease_user_key_def)
      then show ?thesis
        using that presence_invD(9) [OF inv reject, of u]
        by (auto simp: accepted_state_def sess hm_insert_def map_of_remove split: if_splits)
    qed
    show "length (set_of_key (mon_capacity ?s) realm) \<le> unat m" if capped: "capped_at allowed realm m" for m realm
    proof (cases "realm = ?r")
      case True
      then obtain k where "oap_max_sessions policy = Some k" "k \<le> m"
        using capped policy by (auto simp: capped_at_def)
      then show ?thesis
        using length_accepted_slots [OF room] presence_invD(5) [OF inv] presence_invD(10) [OF inv capped] True
        by (simp add: cap realm_slots_def)
    qed (use presence_invD(10) [OF inv capped] in \<open>simp add: cap\<close>)
  qed
qed

lemma presence_inv_acquire:
  assumes inv: "presence_inv allowed ident s" and lease: "sl_identity lease = ident (sl_session_id lease)"
    and policy: "policy \<in> allowed (lease_realm_key lease)"
  shows "presence_inv allowed ident (snd (memory_online_acquire now lease policy s))"
proof (cases "identity_validate (sl_identity lease) = Inr () \<and> oap_max_sessions policy \<noteq> Some 0")
  case False
  then show ?thesis using inv by (simp add: acquire_refused)
next
  case True
  have inv': "presence_inv allowed ident (memory_online_purge now s)" by (rule presence_inv_purge [OF inv])
  have same: "presence_inv allowed ident (t\<lparr>mon_capacity := hm_insert (lease_realm_key lease) (realm_slots lease t) (mon_capacity t)\<rparr>)"
    if t: "presence_inv allowed ident t" for t
  proof -
    have "set_of_key (hm_insert (lease_realm_key lease) (realm_slots lease t) (mon_capacity t)) = set_of_key (mon_capacity t)"
      by (auto simp: realm_slots_def)
    then show ?thesis using t unfolding presence_inv_def by (simp add: hm.map_laws)
  qed
  from True acquire_eq [of lease policy s now] presence_invD(4) [OF inv] presence_inv_accepted [OF inv' lease policy] same [OF inv'] inv'
  show ?thesis by (simp add: Let_def)
qed

lemma hm_wf_adjust: "hm_wf m \<Longrightarrow> hm_wf (map_adjust k f m)"
  by (simp add: hm_wf_def)

lemma presence_inv_track: "presence_inv allowed ident s \<Longrightarrow> presence_inv allowed ident (snd (memory_online_track_group u g join s))"
  by (simp add: memory_online_track_group_def presence_inv_def hm.map_laws hm_wf_adjust)

lemma queries_purge:
  assumes "\<not> mon_poisoned s"
  shows "snd (memory_online_session now u s) = memory_online_purge now s"
    and "snd (memory_online_user_sessions now region realm user s) = memory_online_purge now s"
    and "snd (memory_online_group_sessions now g s) = memory_online_purge now s"
    and "snd (memory_online_stats now region realm s) = memory_online_purge now s"
  using assms
  by (simp_all add: memory_online_session_def memory_online_user_sessions_def memory_online_group_sessions_def
      memory_online_stats_def Let_def)

text \<open>The states of the directory under calls of any gateways, with the times at which they take the lock. Each
login chooses one of the policies of its realm.\<close>

inductive presence_reachable :: "realm_policies \<Rightarrow> (uuid \<Rightarrow> identity) \<Rightarrow> memory_online \<Rightarrow> bool"
  for allowed ident where
  presence_init: "presence_reachable allowed ident memory_online_default"
| presence_acquire: "presence_reachable allowed ident s \<Longrightarrow> sl_identity lease = ident (sl_session_id lease) \<Longrightarrow>
    policy \<in> allowed (lease_realm_key lease) \<Longrightarrow>
    presence_reachable allowed ident (snd (memory_online_acquire now lease policy s))"
| presence_renew: "presence_reachable allowed ident s \<Longrightarrow> sl_identity lease = ident (sl_session_id lease) \<Longrightarrow>
    presence_reachable allowed ident (snd (memory_online_renew now lease s))"
| presence_unregister: "presence_reachable allowed ident s \<Longrightarrow> sl_identity lease = ident (sl_session_id lease) \<Longrightarrow>
    presence_reachable allowed ident (snd (memory_online_unregister lease s))"
| presence_session: "presence_reachable allowed ident s \<Longrightarrow>
    presence_reachable allowed ident (snd (memory_online_session now u s))"
| presence_user_sessions: "presence_reachable allowed ident s \<Longrightarrow>
    presence_reachable allowed ident (snd (memory_online_user_sessions now region realm user s))"
| presence_group_sessions: "presence_reachable allowed ident s \<Longrightarrow>
    presence_reachable allowed ident (snd (memory_online_group_sessions now g s))"
| presence_stats: "presence_reachable allowed ident s \<Longrightarrow>
    presence_reachable allowed ident (snd (memory_online_stats now region realm s))"
| presence_track: "presence_reachable allowed ident s \<Longrightarrow>
    presence_reachable allowed ident (snd (memory_online_track_group u g join s))"

lemma presence_inv_default: "presence_inv allowed ident memory_online_default"
  by (simp add: presence_inv_def memory_online_default_def hm_wf_def set_of_key_def)

lemma presence_reachable_inv: "presence_reachable allowed ident s \<Longrightarrow> presence_inv allowed ident s"
  by (induction rule: presence_reachable.induct)
    (simp_all add: presence_inv_default presence_inv_acquire presence_inv_renew presence_inv_unregister presence_inv_purge
      presence_inv_track queries_purge presence_invD(4))

lemma leases_by_id:
  assumes "presence_inv allowed ident s" "l \<in> set (map snd (mon_sessions s))"
  shows "map_of (mon_sessions s) (sl_session_id l) = Some l"
proof -
  obtain u where "(u, l) \<in> set (mon_sessions s)" using assms(2) by auto
  then have "map_of (mon_sessions s) u = Some l" using presence_invD(1) [OF assms(1)] by (simp add: hm_wf_def)
  with presence_invD(6) [OF assms(1)] show ?thesis by blast
qed

lemma distinct_leases: "presence_inv allowed ident s \<Longrightarrow> distinct (map sl_session_id (map snd (mon_sessions s)))"
proof -
  assume inv: "presence_inv allowed ident s"
  have "map sl_session_id (map snd (mon_sessions s)) = map fst (mon_sessions s)"
    using presence_invD(1,6) [OF inv] by (auto simp: hm_wf_def)
  then show ?thesis using presence_invD(1) [OF inv] unfolding hm_wf_def by metis
qed

lemma length_leases:
  "presence_inv allowed ident s \<Longrightarrow>
     length (filter P (map snd (mon_sessions s))) = card (sl_session_id ` set (filter P (map snd (mon_sessions s))))"
  using distinct_card [OF distinct_map_filter [OF distinct_leases]] by (metis length_map set_map)

lemma realm_leases_bound:
  assumes inv: "presence_inv allowed ident s" and kicks: "never_kicks allowed realm"
  shows "length (filter (\<lambda>l. lease_realm_key l = realm) (map snd (mon_sessions s))) \<le> length (set_of_key (mon_capacity s) realm)"
proof -
  let ?ls = "filter (\<lambda>l. lease_realm_key l = realm) (map snd (mon_sessions s))"
  have "sl_session_id ` set ?ls \<subseteq> set (set_of_key (mon_capacity s) realm)"
  proof (rule image_subsetI)
    fix l assume "l \<in> set ?ls"
    then show "sl_session_id l \<in> set (set_of_key (mon_capacity s) realm)"
      using presence_invD(8) [OF inv _ leases_by_id [OF inv], of l] kicks by simp
  qed
  then have "card (sl_session_id ` set ?ls) \<le> card (set (set_of_key (mon_capacity s) realm))" by (intro card_mono) simp_all
  then have "length ?ls \<le> card (set (set_of_key (mon_capacity s) realm))" by (simp only: length_leases [OF inv])
  then show ?thesis using card_length [of "set_of_key (mon_capacity s) realm"] by linarith
qed

lemma single_lease:
  assumes inv: "presence_inv allowed ident s" and reject: "always_rejects allowed (fst key, fst (snd key))"
  shows "length (filter (\<lambda>l. lease_user_key l = key) (map snd (mon_sessions s))) \<le> 1"
proof -
  let ?ls = "filter (\<lambda>l. lease_user_key l = key) (map snd (mon_sessions s))"
  have "sl_session_id ` set ?ls \<subseteq> set_option (map_of (mon_single s) key)"
  proof (rule image_subsetI)
    fix l assume "l \<in> set ?ls"
    then show "sl_session_id l \<in> set_option (map_of (mon_single s) key)"
      using presence_invD(9) [OF inv _ leases_by_id [OF inv], of l] reject
      by (auto simp: lease_user_key_def lease_realm_key_def)
  qed
  then have "card (sl_session_id ` set ?ls) \<le> card (set_option (map_of (mon_single s) key))" by (intro card_mono) auto
  moreover have "card (set_option (map_of (mon_single s) key)) \<le> 1" by (cases "map_of (mon_single s) key") auto
  ultimately show ?thesis using length_leases [OF inv, of "\<lambda>l. lease_user_key l = key"] by linarith
qed

text \<open>The leases that have not expired.\<close>

definition presence_live :: "instant \<Rightarrow> memory_online \<Rightarrow> session_lease set" where
  "presence_live now s = {l. map_of (mon_sessions s) (sl_session_id l) = Some l \<and> now < sl_expires_at l}"

definition presence_ok :: "memory_online \<Rightarrow> bool" where
  "presence_ok s \<longleftrightarrow> (\<exists>allowed ident. presence_inv allowed ident s)"

lemma presence_live_purge:
  assumes "presence_ok s"
  shows "presence_ok (memory_online_purge now s)" "presence_live now (memory_online_purge now s) = presence_live now s"
    "presence_live now s = set (map snd (mon_sessions (memory_online_purge now s)))"
proof -
  obtain allowed ident where inv: "presence_inv allowed ident s" using assms by (auto simp: presence_ok_def)
  have inv': "presence_inv allowed ident (memory_online_purge now s)" by (rule presence_inv_purge [OF inv])
  then show "presence_ok (memory_online_purge now s)" unfolding presence_ok_def by blast
  note get = purge_sessions [OF presence_invD(1) [OF inv], of now]
  show "presence_live now (memory_online_purge now s) = presence_live now s"
    by (auto simp: presence_live_def get split: option.splits if_splits)
  show "presence_live now s = set (map snd (mon_sessions (memory_online_purge now s)))"
  proof (intro set_eqI iffI)
    fix l assume "l \<in> presence_live now s"
    then have "map_of (mon_sessions (memory_online_purge now s)) (sl_session_id l) = Some l"
      by (simp add: presence_live_def get)
    then show "l \<in> set (map snd (mon_sessions (memory_online_purge now s)))" by (auto dest: map_of_SomeD intro: image_eqI [of _ _ "(sl_session_id l, l)"])
  next
    fix l assume "l \<in> set (map snd (mon_sessions (memory_online_purge now s)))"
    from leases_by_id [OF inv' this] show "l \<in> presence_live now s"
      by (simp add: presence_live_def get split: option.splits if_splits)
  qed
qed

lemma session_lease_live:
  assumes inv: "presence_inv allowed ident s"
  shows "set_option (map_of (mon_sessions (memory_online_purge now s)) u) = {l \<in> presence_live now s. sl_session_id l = u}"
proof -
  let ?s = "memory_online_purge now s"
  have get: "map_of (mon_sessions ?s) u = Some l \<longleftrightarrow> map_of (mon_sessions s) u = Some l \<and> now < sl_expires_at l" for l
    using purge_sessions [OF presence_invD(1) [OF inv], of now u] by (auto split: option.splits if_splits)
  have "l \<in> set_option (map_of (mon_sessions ?s) u) \<longleftrightarrow> l \<in> presence_live now s \<and> sl_session_id l = u" for l
    using presence_invD(6) [OF inv, of u l] get [of l] unfolding presence_live_def by (auto simp: elem_set)
  then show ?thesis by blast
qed

lemma group_leases:
  assumes inv: "presence_inv allowed ident s"
  shows "set (List.map_filter (map_of (mon_sessions (memory_online_purge now s)))
      (set_of_key (mon_groups (memory_online_purge now s)) g)) =
    {l \<in> presence_live now s. sl_session_id l \<in> set (set_of_key (mon_groups s) g)}"
proof -
  let ?s = "memory_online_purge now s"
  note get = purge_sessions [OF presence_invD(1) [OF inv], of now]
  have member: "u \<in> set (set_of_key (mon_groups ?s) g) \<longleftrightarrow>
      u \<in> set (set_of_key (mon_groups s) g) \<and> (\<exists>l. map_of (mon_sessions ?s) u = Some l)" for u
    using presence_invD(11) [OF inv]
    by (simp add: memory_online_purge_def Let_def set_of_key_retain_live live_iff [symmetric] del: set_map)
  have "l \<in> set (List.map_filter (map_of (mon_sessions ?s)) (set_of_key (mon_groups ?s) g)) \<longleftrightarrow>
      l \<in> presence_live now s \<and> sl_session_id l \<in> set (set_of_key (mon_groups s) g)" for l
  proof -
    have "l \<in> set (List.map_filter (map_of (mon_sessions ?s)) (set_of_key (mon_groups ?s) g)) \<longleftrightarrow>
        (\<exists>u. u \<in> set (set_of_key (mon_groups s) g) \<and> map_of (mon_sessions ?s) u = Some l)"
      using member by (auto simp: map_filter_def simp del: map_of_eq_Some_iff) force
    also have "\<dots> \<longleftrightarrow> (\<exists>u. u \<in> set (set_of_key (mon_groups s) g) \<and> map_of (mon_sessions s) u = Some l \<and> now < sl_expires_at l)"
      by (auto simp: get split: option.splits if_splits)
    also have "\<dots> \<longleftrightarrow> l \<in> presence_live now s \<and> sl_session_id l \<in> set (set_of_key (mon_groups s) g)"
      using presence_invD(6) [OF inv] unfolding presence_live_def by blast
    finally show ?thesis .
  qed
  then show ?thesis by blast
qed

text \<open>C9. The directory keeps its promises under any calls of any gateways, each login under a policy of its own, as
long as a session keeps its identity. The three queries return exactly the unexpired leases they ask for: the lease of the
session, those of the user, those of the members of the group; none ever returns an expired one. In a realm whose logins all
run under \<open>RejectNew\<close> a user never has two live sessions. A realm all of whose logins run under a
maximum of at most \<open>m\<close> never has more than \<open>m\<close> admitted sessions, and unless some of these logins kick others,
never more live ones either, which is what the statistics count.\<close>

theorem presence_policy_enforced:
  assumes "presence_reachable allowed ident s"
  shows "(\<exists>lease. fst (memory_online_session now u s) = Inr lease \<and>
      set_option lease = {l \<in> presence_live now s. sl_session_id l = u}) \<and>
    (\<exists>leases. fst (memory_online_group_sessions now g s) = Inr leases \<and>
      set leases = {l \<in> presence_live now s. sl_session_id l \<in> set (set_of_key (mon_groups s) g)}) \<and>
    (\<exists>leases. fst (memory_online_user_sessions now region realm user s) = Inr leases \<and>
      set leases = {l \<in> presence_live now s. lease_user_key l = (region, realm, user)} \<and>
      (always_rejects allowed (region, realm) \<longrightarrow> length leases \<le> 1)) \<and>
    (capped_at allowed (region, realm) m \<longrightarrow>
      length (set_of_key (mon_capacity s) (region, realm)) \<le> unat m \<and>
      (never_kicks allowed (region, realm) \<longrightarrow>
        (\<exists>stats. fst (memory_online_stats now region realm s) = Inr stats \<and> os_session_count stats \<le> m)))"
proof -
  let ?s = "memory_online_purge now s"
  have inv: "presence_inv allowed ident s" using assms by (rule presence_reachable_inv)
  then have inv': "presence_inv allowed ident ?s" by (rule presence_inv_purge)
  have ok: "presence_ok s" using inv by (auto simp: presence_ok_def)
  have up: "\<not> mon_poisoned s" by (rule presence_invD(4) [OF inv])
  have "length (filter (\<lambda>l. lease_user_key l = (region, realm, user)) (map snd (mon_sessions ?s))) \<le> 1"
    if "always_rejects allowed (region, realm)"
    using single_lease [OF inv', of "(region, realm, user)"] that by simp
  then have user: "\<exists>leases. fst (memory_online_user_sessions now region realm user s) = Inr leases \<and>
      set leases = {l \<in> presence_live now s. lease_user_key l = (region, realm, user)} \<and>
      (always_rejects allowed (region, realm) \<longrightarrow> length leases \<le> 1)"
    unfolding presence_live_purge(3) [OF ok] using up by (auto simp: memory_online_user_sessions_def Let_def)
  have "of_nat (length (filter (\<lambda>l. lease_realm_key l = (region, realm)) (map snd (mon_sessions ?s)))) \<le> m"
    if "capped_at allowed (region, realm) m" "never_kicks allowed (region, realm)"
  proof -
    have "length (filter (\<lambda>l. lease_realm_key l = (region, realm)) (map snd (mon_sessions ?s))) \<le> unat m"
      using realm_leases_bound [OF inv' that(2)] presence_invD(10) [OF inv' that(1)] by linarith
    moreover from this have "length (filter (\<lambda>l. lease_realm_key l = (region, realm)) (map snd (mon_sessions ?s))) < 2 ^ 64"
      using unat_lt2p [of m] by simp
    ultimately show ?thesis by (simp add: word_le_nat_alt unat_of_nat_u64)
  qed
  then have "capped_at allowed (region, realm) m \<longrightarrow>
      length (set_of_key (mon_capacity s) (region, realm)) \<le> unat m \<and>
      (never_kicks allowed (region, realm) \<longrightarrow>
        (\<exists>stats. fst (memory_online_stats now region realm s) = Inr stats \<and> os_session_count stats \<le> m))"
    using presence_invD(10) [OF inv] up by (simp add: memory_online_stats_def Let_def)
  moreover have "\<exists>lease. fst (memory_online_session now u s) = Inr lease \<and>
      set_option lease = {l \<in> presence_live now s. sl_session_id l = u}"
    using session_lease_live [OF inv] up by (simp add: memory_online_session_def Let_def)
  moreover have "\<exists>leases. fst (memory_online_group_sessions now g s) = Inr leases \<and>
      set leases = {l \<in> presence_live now s. sl_session_id l \<in> set (set_of_key (mon_groups s) g)}"
    using group_leases [OF inv] up by (simp add: memory_online_group_sessions_def Let_def)
  ultimately show ?thesis using user by blast
qed

definition presence_example :: "uuid \<Rightarrow> session_lease" where
  "presence_example u = \<lparr>sl_session_id = u, sl_gateway_id = ''g'',
     sl_identity = \<lparr>id_account_id = 1, id_user_id = 7, id_region_id = 1, id_realm_id = 2, id_generation = 1\<rparr>,
     sl_expires_at = 9\<rparr>"

definition presence_example_policy :: "u64 \<Rightarrow> online_admission_policy" where
  "presence_example_policy m = \<lparr>oap_duplicate_login = RejectNew, oap_max_sessions = Some m\<rparr>"

definition presence_example_state :: memory_online where
  "presence_example_state =
     snd (memory_online_track_group 11 ''g'' True
       (snd (memory_online_acquire 1 (presence_example 12) (presence_example_policy 2)
         (snd (memory_online_acquire 0 (presence_example 11) (presence_example_policy 1) memory_online_default)))))"

definition presence_example_policies :: realm_policies where
  "presence_example_policies realm = {presence_example_policy 1, presence_example_policy 2}"

lemma presence_example_reachable:
  "presence_reachable presence_example_policies (\<lambda>_. sl_identity (presence_example 0)) presence_example_state"
  unfolding presence_example_state_def
  by (intro presence_reachable.intros) (simp_all add: presence_example_def presence_example_policies_def)

text \<open>The second login of the same user is turned away, and the leases are gone when they expire.\<close>

theorem presence_policy_enforced_witness:
  "(\<exists>leases. fst (memory_online_user_sessions 2 1 2 7 presence_example_state) = Inr leases \<and>
      length leases \<le> 1 \<and> map sl_session_id leases = [11]) \<and>
   (\<exists>stats. fst (memory_online_stats 2 1 2 presence_example_state) = Inr stats \<and> os_session_count stats \<le> 2) \<and>
   map_sum id length (fst (memory_online_group_sessions 2 ''g'' presence_example_state)) = Inr 1 \<and>
   fst (memory_online_group_sessions 9 ''g'' presence_example_state) = Inr []"
proof -
  have "map_sum id (map sl_session_id) (fst (memory_online_user_sessions 2 1 2 7 presence_example_state)) = Inr [11]"
    "map_sum id length (fst (memory_online_group_sessions 2 ''g'' presence_example_state)) = Inr 1"
    "fst (memory_online_group_sessions 9 ''g'' presence_example_state) = Inr []"
    by code_simp+
  moreover have "always_rejects presence_example_policies (1, 2)" "capped_at presence_example_policies (1, 2) 2"
    "never_kicks presence_example_policies (1, 2)"
    by (simp_all add: always_rejects_def capped_at_def never_kicks_def presence_example_policies_def
        presence_example_policy_def)
  ultimately show ?thesis
    using presence_policy_enforced [OF presence_example_reachable, of 2 11 "''g''" 1 2 7 2] by auto
qed

subsection \<open>Pushes reach their sessions\<close>

text \<open>What the resolver relies on of a directory in a state that is \<open>ok\<close>: queries answer from the live leases and
leave them as they are.\<close>

locale lawful_directory =
  fixes D :: "'s online_directory" and live :: "'s \<Rightarrow> session_lease set" and ok :: "'s \<Rightarrow> bool"
  assumes session_live: "ok s \<Longrightarrow> \<exists>l s'. dir_session D u s = (Inr l, s') \<and> ok s' \<and> live s' = live s \<and>
      set_option l = {l \<in> live s. sl_session_id l = u}"
    and user_live: "ok s \<Longrightarrow> \<exists>ls s'. dir_user_sessions D region realm user s = (Inr ls, s') \<and> ok s' \<and> live s' = live s \<and>
      set ls = {l \<in> live s. lease_user_key l = (region, realm, user)}"
begin

lemma users_gateways_live:
  "ok s \<Longrightarrow> \<exists>gs s'. users_gateways D region realm users s = (Inr gs, s') \<and> ok s' \<and> live s' = live s \<and>
     set gs = sl_gateway_id ` {l \<in> live s. \<exists>user \<in> set users. lease_user_key l = (region, realm, user)}"
proof (induction users arbitrary: s)
  case (Cons user users)
  obtain ls s1 where one: "dir_user_sessions D region realm user s = (Inr ls, s1)" "ok s1" "live s1 = live s"
    "set ls = {l \<in> live s. lease_user_key l = (region, realm, user)}" using user_live [OF Cons.prems] by blast
  obtain gs s2 where two: "users_gateways D region realm users s1 = (Inr gs, s2)" "ok s2" "live s2 = live s1"
    "set gs = sl_gateway_id ` {l \<in> live s1. \<exists>user \<in> set users. lease_user_key l = (region, realm, user)}"
    using Cons.IH [OF one(2)] by blast
  show ?case
    using one two by auto
qed simp

lemma push_reaches:
  assumes "ok s" "push_request_validate r = Inr ()"
    and "sessions = (case pr_target r of
        SessionTarget u \<Rightarrow> {l \<in> live s. sl_session_id l = u}
      | Disconnect u \<Rightarrow> {l \<in> live s. sl_session_id l = u}
      | User user \<Rightarrow> {l \<in> live s. lease_user_key l = (pr_region_id r, pr_realm_id r, user)}
      | Users users \<Rightarrow> {l \<in> live s. \<exists>user \<in> set users. lease_user_key l = (pr_region_id r, pr_realm_id r, user)}
      | _ \<Rightarrow> {})"
    and "case pr_target r of Topic _ \<Rightarrow> False | JoinTopic _ _ \<Rightarrow> False | LeaveTopic _ _ \<Rightarrow> False | _ \<Rightarrow> True"
  shows "\<exists>gateways. fst (resolve_gateways D r s) = Inr gateways \<and> sorted gateways \<and> distinct gateways \<and>
    set gateways = sl_gateway_id ` sessions"
proof -
  have one: "\<exists>l s'. dir_session D u s = (Inr l, s') \<and> set (lease_gateways l) = sl_gateway_id ` {l \<in> live s. sl_session_id l = u}" for u
  proof -
    obtain l s' where "dir_session D u s = (Inr l, s')" "set_option l = {l \<in> live s. sl_session_id l = u}"
      using session_live [OF assms(1)] by blast
    moreover have "set (lease_gateways l) = sl_gateway_id ` set_option l" by (cases l) (simp_all add: lease_gateways_def)
    ultimately show ?thesis by auto
  qed
  note users = users_gateways_live [OF assms(1), of "pr_region_id r" "pr_realm_id r"]
  show ?thesis
  proof (cases "pr_target r")
    case (SessionTarget u)
    then show ?thesis using one [of u] assms(2,3) by (auto simp: resolve_gateways_def Let_def)
  next
    case (Disconnect u)
    then show ?thesis using one [of u] assms(2,3) by (auto simp: resolve_gateways_def Let_def)
  next
    case (User user)
    then show ?thesis using users [of "[user]"] assms(2,3) by (auto simp: resolve_gateways_def Let_def simp del: users_gateways.simps)
  next
    case (Users us)
    then show ?thesis using users [of us] assms(2,3) by (auto simp: resolve_gateways_def Let_def simp del: users_gateways.simps)
  qed (use assms in \<open>simp_all add: resolve_gateways_def Let_def\<close>)
qed

end

interpretation online: lawful_directory "memory_online_directory now" "presence_live now" presence_ok for now
proof
  fix s u
  assume ok: "presence_ok s"
  then obtain allowed ident where inv: "presence_inv allowed ident s" by (auto simp: presence_ok_def)
  let ?s = "memory_online_purge now s"
  have "set_option (map_of (mon_sessions ?s) u) = {l \<in> presence_live now s. sl_session_id l = u}"
    by (rule session_lease_live [OF inv])
  with presence_live_purge [OF ok, of now] presence_invD(4) [OF inv]
  show "\<exists>l s'. dir_session (memory_online_directory now) u s = (Inr l, s') \<and> presence_ok s' \<and>
      presence_live now s' = presence_live now s \<and> set_option l = {l \<in> presence_live now s. sl_session_id l = u}"
    by (simp add: memory_online_directory_def memory_online_session_def Let_def)
next
  fix s region realm user
  assume ok: "presence_ok s"
  then have "\<not> mon_poisoned s" using presence_invD(4) by (auto simp: presence_ok_def)
  with presence_live_purge [OF ok, of now]
  show "\<exists>ls s'. dir_user_sessions (memory_online_directory now) region realm user s = (Inr ls, s') \<and> presence_ok s' \<and>
      presence_live now s' = presence_live now s \<and>
      set ls = {l \<in> presence_live now s. lease_user_key l = (region, realm, user)}"
    by (auto simp: memory_online_directory_def memory_online_user_sessions_def Let_def)
qed

text \<open>A push to a user goes to exactly the gateways that hold a live session of the user, each once.\<close>

lemma push_to_user:
  assumes "presence_reachable allowed ident s" "push_request_validate r = Inr ()" "pr_target r = User user"
  shows "\<exists>gateways. fst (resolve_gateways (memory_online_directory now) r s) = Inr gateways \<and> distinct gateways \<and>
    set gateways = sl_gateway_id ` {l \<in> presence_live now s. lease_user_key l = (pr_region_id r, pr_realm_id r, user)}"
proof -
  have "presence_ok s" using presence_reachable_inv [OF assms(1)] by (auto simp: presence_ok_def)
  from online.push_reaches [OF this assms(2) refl, of now] assms(3) show ?thesis by auto
qed

end
