(* ===== verification/Gateway_Drain.thy ===== *)
theory Gateway_Drain
  imports Core_Error
begin

section \<open>Draining the gateway\<close>

text \<open>
  Model of \<open>crates/elura-gateway/src/transport/drain.rs\<close>. Several tasks call the controller at once, so
  every access to one of its atomics is a step of its own and a task is the point it has reached. The steps interleave
  sequentially consistently. \<open>Notify\<close> of tokio is the number of calls of
  \<open>notify_waiters\<close>: a \<open>notified\<close> future is complete once there was a call after its creation.
\<close>

subsection \<open>Data\<close>

text \<open>A session in \<open>enter\<close> after the first look at the flag and after the increment; inside; in \<open>leave\<close>
before the decrement; and a task that has a call of \<open>notify_waiters\<close> left.\<close>

datatype drain_task = Entering | Entered | Inside | Leaving | Notifying

text \<open>A call of \<open>wait_empty\<close>: at the head of the loop, with a future created, waiting for it, returned.\<close>

datatype drain_waiter = Checking | Created nat | Awaiting nat | Returned

record drain_controller =
  dr_draining :: bool
  dr_active :: usize
  dr_changed :: nat

record drain_system =
  ds_controller :: drain_controller
  ds_tasks :: "drain_task list"
  ds_waiters :: "drain_waiter list"

definition drain_default :: drain_controller where
  "drain_default = \<lparr>dr_draining = False, dr_active = 0, dr_changed = 0\<rparr>"

subsection \<open>Steps\<close>

text \<open>\<open>begin\<close>: the store, with the notification left to do.\<close>

definition drain_begin :: "drain_system \<Rightarrow> drain_system" where
  "drain_begin s = s\<lparr>ds_controller := (ds_controller s)\<lparr>dr_draining := True\<rparr>, ds_tasks := ds_tasks s @ [Notifying]\<rparr>"

text \<open>\<open>enter\<close>: the first look at the flag, which refuses the call or lets it go on.\<close>

definition drain_enter :: "drain_system \<Rightarrow> core_error + drain_system" where
  "drain_enter s =
     (if dr_draining (ds_controller s) then Inl Unavailable else Inr (s\<lparr>ds_tasks := ds_tasks s @ [Entering]\<rparr>))"

text \<open>\<open>leave\<close>: the decrement, and whether a notification follows.\<close>

definition drain_leave :: "drain_controller \<Rightarrow> bool \<times> drain_controller" where
  "drain_leave c = (dr_active c = 1, c\<lparr>dr_active := dr_active c - 1\<rparr>)"

text \<open>The next access of a task: the task it becomes, or \<open>None\<close> when it is through.\<close>

fun drain_task_step :: "drain_task \<Rightarrow> drain_controller \<Rightarrow> drain_task option \<times> drain_controller" where
  "drain_task_step Entering c = (Some Entered, c\<lparr>dr_active := dr_active c + 1\<rparr>)"
| "drain_task_step Entered c = (Some (if dr_draining c then Leaving else Inside), c)"
| "drain_task_step Inside c = (Some Leaving, c)"
| "drain_task_step Leaving c =
     (case drain_leave c of (notify, c) \<Rightarrow> (if notify then Some Notifying else None, c))"
| "drain_task_step Notifying c = (None, c\<lparr>dr_changed := dr_changed c + 1\<rparr>)"

definition drain_advance :: "nat \<Rightarrow> drain_system \<Rightarrow> drain_system option" where
  "drain_advance i s =
     (if i < length (ds_tasks s)
      then (case drain_task_step (ds_tasks s ! i) (ds_controller s) of
              (task, c) \<Rightarrow> Some (s\<lparr>ds_controller := c,
                ds_tasks := take i (ds_tasks s) @ (case task of None \<Rightarrow> [] | Some t \<Rightarrow> [t]) @ drop (Suc i) (ds_tasks s)\<rparr>))
      else None)"

text \<open>\<open>wait_empty\<close>: the next access of a call, \<open>None\<close> while it is suspended.\<close>

fun drain_waiter_step :: "drain_waiter \<Rightarrow> drain_controller \<Rightarrow> drain_waiter option" where
  "drain_waiter_step Checking c = Some (if dr_active c = 0 then Returned else Created (dr_changed c))"
| "drain_waiter_step (Created n) c = Some (if dr_active c = 0 then Returned else Awaiting n)"
| "drain_waiter_step (Awaiting n) c = (if n < dr_changed c then Some Checking else None)"
| "drain_waiter_step Returned c = None"

definition drain_wait :: "nat \<Rightarrow> drain_system \<Rightarrow> drain_system option" where
  "drain_wait i s =
     (if i < length (ds_waiters s)
      then map_option (\<lambda>w. s\<lparr>ds_waiters := (ds_waiters s)[i := w]\<rparr>)
             (drain_waiter_step (ds_waiters s ! i) (ds_controller s))
      else None)"

inductive drain_step :: "drain_system \<Rightarrow> drain_system \<Rightarrow> bool" where
  step_begin: "drain_step s (drain_begin s)"
| step_enter: "drain_enter s = Inr s' \<Longrightarrow> drain_step s s'"
| step_advance: "drain_advance i s = Some s' \<Longrightarrow> drain_step s s'"
| step_wait_empty: "drain_step s (s\<lparr>ds_waiters := ds_waiters s @ [Checking]\<rparr>)"
| step_wait: "drain_wait i s = Some s' \<Longrightarrow> drain_step s s'"

definition drain_initial :: drain_system where
  "drain_initial = \<lparr>ds_controller = drain_default, ds_tasks = [], ds_waiters = []\<rparr>"

abbreviation drain_steps :: "drain_system \<Rightarrow> drain_system \<Rightarrow> bool" where
  "drain_steps \<equiv> drain_step\<^sup>*\<^sup>*"

subsection \<open>Invariants\<close>

definition counted :: "drain_task list \<Rightarrow> nat" where
  "counted tasks = length (filter (\<lambda>t. t \<in> {Entered, Inside, Leaving}) tasks)"

text \<open>The counter counts the tasks between increment and decrement, and a suspended waiter has somebody
who will wake it.\<close>

definition drain_inv :: "drain_system \<Rightarrow> bool" where
  "drain_inv s \<longleftrightarrow>
     dr_active (ds_controller s) = counted (ds_tasks s) \<and>
     (\<forall>n. Created n \<in> set (ds_waiters s) \<or> Awaiting n \<in> set (ds_waiters s) \<longrightarrow> n \<le> dr_changed (ds_controller s)) \<and>
     (Awaiting (dr_changed (ds_controller s)) \<in> set (ds_waiters s) \<longrightarrow>
        0 < dr_active (ds_controller s) \<or> Notifying \<in> set (ds_tasks s))"

lemma counted_simps [simp]:
  "counted [] = 0" "counted (t # ts) = (if t \<in> {Entered, Inside, Leaving} then 1 else 0) + counted ts"
  "counted (ts @ us) = counted ts + counted us"
  by (simp_all add: counted_def)

lemma split_task:
  assumes "i < length ts"
  obtains a t b where "ts = a @ t # b" "take i ts = a" "drop (Suc i) ts = b" "ts ! i = t"
  using id_take_nth_drop [OF assms] by metis

lemma drain_advance_shape:
  assumes "drain_advance i s = Some s'"
  obtains a t b where "ds_tasks s = a @ t # b"
    "s' = s\<lparr>ds_controller := snd (drain_task_step t (ds_controller s)),
       ds_tasks := a @ (case fst (drain_task_step t (ds_controller s)) of None \<Rightarrow> [] | Some t \<Rightarrow> [t]) @ b\<rparr>"
proof -
  have i: "i < length (ds_tasks s)" using assms by (auto simp: drain_advance_def split: if_splits)
  then obtain a t b where ts: "ds_tasks s = a @ t # b" "take i (ds_tasks s) = a" "drop (Suc i) (ds_tasks s) = b"
    "ds_tasks s ! i = t" by (rule split_task)
  have "s' = s\<lparr>ds_controller := snd (drain_task_step t (ds_controller s)),
      ds_tasks := a @ (case fst (drain_task_step t (ds_controller s)) of None \<Rightarrow> [] | Some t \<Rightarrow> [t]) @ b\<rparr>"
    using assms i ts(2-4) by (auto simp: drain_advance_def split: prod.splits)
  with ts(1) show thesis by (rule that)
qed

lemma drain_inv_advance:
  assumes "drain_inv s" "drain_advance i s = Some s'"
  shows "drain_inv s'"
proof -
  obtain a t b where "ds_tasks s = a @ t # b"
    and s': "s' = s\<lparr>ds_controller := snd (drain_task_step t (ds_controller s)),
       ds_tasks := a @ (case fst (drain_task_step t (ds_controller s)) of None \<Rightarrow> [] | Some t \<Rightarrow> [t]) @ b\<rparr>"
    using assms(2) by (rule drain_advance_shape)
  with assms(1) show ?thesis by (cases t) (auto simp: drain_inv_def s' drain_leave_def dest: le_SucI)
qed

lemma drain_inv_wait:
  assumes inv: "drain_inv s" and run: "drain_wait i s = Some s'"
  shows "drain_inv s'"
proof -
  let ?w = "ds_waiters s ! i"
  obtain w where i: "i < length (ds_waiters s)" and w: "drain_waiter_step ?w (ds_controller s) = Some w"
    and s': "s' = s\<lparr>ds_waiters := (ds_waiters s)[i := w]\<rparr>"
    using run by (auto simp: drain_wait_def split: if_splits)
  have old: "?w \<in> set (ds_waiters s)" using i by simp
  have sub: "v = w \<or> v \<in> set (ds_waiters s)" if "v \<in> set (ds_waiters s')" for v
    using that set_update_subset_insert [of "ds_waiters s" i w] by (auto simp: s')
  have bound: "n \<le> dr_changed (ds_controller s)" if "w = Created n \<or> w = Awaiting n" for n
    using inv old w that unfolding drain_inv_def by (cases ?w) (auto split: if_splits)
  have woken: "0 < dr_active (ds_controller s)" if "w = Awaiting n" for n
    using w that by (cases ?w) (auto split: if_splits)
  have same: "ds_controller s' = ds_controller s" "ds_tasks s' = ds_tasks s" by (simp_all add: s')
  have "n \<le> dr_changed (ds_controller s)" if "Created n \<in> set (ds_waiters s') \<or> Awaiting n \<in> set (ds_waiters s')" for n
    using inv sub [of "Created n"] sub [of "Awaiting n"] bound [of n] that unfolding drain_inv_def by blast
  moreover have "0 < dr_active (ds_controller s) \<or> Notifying \<in> set (ds_tasks s)"
    if "Awaiting (dr_changed (ds_controller s)) \<in> set (ds_waiters s')"
    using inv sub [OF that] woken unfolding drain_inv_def by blast
  ultimately show ?thesis using inv unfolding drain_inv_def same by blast
qed

lemma drain_inv_step: "drain_step s s' \<Longrightarrow> drain_inv s \<Longrightarrow> drain_inv s'"
proof (induction rule: drain_step.induct)
  case (step_begin s)
  then show ?case unfolding drain_inv_def drain_begin_def by simp
next
  case (step_enter s s')
  then have "s' = s\<lparr>ds_tasks := ds_tasks s @ [Entering]\<rparr>" by (simp add: drain_enter_def split: if_splits)
  then show ?case using step_enter.prems unfolding drain_inv_def by (simp, metis)
next
  case (step_wait_empty s)
  then show ?case unfolding drain_inv_def by (simp, metis)
qed (rule drain_inv_advance drain_inv_wait; assumption)+

lemma drain_inv_steps: "drain_steps s s' \<Longrightarrow> drain_inv s \<Longrightarrow> drain_inv s'"
  by (induction rule: rtranclp_induct) (auto intro: drain_inv_step)

lemma drain_inv_initial: "drain_inv drain_initial"
  by (simp add: drain_inv_def drain_initial_def drain_default_def)

text \<open>While draining, nobody gets inside any more.\<close>

definition drained :: "drain_system \<Rightarrow> bool" where
  "drained s \<longleftrightarrow> dr_draining (ds_controller s) \<and> Inside \<notin> set (ds_tasks s)"

lemma drained_advance:
  assumes "drained s" "drain_advance i s = Some s'"
  shows "drained s'"
proof -
  obtain a t b where "ds_tasks s = a @ t # b"
    and s': "s' = s\<lparr>ds_controller := snd (drain_task_step t (ds_controller s)),
       ds_tasks := a @ (case fst (drain_task_step t (ds_controller s)) of None \<Rightarrow> [] | Some t \<Rightarrow> [t]) @ b\<rparr>"
    using assms(2) by (rule drain_advance_shape)
  with assms(1) show ?thesis by (cases t) (auto simp: drained_def drain_leave_def split: if_splits)
qed

lemma drained_step: "drain_step s s' \<Longrightarrow> drained s \<Longrightarrow> drained s'"
proof (induction rule: drain_step.induct)
  case (step_advance i s s')
  then show ?case by (simp add: drained_advance)
qed (auto simp: drained_def drain_begin_def drain_enter_def drain_wait_def split: if_splits)

lemma drained_steps: "drain_steps s s' \<Longrightarrow> drained s \<Longrightarrow> drained s'"
  by (induction rule: rtranclp_induct) (auto intro: drained_step)

lemma counted_inside: "counted tasks = 0 \<Longrightarrow> Inside \<notin> set tasks"
  by (auto simp: counted_def filter_empty_conv)

text \<open>C10. A drain is complete and loses no wake-up. However the calls interleave: once draining has begun and the counter has been
seen at zero, which is when \<open>wait_empty\<close> returns, no session is inside the gateway and none will ever be; and as
long as the counter is zero and no notification is under way, no call of \<open>wait_empty\<close> is suspended, so it goes on to
return.\<close>

theorem drain_complete:
  assumes "drain_steps drain_initial s" "dr_active (ds_controller s) = 0"
  shows "(dr_draining (ds_controller s) \<longrightarrow> (\<forall>s'. drain_steps s s' \<longrightarrow> Inside \<notin> set (ds_tasks s'))) \<and>
    (Notifying \<notin> set (ds_tasks s) \<longrightarrow>
      (\<forall>w \<in> set (ds_waiters s). w = Returned \<or> (\<exists>v. drain_waiter_step w (ds_controller s) = Some v)))"
proof (intro conjI impI allI ballI)
  have inv: "drain_inv s" by (rule drain_inv_steps [OF assms(1) drain_inv_initial])
  fix s' assume "dr_draining (ds_controller s)" and steps: "drain_steps s s'"
  then have "drained s" using inv assms(2) by (simp add: drained_def drain_inv_def counted_inside)
  then show "Inside \<notin> set (ds_tasks s')" using drained_steps [OF steps] by (simp add: drained_def)
next
  have inv: "drain_inv s" by (rule drain_inv_steps [OF assms(1) drain_inv_initial])
  fix w assume "Notifying \<notin> set (ds_tasks s)" and w: "w \<in> set (ds_waiters s)"
  then have "Awaiting (dr_changed (ds_controller s)) \<notin> set (ds_waiters s)"
    using inv assms(2) unfolding drain_inv_def by simp
  moreover have "n \<le> dr_changed (ds_controller s)" if "w = Awaiting n" for n
    using inv w that unfolding drain_inv_def by blast
  ultimately show "w = Returned \<or> (\<exists>v. drain_waiter_step w (ds_controller s) = Some v)"
    using w by (cases w) (auto simp: le_less)
qed

text \<open>A schedule of steps, to run the system on.\<close>

datatype drain_move = Begin | Enter | Advance nat | WaitEmpty | Wait nat

fun drain_exec :: "drain_move list \<Rightarrow> drain_system \<Rightarrow> drain_system option" where
  "drain_exec [] s = Some s"
| "drain_exec (move # moves) s =
     Option.bind
       (case move of
          Begin \<Rightarrow> Some (drain_begin s)
        | Enter \<Rightarrow> (case drain_enter s of Inl _ \<Rightarrow> None | Inr s' \<Rightarrow> Some s')
        | Advance i \<Rightarrow> drain_advance i s
        | WaitEmpty \<Rightarrow> Some (s\<lparr>ds_waiters := ds_waiters s @ [Checking]\<rparr>)
        | Wait i \<Rightarrow> drain_wait i s)
       (drain_exec moves)"

lemma drain_exec_steps: "drain_exec moves s = Some s' \<Longrightarrow> drain_steps s s'"
proof (induction moves arbitrary: s)
  case (Cons move moves)
  then obtain s1 where "drain_step s s1" "drain_exec moves s1 = Some s'"
    by (auto simp: bind_eq_Some_conv split: drain_move.splits sum.splits intro: drain_step.intros)
  then show ?case using Cons.IH by (meson converse_rtranclp_into_rtranclp)
qed simp

text \<open>A session enters while the drain begins, sees the flag at its second look and leaves; a call of \<open>wait_empty\<close>
that saw it counted is woken.\<close>

definition drain_run :: "drain_system option" where
  "drain_run = drain_exec [Enter, Advance 0, Begin, WaitEmpty, Wait 0, Wait 0, Advance 0, Advance 0, Advance 0, Advance 0]
     drain_initial"

theorem drain_complete_witness:
  "case drain_run of None \<Rightarrow> False
   | Some s \<Rightarrow> ds_waiters s = [Awaiting 0] \<and> (\<exists>v. drain_waiter_step (Awaiting 0) (ds_controller s) = Some v) \<and>
       (\<forall>s'. drain_steps s s' \<longrightarrow> Inside \<notin> set (ds_tasks s'))"
proof -
  have run: "case drain_run of None \<Rightarrow> False
    | Some s \<Rightarrow> dr_draining (ds_controller s) \<and> dr_active (ds_controller s) = 0 \<and> ds_tasks s = [] \<and>
        ds_waiters s = [Awaiting 0]" by code_simp
  then obtain s where s: "drain_run = Some s" by (auto split: option.splits)
  have "dr_draining (ds_controller s)" "dr_active (ds_controller s) = 0" "ds_tasks s = []" "ds_waiters s = [Awaiting 0]"
    using run unfolding s option.case by blast+
  then show ?thesis
    using drain_complete [OF drain_exec_steps [OF s [unfolded drain_run_def]]] unfolding s option.case by simp
qed

end
