(* ===== verification/Gateway_Access.thy ===== *)
theory Gateway_Access
  imports Session Frame_Codec Collections
begin

section \<open>Access to the gateway\<close>

text \<open>
  Model of what decides whether a connection may go on: the account versions of
  \<open>crates/elura-core/src/account_version.rs\<close> and \<open>account_version/memory.rs\<close> with the check that the
  gateway makes of them (\<open>elura-gateway/src/transport/account_version.rs\<close>), the admission policy
  (\<open>transport/admission.rs\<close>) and the frames a client may send (\<open>client_protocol.rs\<close>). A call under a
  timeout is its answer, or \<open>None\<close> when the time ran out first. The locks of the memory store are taken over when
  poisoned.
\<close>

subsection \<open>Account versions\<close>

record account_version_key =
  avk_region_id :: u32
  avk_realm_id :: u32
  avk_user_id :: i64

definition account_version_key_validate :: "account_version_key \<Rightarrow> core_error + unit" where
  "account_version_key_validate k =
     (if avk_region_id k = 0 \<or> avk_realm_id k = 0 \<or> avk_user_id k \<le> 0
      then Inl (InvalidConfig ''account version key requires region, realm, and user'') else Inr ())"

definition account_version_key_new :: "u32 \<Rightarrow> u32 \<Rightarrow> i64 \<Rightarrow> core_error + account_version_key" where
  "account_version_key_new region_id realm_id user_id =
     (let key = \<lparr>avk_region_id = region_id, avk_realm_id = realm_id, avk_user_id = user_id\<rparr>
      in case account_version_key_validate key of Inl e \<Rightarrow> Inl e | Inr _ \<Rightarrow> Inr key)"

definition account_version_key_from_identity :: "identity \<Rightarrow> account_version_key" where
  "account_version_key_from_identity i =
     \<lparr>avk_region_id = id_region_id i, avk_realm_id = id_realm_id i, avk_user_id = id_user_id i\<rparr>"

record memory_account_versions =
  mav_versions :: "(account_version_key \<times> u64) list"

definition validate_write :: "account_version_key \<Rightarrow> u64 \<Rightarrow> core_error + unit" where
  "validate_write key version =
     (case account_version_key_validate key of
        Inl e \<Rightarrow> Inl e
      | Inr _ \<Rightarrow> if version = 0 then Inl (InvalidConfig ''account version must be positive'') else Inr ())"

definition memory_versions_current ::
    "memory_account_versions \<Rightarrow> account_version_key \<Rightarrow> core_error + u64 option" where
  "memory_versions_current s key =
     (case account_version_key_validate key of Inl e \<Rightarrow> Inl e | Inr _ \<Rightarrow> Inr (map_of (mav_versions s) key))"

definition memory_versions_set ::
    "account_version_key \<Rightarrow> u64 \<Rightarrow> memory_account_versions \<Rightarrow> (core_error + unit) \<times> memory_account_versions" where
  "memory_versions_set key version s =
     (case validate_write key version of
        Inl e \<Rightarrow> (Inl e, s)
      | Inr _ \<Rightarrow> (Inr (), s\<lparr>mav_versions := hm_insert key version (mav_versions s)\<rparr>))"

definition memory_versions_increment ::
    "account_version_key \<Rightarrow> memory_account_versions \<Rightarrow> (core_error + u64) \<times> memory_account_versions" where
  "memory_versions_increment key s =
     (case account_version_key_validate key of
        Inl e \<Rightarrow> (Inl e, s)
      | Inr _ \<Rightarrow>
          (case checked_add (case map_of (mav_versions s) key of None \<Rightarrow> 0 | Some v \<Rightarrow> v) 1 of
             None \<Rightarrow> (Inl (Internal ''account version overflow''), s)
           | Some v \<Rightarrow> (Inr v, s\<lparr>mav_versions := hm_insert key v (mav_versions s)\<rparr>)))"

subsection \<open>The check of the account version\<close>

record account_version_settings =
  avs_check_interval :: duration
  avs_timeout :: duration
  avs_fail_open :: bool

definition account_version_settings_default :: account_version_settings where
  "account_version_settings_default = \<lparr>avs_check_interval = secs 5, avs_timeout = secs 1, avs_fail_open = False\<rparr>"

definition account_version_settings_validate :: "account_version_settings \<Rightarrow> core_error + unit" where
  "account_version_settings_validate c =
     (if avs_check_interval c = 0 \<or> avs_timeout c = 0
      then Inl (InvalidConfig ''account version interval and timeout must be positive'') else Inr ())"

text \<open>\<open>answer\<close> is what the store says about a key, in time or not.\<close>

definition account_version_check ::
    "account_version_settings \<Rightarrow> (account_version_key \<Rightarrow> (core_error + u64 option) option) \<Rightarrow> identity \<Rightarrow>
     core_error + unit" where
  "account_version_check c answer i =
     (case identity_validate i of
        Inl e \<Rightarrow> Inl e
      | Inr _ \<Rightarrow>
          (case answer (account_version_key_from_identity i) of
             Some (Inr v) \<Rightarrow>
               (case v of
                  None \<Rightarrow> Inl SessionRevoked
                | Some version \<Rightarrow> if version \<noteq> 0 \<and> version = id_generation i then Inr () else Inl SessionRevoked)
           | Some (Inl e) \<Rightarrow> if avs_fail_open c then Inr () else Inl e
           | None \<Rightarrow> if avs_fail_open c then Inr () else Inl Timeout))"

subsection \<open>Admission\<close>

datatype admission_stage = Connected | AuthenticatedStage

record 'ip admission_request =
  ar_stage :: admission_stage
  ar_remote_ip :: 'ip
  ar_identity :: "identity option"

definition admission_request_validate :: "'ip admission_request \<Rightarrow> core_error + unit" where
  "admission_request_validate r =
     (case (ar_stage r, ar_identity r) of
        (Connected, None) \<Rightarrow> Inr ()
      | (AuthenticatedStage, Some i) \<Rightarrow> identity_validate i
      | _ \<Rightarrow> Inl (InvalidConfig ''admission stage and identity do not match''))"

record admission_rejection =
  arj_code :: string
  arj_reason :: string
  arj_retry_after :: "duration option"

definition is_ascii_lowercase :: "char \<Rightarrow> bool" where
  "is_ascii_lowercase c \<longleftrightarrow> byte_in 97 122 c"

definition admission_rejection_new ::
    "string \<Rightarrow> string \<Rightarrow> duration option \<Rightarrow> core_error + admission_rejection" where
  "admission_rejection_new code reason retry_after =
     (if code = [] \<or> 64 < length code
         \<or> \<not> list_all (\<lambda>b. is_ascii_lowercase b \<or> is_ascii_digit b \<or> b = CHR ''_'') code
         \<or> trim_is_empty reason \<or> 256 < length reason
         \<or> (case retry_after of None \<Rightarrow> False | Some d \<Rightarrow> d = 0)
      then Inl (InvalidConfig ''invalid admission rejection'')
      else Inr \<lparr>arj_code = code, arj_reason = reason, arj_retry_after = retry_after\<rparr>)"

datatype admission_decision = Allow | Deny admission_rejection

record realm_admission =
  ra_realms :: "(u32 \<times> u32) list"

definition realm_admission_new :: "(u32 \<times> u32) list \<Rightarrow> core_error + realm_admission" where
  "realm_admission_new realms =
     (if realms = [] \<or> list_ex (\<lambda>(region_id, realm_id). region_id = 0 \<or> realm_id = 0) realms
      then Inl (InvalidConfig ''Gateway realm allowlist cannot be empty or zero'')
      else Inr \<lparr>ra_realms = remdups realms\<rparr>)"

definition realm_admission_admit ::
    "realm_admission \<Rightarrow> 'ip admission_request \<Rightarrow> core_error + admission_decision" where
  "realm_admission_admit a r =
     (if ar_stage r = AuthenticatedStage
      then (case ar_identity r of
              None \<Rightarrow> Inl (InvalidConfig ''authenticated admission requires identity'')
            | Some i \<Rightarrow>
                if (id_region_id i, id_realm_id i) \<notin> set (ra_realms a)
                then (case admission_rejection_new ''wrong_realm''
                             ''this Gateway does not serve the selected realm'' None of
                        Inl e \<Rightarrow> Inl e
                      | Inr rejection \<Rightarrow> Inr (Deny rejection))
                else Inr Allow)
      else Inr Allow)"

record admission_settings =
  ads_timeout :: duration
  ads_fail_open :: bool

definition admission_settings_default :: admission_settings where
  "admission_settings_default = \<lparr>ads_timeout = millis 250, ads_fail_open = False\<rparr>"

definition admission_settings_validate :: "admission_settings \<Rightarrow> core_error + unit" where
  "admission_settings_validate c =
     (if ads_timeout c = 0 then Inl (InvalidConfig ''admission timeout must be positive'') else Inr ())"

definition as_millis_u64 :: "duration \<Rightarrow> u64" where
  "as_millis_u64 d = (case u64_try_from (d div 1000000) of None \<Rightarrow> - 1 | Some v \<Rightarrow> v)"

definition admission_check ::
    "admission_settings \<Rightarrow> ('ip admission_request \<Rightarrow> (core_error + admission_decision) option) \<Rightarrow>
     'ip admission_request \<Rightarrow> core_error + unit" where
  "admission_check c admit r =
     (case admission_request_validate r of
        Inl e \<Rightarrow> Inl e
      | Inr _ \<Rightarrow>
          (case admit r of
             Some (Inr Allow) \<Rightarrow> Inr ()
           | Some (Inr (Deny rejection)) \<Rightarrow>
               Inl (AdmissionDenied (arj_code rejection) (arj_reason rejection)
                 (case arj_retry_after rejection of None \<Rightarrow> 0 | Some d \<Rightarrow> as_millis_u64 d))
           | Some (Inl e) \<Rightarrow> if \<not> ads_fail_open c then Inl e else Inr ()
           | None \<Rightarrow> if \<not> ads_fail_open c then Inl Timeout else Inr ()))"

subsection \<open>Frames of a client\<close>

definition ROUTE_AUTHENTICATE :: u32 where
  "ROUTE_AUTHENTICATE = 1"

definition ROUTE_HEARTBEAT :: u32 where
  "ROUTE_HEARTBEAT = 2"

definition ROUTE_RECONNECT :: u32 where
  "ROUTE_RECONNECT = 3"

definition ROUTE_SESSION_CONTROL :: u32 where
  "ROUTE_SESSION_CONTROL = 4"

definition FIRST_APPLICATION_ROUTE :: u32 where
  "FIRST_APPLICATION_ROUTE = 100"

datatype client_frame_action = ClientRequest | HeartbeatResponse

definition validate_client_frame :: "frame \<Rightarrow> bool \<Rightarrow> u64 option \<Rightarrow> core_error + client_frame_action" where
  "validate_client_frame f authenticated pending_heartbeat =
     (if fr_kind f = Response \<and> fr_route f = ROUTE_HEARTBEAT
      then (if fr_request_id f \<noteq> (case pending_heartbeat of None \<Rightarrow> 0 | Some n \<Rightarrow> n) \<or> fr_sequence f \<noteq> 0
               \<or> fr_payload f \<noteq> []
            then Inl (InvalidFrame ''heartbeat response does not match an outstanding request'')
            else Inr HeartbeatResponse)
      else if fr_kind f \<noteq> Request
      then Inl (InvalidFrame ''gateway accepts request frames and correlated heartbeat responses only'')
      else if fr_route f < FIRST_APPLICATION_ROUTE \<and> fr_sequence f \<noteq> 0
      then Inl (InvalidFrame ''framework requests must have sequence zero'')
      else if \<not> (if authenticated
                then fr_route f = ROUTE_HEARTBEAT \<or> fr_route f = ROUTE_RECONNECT \<or> FIRST_APPLICATION_ROUTE \<le> fr_route f
                else fr_route f = ROUTE_AUTHENTICATE)
      then Inl (InvalidFrame ''route is not allowed in the current session state'')
      else Inr ClientRequest)"

definition error_response :: "error_envelope json_codec \<Rightarrow> frame \<Rightarrow> core_error \<Rightarrow> frame" where
  "error_response J request e = frame_error request (error_envelope_to_bytes J (error_envelope_from e))"

subsection \<open>Revocation\<close>

text \<open>What the gateway relies on of a store of account versions: an increment raises the version of its key
and of no other.\<close>

locale account_version_store =
  fixes current :: "'s \<Rightarrow> account_version_key \<Rightarrow> core_error + u64 option"
    and increment :: "account_version_key \<Rightarrow> 's \<Rightarrow> (core_error + u64) \<times> 's"
  assumes increment_Inr: "increment key s = (Inr v, s') \<Longrightarrow>
      current s' key = Inr (Some v) \<and> (\<forall>w. current s key = Inr (Some w) \<longrightarrow> w < v)"
    and increment_Inl: "increment key s = (Inl e, s') \<Longrightarrow> s' = s"
    and increment_other: "k \<noteq> key \<Longrightarrow> current (snd (increment key s)) k = current s k"
begin

definition increments :: "account_version_key list \<Rightarrow> 's \<Rightarrow> 's" where
  "increments keys s = fold (\<lambda>key s. snd (increment key s)) keys s"

lemma increment_keeps:
  assumes "current s key = Inr (Some v)"
  shows "\<exists>w. current (snd (increment k s)) key = Inr (Some w) \<and> v \<le> w"
proof (cases "k = key")
  case False
  then show ?thesis using increment_other [of key k s] assms by auto
next
  case True
  obtain r s' where run: "increment k s = (r, s')" by fastforce
  show ?thesis
  proof (cases r)
    case (Inl e)
    then have "s' = s" using run increment_Inl [of k s e s'] by simp
    then show ?thesis using run assms by simp
  next
    case (Inr w)
    then have "current s' key = Inr (Some w)" "v < w"
      using increment_Inr [of k s w s'] run True assms by auto
    then show ?thesis using run by auto
  qed
qed

lemma increments_keep:
  "current s key = Inr (Some v) \<Longrightarrow> \<exists>w. current (increments keys s) key = Inr (Some w) \<and> v \<le> w"
proof (induction keys arbitrary: s v)
  case (Cons k keys)
  obtain w where w: "current (snd (increment k s)) key = Inr (Some w)" "v \<le> w" using increment_keeps [OF Cons.prems] by blast
  from Cons.IH [OF w(1)] w(2) show ?case by (auto simp: increments_def)
qed (simp add: increments_def)

lemma revoked:
  assumes "increment (account_version_key_from_identity i) s = (Inr v, s')"
    and "identity_validate i = Inr ()" "id_generation i < v"
  shows "account_version_check c (Some \<circ> current (increments keys s')) i = Inl SessionRevoked"
proof -
  obtain w where "current (increments keys s') (account_version_key_from_identity i) = Inr (Some w)" "v \<le> w"
    using increments_keep increment_Inr [OF assms(1)] by blast
  moreover from this(2) have "w \<noteq> id_generation i" using assms(3) by auto
  ultimately show ?thesis using assms(2) by (simp add: account_version_check_def)
qed

end

lemma memory_increment_Inr:
  "memory_versions_increment key s = (Inr v, s') \<Longrightarrow>
     account_version_key_validate key = Inr () \<and>
     unat v = Suc (case map_of (mav_versions s) key of None \<Rightarrow> 0 | Some w \<Rightarrow> unat w) \<and>
     s' = s\<lparr>mav_versions := hm_insert key v (mav_versions s)\<rparr>"
  by (auto simp: memory_versions_increment_def checked_add_Some_iff split: sum.splits option.splits)

interpretation memory_versions: account_version_store memory_versions_current memory_versions_increment
proof
  fix key s v s'
  assume "memory_versions_increment key s = (Inr v, s')"
  from memory_increment_Inr [OF this]
  show "memory_versions_current s' key = Inr (Some v) \<and> (\<forall>w. memory_versions_current s key = Inr (Some w) \<longrightarrow> w < v)"
    by (auto simp: memory_versions_current_def hm_insert_def word_less_nat_alt split: option.splits)
next
  fix key s e s'
  assume "memory_versions_increment key s = (Inl e, s')"
  then show "s' = s" by (auto simp: memory_versions_increment_def split: sum.splits option.splits)
next
  fix k key :: account_version_key and s
  assume "k \<noteq> key"
  then show "memory_versions_current (snd (memory_versions_increment key s)) k = memory_versions_current s k"
    by (auto simp: memory_versions_current_def memory_versions_increment_def hm_insert_def map_of_remove
        split: sum.splits option.splits)
qed

text \<open>C29. Raising the version of an account revokes its older sessions for good. Once an increment has returned
\<open>v\<close>, and after any further increments of any accounts, a session of the account with a generation below \<open>v\<close> fails the check
with \<open>SessionRevoked\<close>, also when the check is set to fail open; a session of the generation \<open>v\<close> passes as long as no
other increment of the account follows.\<close>

theorem account_revocation:
  assumes "memory_versions_increment (account_version_key_from_identity i) s = (Inr v, s')"
    and "identity_validate i = Inr ()"
  shows "if id_generation i < v
    then account_version_check c
      (Some \<circ> memory_versions_current (fold (\<lambda>key s. snd (memory_versions_increment key s)) keys s')) i = Inl SessionRevoked
    else id_generation i = v \<and> account_version_key_from_identity i \<notin> set keys \<longrightarrow>
      account_version_check c
        (Some \<circ> memory_versions_current (fold (\<lambda>key s. snd (memory_versions_increment key s)) keys s')) i = Inr ()"
proof -
  let ?key = "account_version_key_from_identity i"
  have same: "memory_versions_current (fold (\<lambda>key s. snd (memory_versions_increment key s)) keys t) ?key =
      memory_versions_current t ?key" if "?key \<notin> set keys" for t
    using that by (induction keys arbitrary: t) (simp_all add: memory_versions.increment_other)
  have "memory_versions_current s' ?key = Inr (Some v)" "v \<noteq> 0"
    using memory_versions.increment_Inr [OF assms(1)] memory_increment_Inr [OF assms(1)] by auto
  then show ?thesis
    using memory_versions.revoked [OF assms, of c keys] same assms(2)
    by (auto simp: memory_versions.increments_def account_version_check_def)
qed

definition revocation_identity :: "u64 \<Rightarrow> identity" where
  "revocation_identity generation =
     \<lparr>id_account_id = 1, id_user_id = 2, id_region_id = 3, id_realm_id = 4, id_generation = generation\<rparr>"

theorem account_revocation_witness:
  "account_version_check \<lparr>avs_check_interval = 1, avs_timeout = 1, avs_fail_open = True\<rparr>
     (Some \<circ> memory_versions_current \<lparr>mav_versions = [(account_version_key_from_identity (revocation_identity 1), 2)]\<rparr>)
     (revocation_identity 1) = Inl SessionRevoked"
  using account_revocation [of "revocation_identity 1" "\<lparr>mav_versions = [(account_version_key_from_identity (revocation_identity 1), 1)]\<rparr>"
      2 "\<lparr>mav_versions = [(account_version_key_from_identity (revocation_identity 1), 2)]\<rparr>"
      "\<lparr>avs_check_interval = 1, avs_timeout = 1, avs_fail_open = True\<rparr>" "[]"]
  by (simp add: memory_versions_increment_def account_version_key_validate_def account_version_key_from_identity_def
      revocation_identity_def identity_validate_def checked_add_def hm_insert_def map_remove_def word_le_nat_alt)

subsection \<open>Who gets in\<close>

text \<open>An authenticated session passes a fail-closed admission by realm exactly when its identity is valid and its realm
is served.\<close>

lemma realm_admission_exact:
  assumes "realm_admission_new realms = Inr a" "\<not> ads_fail_open c" "ar_stage r = AuthenticatedStage"
  shows "admission_check c (Some \<circ> realm_admission_admit a) r = Inr () \<longleftrightarrow>
    (\<exists>i. ar_identity r = Some i \<and> identity_validate i = Inr () \<and> (id_region_id i, id_realm_id i) \<in> set realms)"
proof -
  have "ra_realms a = remdups realms" using assms(1) by (auto simp: realm_admission_new_def split: if_splits)
  then show ?thesis
    using assms(2,3)
    by (cases "ar_identity r")
      (auto simp: admission_check_def admission_request_validate_def realm_admission_admit_def split: sum.splits)
qed

text \<open>What a client may say. Of the frames that the codec lets through, the gateway acts on a request to authenticate before the session
is authenticated, and afterwards on heartbeats, reconnects and application routes and nothing else; framework
requests carry no sequence; and it takes a heartbeat response only as the empty answer to the heartbeat that is outstanding.\<close>

theorem client_frames_gated:
  assumes "frame_validate f max_payload = Inr ()"
  shows "(validate_client_frame f authenticated pending = Inr ClientRequest \<longleftrightarrow>
      fr_kind f = Request \<and>
      (if authenticated
       then fr_route f \<in> {ROUTE_HEARTBEAT, ROUTE_RECONNECT} \<and> fr_sequence f = 0 \<or> FIRST_APPLICATION_ROUTE \<le> fr_route f
       else fr_route f = ROUTE_AUTHENTICATE \<and> fr_sequence f = 0)) \<and>
    (validate_client_frame f authenticated pending = Inr HeartbeatResponse \<longleftrightarrow>
      fr_kind f = Response \<and> fr_route f = ROUTE_HEARTBEAT \<and> pending = Some (fr_request_id f) \<and>
      fr_sequence f = 0 \<and> fr_payload f = [])"
proof -
  have "fr_kind f = Response \<Longrightarrow> fr_request_id f \<noteq> 0" using assms by (auto simp: frame_validate_def split: if_splits)
  moreover have "\<not> FIRST_APPLICATION_ROUTE \<le> ROUTE_HEARTBEAT" "\<not> FIRST_APPLICATION_ROUTE \<le> ROUTE_RECONNECT"
    "\<not> FIRST_APPLICATION_ROUTE \<le> ROUTE_AUTHENTICATE"
    by (simp_all add: FIRST_APPLICATION_ROUTE_def ROUTE_HEARTBEAT_def ROUTE_RECONNECT_def ROUTE_AUTHENTICATE_def
        word_le_nat_alt)
  ultimately show ?thesis
    by (cases pending) (auto simp: validate_client_frame_def not_le not_less)
qed

theorem client_frames_gated_witness:
  "let f = \<lparr>fr_kind = Response, fr_flags = 0, fr_route = 2, fr_request_id = 77, fr_sequence = 0, fr_payload = []\<rparr>
   in validate_client_frame f True (Some 77) = Inr HeartbeatResponse \<and> validate_client_frame f True None \<noteq> Inr HeartbeatResponse"
  using client_frames_gated [of "\<lparr>fr_kind = Response, fr_flags = 0, fr_route = 2, fr_request_id = 77, fr_sequence = 0, fr_payload = []\<rparr>"
      8 True "Some 77"]
    client_frames_gated [of "\<lparr>fr_kind = Response, fr_flags = 0, fr_route = 2, fr_request_id = 77, fr_sequence = 0, fr_payload = []\<rparr>"
      8 True None]
  by (simp add: frame_validate_def ROUTE_HEARTBEAT_def)

end
