(* ===== verification/Gateway_Sessions.thy ===== *)
theory Gateway_Sessions
  imports Session Frame_Codec Collections Gateway_Access
begin

section \<open>Sessions and connections of a gateway\<close>

text \<open>
  Model of \<open>crates/elura-gateway/src/session_state.rs\<close>, the index from users to their sessions and
  the messages that end a session, and of the connection limiter of \<open>transport/limits.rs\<close>. A \<open>HashSet\<close> is a list
  without repetitions. The push channel of a session is its queue with its capacity; a
  closed channel refuses like a full one.
\<close>

subsection \<open>The session index\<close>

record session_index =
  si_identities :: "(uuid \<times> identity) list"
  si_users :: "((u32 \<times> u32 \<times> i64) \<times> uuid list) list"

definition session_index_default :: session_index where
  "session_index_default = \<lparr>si_identities = [], si_users = []\<rparr>"

definition identity_key :: "identity \<Rightarrow> u32 \<times> u32 \<times> i64" where
  "identity_key i = (id_region_id i, id_realm_id i, id_user_id i)"

definition session_index_remove_user :: "uuid \<Rightarrow> identity \<Rightarrow> session_index \<Rightarrow> session_index" where
  "session_index_remove_user session_id i x =
     (let key = identity_key i
      in case map_of (si_users x) key of
           None \<Rightarrow> x
         | Some sessions \<Rightarrow>
             (let sessions = removeAll session_id sessions
              in x\<lparr>si_users := (if sessions = [] then map_remove key (si_users x)
                                else hm_insert key sessions (si_users x))\<rparr>))"

definition session_index_insert :: "uuid \<Rightarrow> identity \<Rightarrow> session_index \<Rightarrow> session_index" where
  "session_index_insert session_id i x =
     (let previous = map_of (si_identities x) session_id;
          x = x\<lparr>si_identities := hm_insert session_id i (si_identities x)\<rparr>;
          x = (case previous of None \<Rightarrow> x | Some p \<Rightarrow> session_index_remove_user session_id p x);
          sessions = (case map_of (si_users x) (identity_key i) of None \<Rightarrow> [] | Some sessions \<Rightarrow> sessions)
      in x\<lparr>si_users := hm_insert (identity_key i) (List.insert session_id sessions) (si_users x)\<rparr>)"

definition session_index_remove :: "uuid \<Rightarrow> session_index \<Rightarrow> identity option \<times> session_index" where
  "session_index_remove session_id x =
     (case map_of (si_identities x) session_id of
        None \<Rightarrow> (None, x)
      | Some i \<Rightarrow>
          (Some i, session_index_remove_user session_id i
             (x\<lparr>si_identities := map_remove session_id (si_identities x)\<rparr>)))"

text \<open>The two maps agree: a session is listed under a user exactly when it has an identity of that user,
and no user has an empty list.\<close>

definition user_sessions_of :: "session_index \<Rightarrow> u32 \<times> u32 \<times> i64 \<Rightarrow> uuid list" where
  "user_sessions_of x key = (case map_of (si_users x) key of None \<Rightarrow> [] | Some sessions \<Rightarrow> sessions)"

definition session_index_wf :: "session_index \<Rightarrow> bool" where
  "session_index_wf x \<longleftrightarrow>
     hm_wf (si_identities x) \<and> hm_wf (si_users x) \<and>
     (\<forall>key. distinct (user_sessions_of x key)) \<and> (\<forall>key. map_of (si_users x) key \<noteq> Some []) \<and>
     (\<forall>key session_id. session_id \<in> set (user_sessions_of x key) \<longleftrightarrow>
        (\<exists>i. map_of (si_identities x) session_id = Some i \<and> identity_key i = key))"

lemma remove_user_identities [simp]: "si_identities (session_index_remove_user session_id i x) = si_identities x"
  by (simp add: session_index_remove_user_def Let_def split: option.splits)

lemma remove_user_sessions:
  "user_sessions_of (session_index_remove_user session_id i x) key =
     (if key = identity_key i then removeAll session_id (user_sessions_of x key) else user_sessions_of x key)"
  by (auto simp: session_index_remove_user_def user_sessions_of_def Let_def hm_insert_def map_of_remove split: option.splits)

lemma remove_user_wf:
  assumes "hm_wf (si_users x)" "\<And>key. map_of (si_users x) key \<noteq> Some []"
  shows "hm_wf (si_users (session_index_remove_user session_id i x))"
    and "map_of (si_users (session_index_remove_user session_id i x)) key \<noteq> Some []"
  using assms
  by (auto simp: session_index_remove_user_def Let_def hm.map_laws split: option.splits)

lemma session_index_wfD:
  assumes "session_index_wf x"
  shows "hm_wf (si_identities x)" "hm_wf (si_users x)" "distinct (user_sessions_of x key)"
    "map_of (si_users x) key \<noteq> Some []"
    "session_id \<in> set (user_sessions_of x key) \<longleftrightarrow>
       (\<exists>i. map_of (si_identities x) session_id = Some i \<and> identity_key i = key)"
  using assms unfolding session_index_wf_def by blast+

lemma session_index_wfI:
  assumes "hm_wf (si_identities x)" "hm_wf (si_users x)" "\<And>key. distinct (user_sessions_of x key)"
    "\<And>key. map_of (si_users x) key \<noteq> Some []"
    "\<And>key session_id. session_id \<in> set (user_sessions_of x key) \<longleftrightarrow>
       (\<exists>i. map_of (si_identities x) session_id = Some i \<and> identity_key i = key)"
  shows "session_index_wf x"
  using assms unfolding session_index_wf_def by blast

lemma session_index_remove_wf:
  assumes wf: "session_index_wf x"
  shows "session_index_wf (snd (session_index_remove session_id x))"
proof (cases "map_of (si_identities x) session_id")
  case None
  then show ?thesis using wf by (simp add: session_index_remove_def)
next
  case (Some i)
  let ?x = "x\<lparr>si_identities := map_remove session_id (si_identities x)\<rparr>"
  have sessions: "user_sessions_of ?x key = user_sessions_of x key" for key by (simp add: user_sessions_of_def)
  have "session_index_wf (session_index_remove_user session_id i ?x)"
  proof (rule session_index_wfI)
    show "hm_wf (si_users (session_index_remove_user session_id i ?x))"
      by (rule remove_user_wf) (use session_index_wfD [OF wf] in simp_all)
    show "map_of (si_users (session_index_remove_user session_id i ?x)) key \<noteq> Some []" for key
      by (rule remove_user_wf) (use session_index_wfD [OF wf] in simp_all)
    show "distinct (user_sessions_of (session_index_remove_user session_id i ?x) key)" for key
      using session_index_wfD(3) [OF wf] by (simp add: remove_user_sessions sessions distinct_removeAll)
    show "sid \<in> set (user_sessions_of (session_index_remove_user session_id i ?x) key) \<longleftrightarrow>
        (\<exists>j. map_of (si_identities (session_index_remove_user session_id i ?x)) sid = Some j \<and> identity_key j = key)" for key sid
      using Some session_index_wfD(5) [OF wf, of sid key]
      by (auto simp: remove_user_sessions sessions map_of_remove)
  qed (use session_index_wfD(1) [OF wf] in \<open>simp add: hm.map_laws\<close>)
  then show ?thesis using Some by (simp add: session_index_remove_def)
qed

text \<open>Inserting a session is removing it and then listing it under its new user.\<close>

definition session_index_add :: "uuid \<Rightarrow> identity \<Rightarrow> session_index \<Rightarrow> session_index" where
  "session_index_add session_id i x =
     \<lparr>si_identities = hm_insert session_id i (si_identities x),
      si_users = hm_insert (identity_key i) (List.insert session_id (user_sessions_of x (identity_key i))) (si_users x)\<rparr>"

lemma session_index_insert_eq:
  assumes "session_index_wf x"
  shows "session_index_insert session_id i x = session_index_add session_id i (snd (session_index_remove session_id x))"
proof (cases "map_of (si_identities x) session_id")
  case None
  then show ?thesis
    by (simp add: session_index_insert_def session_index_add_def session_index_remove_def user_sessions_of_def Let_def)
next
  case (Some p)
  then show ?thesis
    by (auto simp: session_index_insert_def session_index_add_def session_index_remove_def user_sessions_of_def Let_def
        session_index_remove_user_def hm_insert_def map_remove_def split: option.splits)
qed

lemma session_index_add_wf:
  assumes wf: "session_index_wf x" and new: "map_of (si_identities x) session_id = None"
  shows "session_index_wf (session_index_add session_id i x)"
proof (rule session_index_wfI)
  let ?x = "session_index_add session_id i x"
  have sessions: "user_sessions_of ?x key =
      (if key = identity_key i then List.insert session_id (user_sessions_of x key) else user_sessions_of x key)" for key
    by (simp add: session_index_add_def user_sessions_of_def hm_insert_def map_of_remove)
  have identities: "map_of (si_identities ?x) = (map_of (si_identities x))(session_id \<mapsto> i)"
    by (auto simp: session_index_add_def hm_insert_def map_of_remove)
  show "hm_wf (si_identities ?x)" "hm_wf (si_users ?x)"
    using session_index_wfD(1,2) [OF wf] by (simp_all add: session_index_add_def hm.map_laws)
  show "distinct (user_sessions_of ?x key)" for key
    using session_index_wfD(3) [OF wf] by (simp add: sessions)
  show "map_of (si_users ?x) key \<noteq> Some []" for key
    using session_index_wfD(4) [OF wf, of key]
    by (auto simp: session_index_add_def hm_insert_def map_of_remove List.insert_def)
  show "sid \<in> set (user_sessions_of ?x key) \<longleftrightarrow>
      (\<exists>j. map_of (si_identities ?x) sid = Some j \<and> identity_key j = key)" for key sid
    using session_index_wfD(5) [OF wf, of sid key] new
    by (auto simp: sessions identities)
qed

lemma session_index_insert_wf:
  assumes "session_index_wf x"
  shows "session_index_wf (session_index_insert session_id i x)"
proof -
  have "map_of (si_identities (snd (session_index_remove session_id x))) session_id = None"
    by (auto simp: session_index_remove_def map_of_remove split: option.splits)
  with session_index_remove_wf [OF assms] show ?thesis
    unfolding session_index_insert_eq [OF assms] by (rule session_index_add_wf)
qed

datatype session_index_call = Insert uuid identity | Remove uuid

fun session_index_step :: "session_index_call \<Rightarrow> session_index \<Rightarrow> session_index" where
  "session_index_step (Insert session_id i) x = session_index_insert session_id i x"
| "session_index_step (Remove session_id) x = snd (session_index_remove session_id x)"

fun session_map_step :: "session_index_call \<Rightarrow> (uuid \<rightharpoonup> identity) \<Rightarrow> (uuid \<rightharpoonup> identity)" where
  "session_map_step (Insert session_id i) m = m(session_id \<mapsto> i)"
| "session_map_step (Remove session_id) m = m(session_id := None)"

lemma session_index_step_abs:
  "map_of (si_identities (session_index_step c x)) = session_map_step c (map_of (si_identities x))"
  by (cases c) (auto simp: session_index_insert_def session_index_remove_def Let_def hm_insert_def map_of_remove
      split: option.splits)

text \<open>C30. The index stays consistent. After any sequence of insertions and removals it maps exactly the sessions that are in to their
latest identity, and its two maps mirror each other: a session is listed under a user, once, exactly
when its identity is of that user, also when it was inserted again under another one, and a user without sessions has no entry.\<close>

theorem session_index_consistent:
  "let x = fold session_index_step calls session_index_default; m = fold session_map_step calls Map.empty
   in session_index_wf x \<and> map_of (si_identities x) = m \<and>
      (\<forall>key. set (user_sessions_of x key) = {session_id. \<exists>i. m session_id = Some i \<and> identity_key i = key})"
proof -
  have "session_index_wf x \<Longrightarrow> session_index_wf (fold session_index_step calls x) \<and>
      map_of (si_identities (fold session_index_step calls x)) = fold session_map_step calls (map_of (si_identities x))" for x
  proof (induction calls arbitrary: x)
    case (Cons c calls)
    have "session_index_wf (session_index_step c x)"
      using Cons.prems by (cases c) (simp_all add: session_index_insert_wf session_index_remove_wf)
    from Cons.IH [OF this] show ?case by (simp add: session_index_step_abs)
  qed simp
  moreover have "session_index_wf session_index_default"
    by (simp add: session_index_wf_def session_index_default_def user_sessions_of_def hm_wf_def)
  ultimately show ?thesis
    using session_index_wfD(5) by (fastforce simp: Let_def session_index_default_def)
qed

subsection \<open>Ending a session\<close>

record session_handle =
  sh_pushes :: "frame list"
  sh_capacity :: usize
  sh_pushes_closed :: bool
  sh_disconnect :: bool
  sh_disconnect_closed :: bool

definition enqueue_session_control ::
    "session_control proto_codec \<Rightarrow> session_control_action \<Rightarrow> string \<Rightarrow> session_handle \<Rightarrow>
     (core_error + unit) \<times> session_handle" where
  "enqueue_session_control P action reason h =
     (case session_control_new action reason of
        Inl e \<Rightarrow> (Inl e, h)
      | Inr control \<Rightarrow>
          (case session_control_encode_frame_payload P control of
             Inl e \<Rightarrow> (Inl e, h)
           | Inr payload \<Rightarrow>
               if sh_pushes_closed h \<or> sh_capacity h \<le> length (sh_pushes h) then (Inl QueueFull, h)
               else (Inr (), h\<lparr>sh_pushes := sh_pushes h @
                      [\<lparr>fr_kind = Push, fr_flags = 0, fr_route = ROUTE_SESSION_CONTROL, fr_request_id = 0,
                        fr_sequence = 0, fr_payload = payload\<rparr>]\<rparr>)))"

definition disconnect_handle_with_action ::
    "session_control proto_codec \<Rightarrow> session_handle \<Rightarrow> session_control_action \<Rightarrow> string \<Rightarrow>
     (core_error + unit) \<times> session_handle" where
  "disconnect_handle_with_action P h action reason =
     (let (notification, h) = enqueue_session_control P action reason h;
          (disconnected, h) =
            (if sh_disconnect_closed h then (Inl Unavailable, h) else (Inr (), h\<lparr>sh_disconnect := True\<rparr>))
      in (case notification of Inl e \<Rightarrow> Inl e | Inr _ \<Rightarrow> disconnected, h))"

definition disconnect_handle ::
    "session_control proto_codec \<Rightarrow> session_handle \<Rightarrow> string \<Rightarrow> (core_error + unit) \<times> session_handle" where
  "disconnect_handle P h reason = disconnect_handle_with_action P h Kick reason"

text \<open>A session is told to end also when the message that says why cannot be queued.\<close>

lemma disconnect_always_signals:
  "\<not> sh_disconnect_closed h \<Longrightarrow> sh_disconnect (snd (disconnect_handle P h reason))"
  by (auto simp: disconnect_handle_def disconnect_handle_with_action_def enqueue_session_control_def Let_def
      split: prod.splits sum.splits if_splits)

subsection \<open>The connection limiter\<close>

record 'ip connection_limiter =
  cn_limit :: usize
  cn_counts :: "('ip \<times> usize) list"
  cn_poisoned :: bool

definition connection_limiter_new :: "usize \<Rightarrow> 'ip connection_limiter" where
  "connection_limiter_new limit = \<lparr>cn_limit = limit, cn_counts = [], cn_poisoned = False\<rparr>"

definition connection_limiter_try_enter ::
    "'ip \<Rightarrow> 'ip connection_limiter \<Rightarrow> (core_error + 'ip) \<times> 'ip connection_limiter" where
  "connection_limiter_try_enter ip l =
     (if cn_poisoned l then (Inl (Internal ''connection limit lock poisoned''), l)
      else
        (let n = (case map_of (cn_counts l) ip of None \<Rightarrow> 0 | Some n \<Rightarrow> n)
         in if cn_limit l \<le> n then (Inl Unavailable, l\<lparr>cn_counts := hm_insert ip n (cn_counts l)\<rparr>)
            else (Inr ip, l\<lparr>cn_counts := hm_insert ip (n + 1) (cn_counts l)\<rparr>)))"

definition connection_permit_drop :: "'ip \<Rightarrow> 'ip connection_limiter \<Rightarrow> 'ip connection_limiter" where
  "connection_permit_drop ip l =
     (case map_of (cn_counts l) ip of
        None \<Rightarrow> l
      | Some n \<Rightarrow> l\<lparr>cn_counts := (if n - 1 = 0 then map_remove ip (cn_counts l)
                                else hm_insert ip (n - 1) (cn_counts l))\<rparr>)"

inductive connections :: "usize \<Rightarrow> 'ip connection_limiter \<Rightarrow> 'ip list \<Rightarrow> bool" for limit where
  connections_init: "connections limit (connection_limiter_new limit) []"
| connections_enter: "connections limit l open \<Longrightarrow> connection_limiter_try_enter ip l = (r, l') \<Longrightarrow>
    connections limit l' (case r of Inl _ \<Rightarrow> open | Inr _ \<Rightarrow> ip # open)"
| connections_drop: "connections limit l open \<Longrightarrow> ip \<in> set open \<Longrightarrow>
    connections limit (connection_permit_drop ip l) (remove1 ip open)"

lemma count_list_remove1: "ip \<in> set xs \<Longrightarrow> count_list (remove1 ip xs) j = count_list xs j - (if j = ip then 1 else 0)"
  by (induction xs) (auto simp: count_list_0_iff)

definition connection_count :: "'ip connection_limiter \<Rightarrow> 'ip \<Rightarrow> usize" where
  "connection_count l ip = (case map_of (cn_counts l) ip of None \<Rightarrow> 0 | Some n \<Rightarrow> n)"

lemma try_enter_eq:
  assumes "\<not> cn_poisoned l"
  shows "fst (connection_limiter_try_enter ip l) = (if connection_count l ip < cn_limit l then Inr ip else Inl Unavailable)"
    and "connection_count (snd (connection_limiter_try_enter ip l)) j =
      connection_count l j + (if j = ip \<and> connection_count l ip < cn_limit l then 1 else 0)"
    and "cn_limit (snd (connection_limiter_try_enter ip l)) = cn_limit l"
    and "\<not> cn_poisoned (snd (connection_limiter_try_enter ip l))"
  using assms by (simp_all add: connection_limiter_try_enter_def connection_count_def Let_def hm_insert_def map_of_remove)

lemma permit_drop_eq:
  "connection_count (connection_permit_drop ip l) j = connection_count l j - (if j = ip then 1 else 0)"
  "cn_limit (connection_permit_drop ip l) = cn_limit l" "cn_poisoned (connection_permit_drop ip l) = cn_poisoned l"
  by (auto simp: connection_permit_drop_def connection_count_def hm_insert_def map_of_remove split: option.splits)

lemma connections_count:
  "connections limit l open \<Longrightarrow> cn_limit l = limit \<and> \<not> cn_poisoned l \<and>
     (\<forall>ip. connection_count l ip = count_list open ip) \<and> (\<forall>ip. count_list open ip \<le> limit)"
proof (induction rule: connections.induct)
  case connections_init
  then show ?case by (simp add: connection_limiter_new_def connection_count_def)
next
  case (connections_enter l "open" ip r l')
  then have "l' = snd (connection_limiter_try_enter ip l)" "r = fst (connection_limiter_try_enter ip l)" by simp_all
  with connections_enter.IH show ?case by (auto simp: try_enter_eq Suc_le_eq)
next
  case (connections_drop l "open" ip)
  then show ?case by (auto simp: permit_drop_eq count_list_remove1 le_diff_conv intro: le_SucI)
qed

text \<open>The limiter admits a connection exactly while its address has fewer than \<open>limit\<close> connections open.\<close>

lemma connection_limit_exact:
  assumes "connections limit l open"
  shows "count_list open ip \<le> limit"
    and "fst (connection_limiter_try_enter ip l) = (if count_list open ip < limit then Inr ip else Inl Unavailable)"
  using connections_count [OF assms] by (auto simp: try_enter_eq)

end
