(* ===== verification/Backend_Protection.thy ===== *)
theory Backend_Protection
  imports Core_Error
begin

section \<open>Protection of a backend\<close>

text \<open>
  Model of \<open>crates/elura-gateway/src/protection.rs\<close>: a bound on the requests in flight and a circuit
  breaker that stops requests to a failing backend and lets a few probes through after a while. The
  semaphore is its number of free permits; a wait for a slot is decided when it ends, by whether a
  slot is free. The mutex of the circuit is taken over when poisoned, so poisoning has no effect.
  A request may be given up while it runs, which drops its permit.
  An \<open>acquire\<close> is one step at the time at which it takes the mutex of the circuit: that it takes its slot
  just before, and returns it and counts just after, is not interleaved with other requests.
\<close>

subsection \<open>Data\<close>

record protection_config =
  pc_max_concurrent :: usize
  pc_queue_timeout :: duration
  pc_failure_threshold :: u32
  pc_open_timeout :: duration
  pc_half_open_max :: usize

definition protection_config_default :: protection_config where
  "protection_config_default =
     \<lparr>pc_max_concurrent = 1024, pc_queue_timeout = millis 10, pc_failure_threshold = 5,
      pc_open_timeout = secs 5, pc_half_open_max = 1\<rparr>"

datatype circuit_state = Closed | Open | HalfOpen

record circuit =
  ci_state :: circuit_state
  ci_fails :: u32
  ci_until :: "instant option"
  ci_half :: usize

record backend_protector =
  bp_config :: protection_config
  bp_slots :: usize
  bp_circuit :: circuit
  bp_active :: i64
  bp_accepted :: u64
  bp_rejected_concurrency :: u64
  bp_rejected_circuit :: u64
  bp_failures :: u64
  bp_opened :: u64

record protection_stats =
  pst_active :: i64
  pst_accepted :: u64
  pst_rejected_concurrency :: u64
  pst_rejected_circuit :: u64
  pst_transient_failures :: u64
  pst_opened :: u64
  pst_circuit :: circuit_state

record permit =
  pm_half :: bool

subsection \<open>Operations\<close>

definition backend_protector_new :: "protection_config \<Rightarrow> core_error + backend_protector" where
  "backend_protector_new config =
     (if pc_max_concurrent config = 0 \<or> pc_failure_threshold config = 0 \<or> pc_open_timeout config = 0
         \<or> pc_half_open_max config = 0
      then Inl (InvalidConfig ''backend protection'')
      else Inr \<lparr>bp_config = config, bp_slots = pc_max_concurrent config,
             bp_circuit = \<lparr>ci_state = Closed, ci_fails = 0, ci_until = None, ci_half = 0\<rparr>,
             bp_active = 0, bp_accepted = 0, bp_rejected_concurrency = 0, bp_rejected_circuit = 0,
             bp_failures = 0, bp_opened = 0\<rparr>)"

text \<open>What \<open>acquire\<close> does to the circuit under its mutex: whether the request is a probe, and
whether it is allowed.\<close>

definition circuit_admit :: "usize \<Rightarrow> instant \<Rightarrow> circuit \<Rightarrow> bool \<times> bool \<times> circuit" where
  "circuit_admit half_open_max now c =
     (let c = (if ci_state c = Open \<and> (case ci_until c of None \<Rightarrow> False | Some v \<Rightarrow> v \<le> now)
               then c\<lparr>ci_state := HalfOpen, ci_half := 0\<rparr> else c);
          half = (ci_state c = HalfOpen \<and> ci_half c < half_open_max);
          c = (if half then c\<lparr>ci_half := ci_half c + 1\<rparr> else c)
      in (half, ci_state c = Closed \<or> half, c))"

definition protector_acquire ::
    "instant \<Rightarrow> backend_protector \<Rightarrow> (core_error + permit) \<times> backend_protector" where
  "protector_acquire now p =
     (if bp_slots p = 0
      then (Inl QueueFull, p\<lparr>bp_rejected_concurrency := bp_rejected_concurrency p + 1\<rparr>)
      else
        (let (half, allowed, c) = circuit_admit (pc_half_open_max (bp_config p)) now (bp_circuit p);
             p = p\<lparr>bp_slots := bp_slots p - 1, bp_active := bp_active p + 1, bp_circuit := c\<rparr>
         in if \<not> allowed
            then (Inl Unavailable,
                  p\<lparr>bp_active := bp_active p - 1, bp_rejected_circuit := bp_rejected_circuit p + 1,
                    bp_slots := bp_slots p + 1\<rparr>)
            else (Inr \<lparr>pm_half = half\<rparr>, p\<lparr>bp_accepted := bp_accepted p + 1\<rparr>)))"

definition protector_complete :: "instant \<Rightarrow> permit \<Rightarrow> bool \<Rightarrow> backend_protector \<Rightarrow> backend_protector" where
  "protector_complete now m failed p =
     (let c = bp_circuit p
      in if failed then
           (let p = p\<lparr>bp_failures := bp_failures p + 1\<rparr>; c = c\<lparr>ci_fails := ci_fails c + 1\<rparr>
            in if pm_half m \<or> pc_failure_threshold (bp_config p) \<le> ci_fails c
               then p\<lparr>bp_circuit := \<lparr>ci_state = Open, ci_fails = 0,
                        ci_until = Some (now + pc_open_timeout (bp_config p)), ci_half = 0\<rparr>,
                      bp_opened := bp_opened p + 1\<rparr>
               else p\<lparr>bp_circuit := c\<rparr>)
         else
           (let c = c\<lparr>ci_fails := 0\<rparr>
            in if ci_state c = HalfOpen
               then p\<lparr>bp_circuit := c\<lparr>ci_state := Closed, ci_until := None, ci_half := 0\<rparr>\<rparr>
               else p\<lparr>bp_circuit := c\<rparr>))"

text \<open>Dropping a permit also gives its slot back.\<close>

definition permit_drop :: "permit \<Rightarrow> backend_protector \<Rightarrow> backend_protector" where
  "permit_drop m p =
     (let p = (if pm_half m
               then p\<lparr>bp_circuit := (bp_circuit p)\<lparr>ci_half := ci_half (bp_circuit p) - 1\<rparr>\<rparr> else p)
      in p\<lparr>bp_active := bp_active p - 1, bp_slots := bp_slots p + 1\<rparr>)"

text \<open>A whole call; \<open>now'\<close> is the time at which the operation \<open>f\<close> ends.\<close>

definition protector_execute ::
    "instant \<Rightarrow> instant \<Rightarrow> core_error + 'a \<Rightarrow> (core_error \<Rightarrow> bool) \<Rightarrow> backend_protector \<Rightarrow>
     (core_error + 'a) \<times> backend_protector" where
  "protector_execute now now' f transient p =
     (case protector_acquire now p of
        (Inl e, p) \<Rightarrow> (Inl e, p)
      | (Inr m, p) \<Rightarrow>
          (let failed = (case f of Inl e \<Rightarrow> transient e | Inr _ \<Rightarrow> False)
           in (f, permit_drop m (protector_complete now' m failed p))))"

definition protector_stats :: "backend_protector \<Rightarrow> protection_stats" where
  "protector_stats p =
     \<lparr>pst_active = bp_active p, pst_accepted = bp_accepted p,
      pst_rejected_concurrency = bp_rejected_concurrency p, pst_rejected_circuit = bp_rejected_circuit p,
      pst_transient_failures = bp_failures p, pst_opened = bp_opened p,
      pst_circuit = ci_state (bp_circuit p)\<rparr>"

subsection \<open>Concurrent requests\<close>

text \<open>The protector with the permits of the requests in flight, each with a mark whether its
operation has completed.\<close>

record protected_backend =
  pt_protector :: backend_protector
  pt_running :: "(permit \<times> bool) list"

definition backend_acquire :: "instant \<Rightarrow> protected_backend \<Rightarrow> protected_backend" where
  "backend_acquire now s =
     (case protector_acquire now (pt_protector s) of
        (Inl _, p) \<Rightarrow> s\<lparr>pt_protector := p\<rparr>
      | (Inr m, p) \<Rightarrow> \<lparr>pt_protector = p, pt_running = pt_running s @ [(m, False)]\<rparr>)"

definition backend_complete :: "instant \<Rightarrow> bool \<Rightarrow> nat \<Rightarrow> protected_backend \<Rightarrow> protected_backend option" where
  "backend_complete now failed i s =
     (if i < length (pt_running s) \<and> \<not> snd (pt_running s ! i)
      then Some \<lparr>pt_protector = protector_complete now (fst (pt_running s ! i)) failed (pt_protector s),
             pt_running = (pt_running s)[i := (fst (pt_running s ! i), True)]\<rparr>
      else None)"

definition backend_drop :: "nat \<Rightarrow> protected_backend \<Rightarrow> protected_backend option" where
  "backend_drop i s =
     (if i < length (pt_running s)
      then Some \<lparr>pt_protector = permit_drop (fst (pt_running s ! i)) (pt_protector s),
             pt_running = take i (pt_running s) @ drop (Suc i) (pt_running s)\<rparr>
      else None)"

inductive backend_reachable :: "protection_config \<Rightarrow> protected_backend \<Rightarrow> bool" for config where
  backend_init: "backend_protector_new config = Inr p \<Longrightarrow>
    backend_reachable config \<lparr>pt_protector = p, pt_running = []\<rparr>"
| backend_acquire: "backend_reachable config s \<Longrightarrow> backend_reachable config (backend_acquire now s)"
| backend_complete: "backend_reachable config s \<Longrightarrow> backend_complete now failed i s = Some s' \<Longrightarrow>
    backend_reachable config s'"
| backend_drop: "backend_reachable config s \<Longrightarrow> backend_drop i s = Some s' \<Longrightarrow> backend_reachable config s'"

definition probes :: "(permit \<times> bool) list \<Rightarrow> nat" where
  "probes running = length (filter (\<lambda>r. pm_half (fst r)) running)"

definition protector_inv :: "protection_config \<Rightarrow> protected_backend \<Rightarrow> bool" where
  "protector_inv config s \<longleftrightarrow>
     (let p = pt_protector s; c = bp_circuit p
      in bp_config p = config \<and> pc_failure_threshold config \<noteq> 0 \<and> 0 < pc_half_open_max config \<and>
         bp_slots p + length (pt_running s) = pc_max_concurrent config \<and>
         bp_active p = int (length (pt_running s)) \<and>
         ci_fails c < pc_failure_threshold config \<and>
         (ci_state c = Closed \<longleftrightarrow> ci_until c = None) \<and>
         ci_half c \<le> probes (pt_running s))"

lemma protector_inv_init:
  "backend_protector_new config = Inr p \<Longrightarrow> protector_inv config \<lparr>pt_protector = p, pt_running = []\<rparr>"
  by (auto simp: backend_protector_new_def protector_inv_def probes_def word_neq_0_conv split: if_splits)

lemma protector_inv_acquire: "protector_inv config s \<Longrightarrow> protector_inv config (backend_acquire now s)"
  by (auto simp: protector_inv_def backend_acquire_def protector_acquire_def circuit_admit_def Let_def probes_def
      split: option.splits prod.splits sum.splits if_splits)

lemma probes_update:
  "i < length running \<Longrightarrow> probes (running[i := (fst (running ! i), b)]) = probes running"
proof -
  assume "i < length running"
  then have "map fst (running[i := (fst (running ! i), b)]) = map fst running"
    by (simp add: map_update list_update_same_conv)
  moreover have "probes xs = length (filter pm_half (map fst xs))" for xs :: "(permit \<times> bool) list"
    by (simp add: probes_def filter_map comp_def)
  ultimately show ?thesis by metis
qed

lemma probes_remove:
  "i < length running \<Longrightarrow>
     probes (take i running @ drop (Suc i) running) = probes running - (if pm_half (fst (running ! i)) then 1 else 0)"
proof -
  assume "i < length running"
  then have "running = take i running @ running ! i # drop (Suc i) running" by (rule id_take_nth_drop)
  then have "probes running = probes (take i running @ running ! i # drop (Suc i) running)" by simp
  then show ?thesis by (simp add: probes_def)
qed

lemma protector_inv_complete:
  assumes "protector_inv config s" "backend_complete now failed i s = Some s'"
  shows "protector_inv config s'"
  using assms
  by (auto simp: protector_inv_def backend_complete_def protector_complete_def Let_def probes_update word_neq_0_conv
      not_le split: if_splits)

lemma protector_inv_drop:
  assumes "protector_inv config s" "backend_drop i s = Some s'"
  shows "protector_inv config s'"
  using assms
  by (auto simp: protector_inv_def backend_drop_def permit_drop_def Let_def probes_remove split: if_splits)

lemma backend_reachable_inv: "backend_reachable config s \<Longrightarrow> protector_inv config s"
  by (induction rule: backend_reachable.induct)
    (auto intro: protector_inv_init protector_inv_acquire protector_inv_complete protector_inv_drop)

text \<open>C27. Whatever requests run, fail, complete and are given up concurrently, at most \<open>max_concurrent\<close> are in
flight and \<open>active\<close> counts them. A request is refused as \<open>QueueFull\<close> only when they all are; it is
refused by the circuit only before the end of an open period, or while \<open>half_open_max\<close> probes are in flight, so that the
circuit never stays shut once its probes are gone. It passes as a probe exactly when the circuit is not closed.\<close>

theorem protector_admission:
  assumes "backend_reachable config s"
  shows "bp_active (pt_protector s) = int (length (pt_running s)) \<and>
    length (pt_running s) \<le> pc_max_concurrent config \<and>
    (let c = bp_circuit (pt_protector s) in
     case fst (protector_acquire now (pt_protector s)) of
       Inr m \<Rightarrow> length (pt_running s) < pc_max_concurrent config \<and> (pm_half m \<longleftrightarrow> ci_state c \<noteq> Closed)
     | Inl e \<Rightarrow>
         e = QueueFull \<and> length (pt_running s) = pc_max_concurrent config \<or>
         e = Unavailable \<and> ci_state c = Open \<and> (\<exists>v. ci_until c = Some v \<and> now < v) \<or>
         e = Unavailable \<and> ci_state c = HalfOpen \<and> pc_half_open_max config \<le> probes (pt_running s))"
proof -
  have inv: "protector_inv config s" using assms by (rule backend_reachable_inv)
  then show ?thesis
    by (cases "ci_state (bp_circuit (pt_protector s))")
      (auto simp: protector_inv_def protector_acquire_def circuit_admit_def Let_def split: if_splits option.splits)
qed

text \<open>A run with two probes allowed: the first request fails and opens the circuit; of the two probes of the
next half-open period one fails and opens it again while the other, slow one stays in flight; in the
half-open period after that two probes are let in, and when the slow probe of the period
before is dropped it is subtracted from the count of this period and a third is let in.\<close>

definition overrun_config :: protection_config where
  "overrun_config = \<lparr>pc_max_concurrent = 8, pc_queue_timeout = 0, pc_failure_threshold = 1,
     pc_open_timeout = 10, pc_half_open_max = 2\<rparr>"

definition overrun :: "protected_backend option" where
  "overrun =
     (case backend_protector_new overrun_config of
        Inl _ \<Rightarrow> None
      | Inr p \<Rightarrow>
          Option.bind (backend_complete 0 True 0 (backend_acquire 0 \<lparr>pt_protector = p, pt_running = []\<rparr>)) (\<lambda>s.
          Option.bind (backend_drop 0 s) (\<lambda>s.
          Option.bind (backend_complete 11 True 0 (backend_acquire 10 (backend_acquire 10 s))) (\<lambda>s.
          Option.bind (backend_drop 0 s) (\<lambda>s.
          Option.bind (backend_drop 0 (backend_acquire 21 (backend_acquire 21 s))) (\<lambda>s.
          Some (backend_acquire 21 s)))))))"

lemma overrun_reachable: "overrun = Some s \<Longrightarrow> backend_reachable overrun_config s"
  unfolding overrun_def
  by (auto split: sum.splits Option.bind_splits elim!: backend_complete [rotated] backend_drop [rotated]
      intro!: backend_acquire backend_init)

lemma circuit_probe_overrun:
  "\<exists>s. backend_reachable overrun_config s \<and> pc_half_open_max overrun_config < probes (pt_running s)"
proof -
  have "case overrun of None \<Rightarrow> False | Some s \<Rightarrow> probes (pt_running s) = 3" by code_simp
  then obtain s where s: "overrun = Some s" "probes (pt_running s) = 3" by (auto split: option.splits)
  have "backend_reachable overrun_config s" using s(1) by (rule overrun_reachable)
  moreover have "pc_half_open_max overrun_config < 3" by (simp add: overrun_config_def)
  ultimately show ?thesis using s(2) by metis
qed

theorem protector_admission_witness:
  "case overrun of None \<Rightarrow> False
   | Some s \<Rightarrow> bp_active (pt_protector s) = 3 \<and> length (pt_running s) = 3 \<and>
       fst (protector_acquire 21 (pt_protector s)) = Inl Unavailable \<and> probes (pt_running s) = 3"
proof -
  have run: "case overrun of None \<Rightarrow> False
    | Some s \<Rightarrow> length (pt_running s) = 3 \<and> probes (pt_running s) = 3 \<and>
        fst (protector_acquire 21 (pt_protector s)) = Inl Unavailable" by code_simp
  then obtain s where s: "overrun = Some s" by (auto split: option.splits)
  show ?thesis
    using protector_admission [OF overrun_reachable [OF s], of 21] run unfolding s option.case by simp
qed

text \<open>The unchecked increment of the failure count stays within its 32 bits.\<close>

lemma circuit_fails_bounded:
  assumes "backend_reachable config s"
  shows "unat (ci_fails (bp_circuit (pt_protector s)) + 1) = unat (ci_fails (bp_circuit (pt_protector s))) + 1"
proof -
  have "ci_fails (bp_circuit (pt_protector s)) < pc_failure_threshold config"
    using backend_reachable_inv [OF assms] by (simp add: protector_inv_def Let_def)
  then show ?thesis by (rule unat_succ_less)
qed

text \<open>A failing call opens the circuit after \<open>failure_threshold\<close> failures in a row, and calls until
the end of the open period fail at once.\<close>

fun fail_times :: "nat \<Rightarrow> instant \<Rightarrow> backend_protector \<Rightarrow> backend_protector" where
  "fail_times 0 now p = p"
| "fail_times (Suc n) now p =
     fail_times n now (snd (protector_execute now now (Inl Timeout :: core_error + unit) (\<lambda>_. True) p))"

lemma execute_failing:
  assumes "ci_state (bp_circuit p) = Closed" "bp_slots p \<noteq> 0"
    "ci_fails (bp_circuit p) < pc_failure_threshold (bp_config p)"
  shows "let p' = snd (protector_execute now now (Inl Timeout :: core_error + unit) (\<lambda>_. True) p) in
    bp_config p' = bp_config p \<and> bp_slots p' = bp_slots p \<and>
    (if ci_fails (bp_circuit p) + 1 = pc_failure_threshold (bp_config p)
     then bp_circuit p' = \<lparr>ci_state = Open, ci_fails = 0,
       ci_until = Some (now + pc_open_timeout (bp_config p)), ci_half = 0\<rparr>
     else bp_circuit p' = (bp_circuit p)\<lparr>ci_fails := ci_fails (bp_circuit p) + 1\<rparr>)"
  using assms unat_succ_less [OF assms(3)]
  by (auto simp: protector_execute_def protector_acquire_def circuit_admit_def protector_complete_def permit_drop_def
      Let_def word_le_nat_alt word_less_nat_alt word_unat_eq_iff)

lemma circuit_opens:
  assumes "ci_state (bp_circuit p) = Closed" "bp_slots p \<noteq> 0"
    and "unat (ci_fails (bp_circuit p)) + Suc n = unat (pc_failure_threshold (bp_config p))"
  shows "bp_circuit (fail_times (Suc n) now p) =
    \<lparr>ci_state = Open, ci_fails = 0, ci_until = Some (now + pc_open_timeout (bp_config p)), ci_half = 0\<rparr>"
  using assms
proof (induction n arbitrary: p)
  case 0
  then show ?case
    using execute_failing [of p now] unat_succ_less [of "ci_fails (bp_circuit p)" "pc_failure_threshold (bp_config p)"]
    by (simp add: Let_def word_less_nat_alt word_unat_eq_iff)
next
  case (Suc n)
  let ?p = "snd (protector_execute now now (Inl Timeout :: core_error + unit) (\<lambda>_. True) p)"
  have less: "ci_fails (bp_circuit p) < pc_failure_threshold (bp_config p)"
    using Suc.prems(3) by (simp add: word_less_nat_alt)
  have "bp_config ?p = bp_config p \<and> bp_slots ?p = bp_slots p \<and>
      bp_circuit ?p = (bp_circuit p)\<lparr>ci_fails := ci_fails (bp_circuit p) + 1\<rparr>"
    using execute_failing [OF Suc.prems(1,2) less, of now] Suc.prems(3) unat_succ_less [OF less]
    by (auto simp: Let_def word_unat_eq_iff split: if_splits)
  then show ?case
    using Suc.IH [of ?p] Suc.prems unat_succ_less [OF less] by simp
qed

end
