(* ===== verification/One_Time_Password.thy ===== *)
theory One_Time_Password
  imports Core_Error Collections
begin

section \<open>One-time passwords\<close>

text \<open>
  Model of \<open>crates/elura-core/src/otp.rs\<close> and \<open>otp/memory.rs\<close>: challenges that can be answered once,
  with a bound on wrong answers and a pause between challenges. Readings of the clock are arguments. The
  two mutexes are taken over when poisoned. Comparing digests in constant time is
  comparing them.
  A \<open>create\<close> is one step, although the source releases the lock of the cooldowns before it takes that of the
  entries: calls that run between the two are not interleaved.
\<close>

subsection \<open>Data\<close>

record otp_record =
  or_subject_key :: string
  or_purpose :: string
  or_code_digest :: bytes

datatype otp_create_result = Stored | Cooldown

datatype otp_verify_result = Valid | Invalid | Missing

record otp_entry =
  oe_digest :: bytes
  oe_expires_at :: instant
  oe_attempts :: u32

record memory_otp_store =
  ms_entries :: "((string \<times> string) \<times> otp_entry) list"
  ms_cooldowns :: "((string \<times> string) \<times> instant) list"

definition memory_otp_store_default :: memory_otp_store where
  "memory_otp_store_default = \<lparr>ms_entries = [], ms_cooldowns = []\<rparr>"

subsection \<open>Operations\<close>

definition otp_record_validate :: "otp_record \<Rightarrow> core_error + unit" where
  "otp_record_validate r =
     (if or_subject_key r = [] \<or> 256 < length (or_subject_key r) \<or> or_purpose r = [] \<or> 64 < length (or_purpose r)
         \<or> length (or_code_digest r) < 16 \<or> 128 < length (or_code_digest r)
      then Inl (InvalidConfig ''invalid OTP record'') else Inr ())"

definition memory_otp_create ::
    "instant \<Rightarrow> otp_record \<Rightarrow> duration \<Rightarrow> duration \<Rightarrow> memory_otp_store \<Rightarrow>
     (core_error + otp_create_result) \<times> memory_otp_store" where
  "memory_otp_create now r ttl cooldown s =
     (case otp_record_validate r of
        Inl e \<Rightarrow> (Inl e, s)
      | Inr _ \<Rightarrow>
          (let key = (or_subject_key r, or_purpose r);
               cooldowns = map_retain (\<lambda>_ expires_at. now < expires_at) (ms_cooldowns s)
           in if contains_key cooldowns key then (Inr Cooldown, s\<lparr>ms_cooldowns := cooldowns\<rparr>)
              else (Inr Stored,
                    s\<lparr>ms_cooldowns := hm_insert key (now + cooldown) cooldowns,
                      ms_entries := hm_insert key
                        \<lparr>oe_digest = or_code_digest r, oe_expires_at = now + ttl, oe_attempts = 0\<rparr> (ms_entries s)\<rparr>)))"

definition memory_otp_verify_and_consume ::
    "instant \<Rightarrow> otp_record \<Rightarrow> u32 \<Rightarrow> memory_otp_store \<Rightarrow>
     (core_error + otp_verify_result) \<times> memory_otp_store" where
  "memory_otp_verify_and_consume now r max_attempts s =
     (case otp_record_validate r of
        Inl e \<Rightarrow> (Inl e, s)
      | Inr _ \<Rightarrow>
          (let key = (or_subject_key r, or_purpose r)
           in case map_of (ms_entries s) key of
                None \<Rightarrow> (Inr Missing, s)
              | Some entry \<Rightarrow>
                  if oe_expires_at entry \<le> now
                  then (Inr Missing, s\<lparr>ms_entries := map_remove key (ms_entries s)\<rparr>)
                  else if oe_digest entry = or_code_digest r
                  then (Inr Valid, s\<lparr>ms_entries := map_remove key (ms_entries s)\<rparr>)
                  else
                    (let attempts = oe_attempts entry + 1
                     in (Inr Invalid,
                         s\<lparr>ms_entries :=
                             (if max_attempts \<le> attempts then map_remove key (ms_entries s)
                              else map_adjust key (\<lambda>e. e\<lparr>oe_attempts := attempts\<rparr>) (ms_entries s))\<rparr>))))"

definition memory_otp_delete :: "string \<Rightarrow> string \<Rightarrow> memory_otp_store \<Rightarrow> memory_otp_store" where
  "memory_otp_delete subject_key purpose s =
     (let key = (subject_key, purpose)
      in s\<lparr>ms_entries := map_remove key (ms_entries s), ms_cooldowns := map_remove key (ms_cooldowns s)\<rparr>)"

subsection \<open>Sequences of calls\<close>

datatype otp_call =
    Create instant otp_record duration duration
  | Verify instant otp_record
  | Delete string string

datatype otp_event = EvCreate "core_error + otp_create_result" | EvVerify "core_error + otp_verify_result" | EvDelete

fun otp_call_key :: "otp_call \<Rightarrow> string \<times> string" where
  "otp_call_key (Create _ r _ _) = (or_subject_key r, or_purpose r)"
| "otp_call_key (Verify _ r) = (or_subject_key r, or_purpose r)"
| "otp_call_key (Delete subject_key purpose) = (subject_key, purpose)"

text \<open>The calls in the order in which they take their locks, with the key and the result of each.\<close>

fun otp_step :: "u32 \<Rightarrow> otp_call \<Rightarrow> memory_otp_store \<Rightarrow> otp_event \<times> memory_otp_store" where
  "otp_step max_attempts (Create now r ttl cooldown) s = map_prod EvCreate id (memory_otp_create now r ttl cooldown s)"
| "otp_step max_attempts (Verify now r) s = map_prod EvVerify id (memory_otp_verify_and_consume now r max_attempts s)"
| "otp_step max_attempts (Delete subject_key purpose) s = (EvDelete, memory_otp_delete subject_key purpose s)"

fun otp_run :: "u32 \<Rightarrow> otp_call list \<Rightarrow> memory_otp_store \<Rightarrow> ((string \<times> string) \<times> otp_event) list \<times> memory_otp_store" where
  "otp_run max_attempts [] s = ([], s)"
| "otp_run max_attempts (c # cs) s =
     (case otp_step max_attempts c s of (e, s) \<Rightarrow>
        (case otp_run max_attempts cs s of (es, s) \<Rightarrow> ((otp_call_key c, e) # es, s)))"

definition otp_events :: "(string \<times> string) \<Rightarrow> otp_event \<Rightarrow> ((string \<times> string) \<times> otp_event) list \<Rightarrow> nat" where
  "otp_events key e es = length (filter (\<lambda>x. x = (key, e)) es)"

subsection \<open>What is left of a challenge\<close>

definition valid_left :: "(string \<times> string) \<Rightarrow> memory_otp_store \<Rightarrow> nat" where
  "valid_left key s = (if map_of (ms_entries s) key = None then 0 else 1)"

definition guesses_left :: "u32 \<Rightarrow> (string \<times> string) \<Rightarrow> memory_otp_store \<Rightarrow> nat" where
  "guesses_left max_attempts key s =
     (case map_of (ms_entries s) key of None \<Rightarrow> 0 | Some e \<Rightarrow> unat max_attempts - unat (oe_attempts e))"

definition otp_inv :: "u32 \<Rightarrow> memory_otp_store \<Rightarrow> bool" where
  "otp_inv max_attempts s \<longleftrightarrow>
     (\<forall>key e. map_of (ms_entries s) key = Some e \<longrightarrow> unat (oe_attempts e) < unat max_attempts)"

lemma otp_invD: "otp_inv m s \<Longrightarrow> map_of (ms_entries s) key = Some e \<Longrightarrow> unat (oe_attempts e) < unat m"
  unfolding otp_inv_def by blast

lemma otp_attempts_succ:
  assumes "otp_inv m s" "map_of (ms_entries s) key = Some e"
  shows "unat (oe_attempts e + 1) = unat (oe_attempts e) + 1"
  using otp_invD [OF assms] by (intro unat_succ_less [of _ m]) (simp add: word_less_nat_alt)

lemma otp_step_spec:
  assumes inv: "otp_inv m s" and "m \<noteq> 0" and run: "otp_step m c s = (e, s')"
  shows "otp_inv m s'"
    and "valid_left key s' + of_bool ((otp_call_key c, e) = (key, EvVerify (Inr Valid)))
      \<le> valid_left key s + of_bool ((otp_call_key c, e) = (key, EvCreate (Inr Stored)))"
    and "guesses_left m key s' + of_bool ((otp_call_key c, e) = (key, EvVerify (Inr Invalid)))
      \<le> guesses_left m key s + unat m * of_bool ((otp_call_key c, e) = (key, EvCreate (Inr Stored)))"
proof -
  have "0 < unat m" using assms(2) by (simp add: unat_gt_0)
  note defs = memory_otp_create_def memory_otp_verify_and_consume_def memory_otp_delete_def Let_def hm_insert_def
    map_of_remove map_of_adjust
  show "otp_inv m s'"
    using run inv \<open>0 < unat m\<close>
    by (cases c) (auto simp: otp_inv_def defs word_le_nat_alt split: sum.splits option.splits if_splits)
  show "valid_left key s' + of_bool ((otp_call_key c, e) = (key, EvVerify (Inr Valid)))
      \<le> valid_left key s + of_bool ((otp_call_key c, e) = (key, EvCreate (Inr Stored)))"
    using run by (cases c) (auto simp: valid_left_def defs split: sum.splits option.splits if_splits)
  show "guesses_left m key s' + of_bool ((otp_call_key c, e) = (key, EvVerify (Inr Invalid)))
      \<le> guesses_left m key s + unat m * of_bool ((otp_call_key c, e) = (key, EvCreate (Inr Stored)))"
    using run otp_attempts_succ [OF inv] diff_less_mono2 [OF lessI otp_invD [OF inv]] otp_invD [OF inv]
    by (cases c) (auto simp: guesses_left_def defs Suc_le_eq split: sum.splits option.splits if_splits)
qed

lemma otp_events_simps [simp]:
  "otp_events key e [] = 0"
  "otp_events key e (x # es) = of_bool (x = (key, e)) + otp_events key e es"
  by (simp_all add: otp_events_def)

lemma otp_run_spec:
  assumes "otp_inv m s" "m \<noteq> 0" "otp_run m cs s = (es, s')"
  shows "otp_events key (EvVerify (Inr Valid)) es \<le> valid_left key s + otp_events key (EvCreate (Inr Stored)) es
    \<and> otp_events key (EvVerify (Inr Invalid)) es \<le> guesses_left m key s + unat m * otp_events key (EvCreate (Inr Stored)) es"
  using assms(1,3)
proof (induction cs arbitrary: s es)
  case (Cons c cs)
  obtain e s1 where step: "otp_step m c s = (e, s1)" by fastforce
  obtain es1 where run: "otp_run m cs s1 = (es1, s')" and es: "es = (otp_call_key c, e) # es1"
    using Cons.prems(2) step by (auto split: prod.splits)
  note spec = otp_step_spec [OF Cons.prems(1) assms(2) step]
  from Cons.IH [OF spec(1) run] spec(2,3) [of key] show ?case
    unfolding es otp_events_simps distrib_left by linarith
qed simp

text \<open>C28. A challenge can be answered at most once and guessed at only a few times. Over any sequence of calls from
the empty store, the valid answers for a subject and purpose are at most as many as
the challenges that were stored for it, and the wrong answers at most \<open>max_attempts\<close> times as many.\<close>

theorem otp_bounded_guesses:
  assumes "m \<noteq> 0" "otp_run m cs memory_otp_store_default = (es, s)"
  shows "otp_events key (EvVerify (Inr Valid)) es \<le> otp_events key (EvCreate (Inr Stored)) es
    \<and> otp_events key (EvVerify (Inr Invalid)) es \<le> unat m * otp_events key (EvCreate (Inr Stored)) es"
proof -
  have "otp_inv m memory_otp_store_default" by (simp add: otp_inv_def memory_otp_store_default_def)
  from otp_run_spec [OF this assms, of key] show ?thesis
    by (simp add: valid_left_def guesses_left_def memory_otp_store_default_def)
qed

definition otp_example :: "otp_call list" where
  "otp_example =
     (let r = (\<lambda>d. \<lparr>or_subject_key = ''s'', or_purpose = ''p'', or_code_digest = replicate 16 d\<rparr>)
      in [Create 0 (r 1) 9 9, Verify 1 (r 0), Verify 2 (r 1), Verify 3 (r 1)])"

theorem otp_bounded_guesses_witness:
  "case otp_run 2 otp_example memory_otp_store_default of (es, _) \<Rightarrow>
     map snd es = [EvCreate (Inr Stored), EvVerify (Inr Invalid), EvVerify (Inr Valid), EvVerify (Inr Missing)] \<and>
     otp_events (''s'', ''p'') (EvVerify (Inr Valid)) es \<le> 1"
proof -
  obtain es s where run: "otp_run 2 otp_example memory_otp_store_default = (es, s)" by fastforce
  have "case otp_run 2 otp_example memory_otp_store_default of (es, _) \<Rightarrow>
      map snd es = [EvCreate (Inr Stored), EvVerify (Inr Invalid), EvVerify (Inr Valid), EvVerify (Inr Missing)] \<and>
      otp_events (''s'', ''p'') (EvCreate (Inr Stored)) es = 1" by code_simp
  then show ?thesis
    using otp_bounded_guesses [OF _ run, of "(''s'', ''p'')"] unfolding run by simp
qed

text \<open>Within the cooldown of a stored challenge no other one is stored, unless it is deleted.\<close>

lemma otp_cooldown_holds:
  assumes "map_of (ms_cooldowns s) key = Some x" "distinct (map fst (ms_cooldowns s))"
    and "\<forall>c \<in> set cs. case c of Create now _ _ _ \<Rightarrow> now < x | Verify _ _ \<Rightarrow> True
      | Delete subject_key purpose \<Rightarrow> (subject_key, purpose) \<noteq> key"
    and "otp_run m cs s = (es, s')"
  shows "otp_events key (EvCreate (Inr Stored)) es = 0"
  using assms
proof (induction cs arbitrary: s es)
  case (Cons c cs)
  obtain e s1 where step: "otp_step m c s = (e, s1)" by fastforce
  obtain es1 where run: "otp_run m cs s1 = (es1, s')" and es: "es = (otp_call_key c, e) # es1"
    using Cons.prems(4) step by (auto split: prod.splits)
  note defs = memory_otp_create_def memory_otp_verify_and_consume_def memory_otp_delete_def Let_def hm_insert_def
    map_of_remove map_of_retain contains_key_def
  have dist: "distinct (map fst (map_remove k ys))" "distinct (map fst (map_retain P ys))" if "distinct (map fst ys)"
    for k P and ys :: "((string \<times> string) \<times> instant) list"
    using that by (simp_all add: distinct_keys_remove map_retain_def distinct_keys_filter)
  have "map_of (ms_cooldowns s1) key = Some x \<and> distinct (map fst (ms_cooldowns s1)) \<and>
      (otp_call_key c, e) \<noteq> (key, EvCreate (Inr Stored))"
    using step Cons.prems(1-3) dist
    by (cases c) (auto simp: defs set_map_remove simp del: map_of_eq_Some_iff split: sum.splits option.splits if_splits)
  then show ?case using Cons.IH [OF _ _ _ run] Cons.prems(3) by (simp add: es)
qed simp

end
