(* ===== verification/Spec2Isabelle.thy ===== *)
theory Spec2Isabelle
  imports
    Input_Stream
    Prediction
    Entity_Prediction
    Replication_Delivery
    Lag_Compensation
    Game_Room
    Fixed_Step
    Frame_Codec
    Session
    Ticket
    Dispatcher
    Snapshot_Replication
    Realtime_Failures
    Replay_Player
    Ownership
    Keyed_Executor
    Player_Cache
    Presence
    Gateway_Drain
    Gateway_Sessions
    Backend_Protection
    One_Time_Password
begin

text \<open>
A verification library for Elura, a framework for authoritative game servers in Rust. Elura is a
workspace of crates: the netcode that a client and a server share (\<open>elura-netcode\<close>,
\<open>elura-replication\<close>, \<open>elura-simulation\<close>, \<open>elura-lag-compensation\<close>, \<open>elura-room\<close>), the protocol
and the services of the server (\<open>elura-core\<close>), and what runs and connects them (\<open>elura-runtime\<close>,
\<open>elura-gateway\<close>, \<open>elura-world\<close>, the transports and the stores). The library models the parts
that decide something; each theory follows one source file, in the order of its items, and keeps
their names (\<open>InputReceiver::receive\<close> is \<open>input_receiver_receive\<close>).

\<^bold>\<open>Conventions.\<close> A struct is a record, an enum a datatype, \<open>Result\<close> a sum whose left side is the
error. A method on \<open>&mut self\<close> takes the state and returns the result paired with the new state, so
what an early return has already changed is visible. Unsigned integers are words of their width
with the checked, saturating and wrapping operations of the source; \<open>usize\<close> is \<open>nat\<close>,
\<open>i64\<close> is \<open>int\<close>, \<open>Duration\<close> and points in time are nanoseconds in \<open>nat\<close> with their maximum where the
source saturates. A \<open>BTreeMap\<close> is a sorted association list, a \<open>HashMap\<close> one with
distinct keys. Code outside the sources (serialization, signatures, digests, clocks, random
numbers) and the callbacks of an application are arguments of the definitions, and what is relied
on of them are the assumptions of a locale or a named hypothesis.

\<^bold>\<open>Shared.\<close> \<open>Prelude\<close> has the integers, durations and strings of the standard library,
\<open>Collections\<close> its maps and sets and the locale \<open>map_laws\<close> that both kinds of map satisfy.

\<^bold>\<open>Netcode.\<close> \<open>Sequence_Window\<close>, \<open>Input_Stream\<close> (\<open>input.rs\<close>), \<open>Prediction\<close> (\<open>prediction.rs\<close>),
\<open>Entity_Prediction\<close> (\<open>entity_prediction.rs\<close>): over any interleaving of recording, sending,
losing, duplicating and reordering, every input is accepted at most once and acknowledged
only when accepted; reconciliation gives the state that the authoritative state and the
remaining inputs determine; predicted entities are resolved once. \<open>Replication\<close> models sender, receiver and
packets of \<open>elura-replication\<close>; \<open>Replication_World\<close> the worlds that batches describe,
\<open>Replication_Update\<close> the sender's update, \<open>Replication_System\<close> the two ends and a network
as a step relation, and \<open>Replication_Delivery\<close> proves that the receiver always shows a
world the sender had, that honest packets are never rejected, and that repeated rounds
converge. \<open>Lag_Compensation\<close>, \<open>Game_Room\<close> and \<open>Fixed_Step\<close> are one
crate each: the history is the window of the last recorded states, the room refines a roster
in join order whatever the iteration order of its hash map, the clock loses no time that it does not report as dropped.

\<^bold>\<open>Core services.\<close> \<open>Core_Error\<close> (\<open>error.rs\<close>), \<open>Frame_Codec\<close> (\<open>protocol.rs\<close>), \<open>Session\<close>
(\<open>session.rs\<close>, \<open>session_control.rs\<close>), \<open>Replay_Protection\<close>, \<open>Ticket\<close>: round trips of
everything that crosses the wire, equality of the streaming and the message decoder,
the life of a session, validity and single use of tickets. \<open>Outbox\<close> and \<open>Outbox_Leases\<close>
(\<open>outbox.rs\<close>, \<open>outbox/memory.rs\<close>) show fencing by leases and that no event is lost; \<open>Dispatcher\<close>
(\<open>elura-runtime/src/outbox.rs\<close>) uses the store through the locale \<open>outbox_settlement\<close>.
\<open>Snapshot_Replication\<close> (\<open>snapshot_replication.rs\<close>) over the locale \<open>delta_codec\<close>.

\<^bold>\<open>Realtime rooms.\<close> \<open>Realtime_Room\<close> models \<open>realtime.rs\<close> from the channel of commands to
publication; \<open>Realtime_Rollback\<close> proves for every simulation that satisfies
\<open>lawful_simulation\<close> that rollback gives the state of a straight run of the commands that a
reference room without checkpoints accepts, and that finalized ticks do not change; \<open>Realtime_Failures\<close> shows what a failing tick leaves behind.

\<^bold>\<open>Replays.\<close> \<open>Replay_Log\<close> models the log of \<open>replay.rs\<close> with its checksum: what is written is read back,
a damaged record is detected, and what a cut log looks like. \<open>Replay_Player\<close>
(\<open>realtime/replay_player.rs\<close>) drives a room from a log: the recording of a room's run is reproduced tick for tick, and the player
returns unless a tick has more commands than the room can hold.

\<^bold>\<open>Cluster.\<close> \<open>Ownership\<close> (\<open>ownership.rs\<close>) shows that rendezvous hashing moves a shard only for a reason.
\<open>Presence\<close> (\<open>elura-gateway/src/presence.rs\<close>, \<open>push.rs\<close>) proves the login and capacity policy of the directory of
online sessions over any calls of any gateways, each with its own policy, and over the locale \<open>lawful_directory\<close> that pushes go where the sessions
are. \<open>Gateway_Access\<close> has account versions and their check over the locale \<open>account_version_store\<close>, admission and the frames
a client may send; \<open>Gateway_Sessions\<close> the session index and the connection limit. \<open>Gateway_Drain\<close>
(\<open>transport/drain.rs\<close>) interleaves every access to the atomics: a drain is complete and loses no wake-up.
\<open>Backend_Protection\<close> (\<open>protection.rs\<close>) is the circuit breaker under concurrent requests. \<open>One_Time_Password\<close>
(\<open>otp/memory.rs\<close>) bounds guesses. In \<open>elura-world\<close>, \<open>Keyed_Executor\<close> (\<open>keyed.rs\<close>) proves that operations of one
player exclude each other while idle locks are dropped, and \<open>Player_Cache\<close> (\<open>player/cache.rs\<close>,
\<open>player/invalidation.rs\<close>) that the bounded cache drops the least recently used player.

\<^bold>\<open>Bounds.\<close> Loops are structural recursions over the lists, ranges
or step counts that the source iterates over. Only \<open>frame_drain\<close>, which calls the frame decoder until it asks for more bytes,
takes fuel, the length of the buffer; every frame takes at least a header from it, so this is enough (lemma \<open>drain_frames\<close>); the loop of the replay player, which may wait for ever, is a partial
function, and that it returns is a theorem. Theorems about counters of 64 bits
assume that fewer than \<open>2 ^ 64\<close> events happened, since the source increments them unchecked. Concurrent
components are step relations whose steps are the critical sections or single atomic accesses of the source,
interleaved sequentially consistently; the weaker memory orders that the source names are not modelled. Four calls that touch
more than one lock or counter are still one step: \<open>acquire\<close> of the backend protection, \<open>create\<close> of the one-time
passwords, \<open>store\<close> and the lookup of the player cache. A waiter of a player's lock may start in any order, not only the
order of arrival.

\<^bold>\<open>Not modelled.\<close> Code that computes in floating point (interpolation, tick synchronisation,
network simulation, areas of interest, token buckets, and the interpolation factor of a clock, of which only the exact ratio is
kept); sockets, HTTP, TLS, QUIC and database clients, whose behaviour is that of
the libraries they call; derive macros, examples, generated code and build scripts; cancellation of
futures and the scheduling of tasks other than where an interleaving of whole calls is stated.
\<close>

end
